(* ===== verification/Prelude.thy ===== *)
theory Prelude
  imports "HOL-Library.Word" "HOL-Library.List_Lexorder" "HOL-Library.Sublist"
begin

text \<open>
  What the components share: the machine types of the crate, its error type and result type
  (\<^verbatim>\<open>src/src/error.rs\<close>), a result monad in which a Rust panic is a value of its own, checked
  slicing, little-endian integers, and the general lemmas on these.

  Keys and values are byte lists. Rust orders \<^verbatim>\<open>Vec<u8>\<close> and \<^verbatim>\<open>[u8]\<close> lexicographically, which is the
  order \<^verbatim>\<open>HOL-Library.List_Lexorder\<close> puts on lists. A \<^verbatim>\<open>usize\<close> is a \<^typ>\<open>nat\<close>: the sizes the code
  adds up are lengths of buffers in memory. Integers that are stored on disk or hashed keep their
  width (\<open>u8\<close>, \<open>u32\<close>, \<open>u64\<close>), and every \<^verbatim>\<open>as u32\<close> of the source is a truncating conversion here.
\<close>

unbundle bit_operations_syntax

section \<open>Types\<close>

type_synonym u8 = "8 word"
type_synonym u32 = "32 word"
type_synonym u64 = "64 word"
type_synonym bytes = "u8 list"

named_theorems result_simps \<open>evaluation of the result monad\<close>
named_theorems eval_simps \<open>definitions unfolded to evaluate a closed instance\<close>
named_theorems le_simps \<open>little-endian round trips and lengths\<close>

section \<open>Errors and results (error.rs)\<close>

datatype io_kind = NotFound | UnexpectedEof | OtherKind

datatype error =
    Io io_kind string
  | EmptyKey
  | CorruptedRecord
  | InvalidChecksum
  | InvalidManifest
  | KeyTooLarge
  | ValueTooLarge
  | Compaction string

text \<open>\<^verbatim>\<open>impl PartialEq for Error\<close>: two i/o errors are equal when their kinds are.\<close>

fun error_eq :: "error \<Rightarrow> error \<Rightarrow> bool" where
  "error_eq EmptyKey EmptyKey = True"
| "error_eq CorruptedRecord CorruptedRecord = True"
| "error_eq InvalidChecksum InvalidChecksum = True"
| "error_eq InvalidManifest InvalidManifest = True"
| "error_eq KeyTooLarge KeyTooLarge = True"
| "error_eq ValueTooLarge ValueTooLarge = True"
| "error_eq (Compaction a) (Compaction b) = (a = b)"
| "error_eq (Io a _) (Io b _) = (a = b)"
| "error_eq _ _ = False"

text \<open>\<^verbatim>\<open>impl Display for Error\<close>; the text of an i/o error is the message it carries.\<close>

fun error_display :: "error \<Rightarrow> string" where
  "error_display (Io _ source) = ''i/o error: '' @ source"
| "error_display EmptyKey = ''keys must not be empty''"
| "error_display CorruptedRecord = ''corrupted record''"
| "error_display InvalidChecksum = ''invalid checksum''"
| "error_display InvalidManifest = ''invalid manifest''"
| "error_display KeyTooLarge = ''key exceeds the maximum allowed size''"
| "error_display ValueTooLarge = ''value exceeds the maximum allowed size''"
| "error_display (Compaction message) = ''compaction error: '' @ message"

text \<open>
  A computation ends with a value, with an error the caller sees, or with a panic (an index or a
  slice out of range).
\<close>

datatype 'a result = Ok 'a | Err error | Panic

text \<open>Rust's \<^verbatim>\<open>?\<close>: go on with the value, or return the error.\<close>

fun and_then :: "'a result \<Rightarrow> ('a \<Rightarrow> 'b result) \<Rightarrow> 'b result" where
  "and_then (Ok x) f = f x"
| "and_then (Err e) f = Err e"
| "and_then Panic f = Panic"

lemma and_then_cong [fundef_cong]:
  "m = n \<Longrightarrow> (\<And>x. n = Ok x \<Longrightarrow> f x = g x) \<Longrightarrow> and_then m f = and_then n g"
  by (cases m) auto

lemma and_then_assoc: "and_then (and_then m f) g = and_then m (\<lambda>x. and_then (f x) g)"
  by (cases m) auto

lemma and_then_eq_Ok:
  "and_then m f = Ok y \<longleftrightarrow> (\<exists>x. m = Ok x \<and> f x = Ok y)"
  by (cases m) auto

lemma and_then_eq_Panic:
  "and_then m f = Panic \<longleftrightarrow> m = Panic \<or> (\<exists>x. m = Ok x \<and> f x = Panic)"
  by (cases m) auto

text \<open>The same for code that also changes a state: an early return keeps the state reached so far.\<close>

fun andThen :: "'a result \<times> 's \<Rightarrow> ('a \<Rightarrow> 's \<Rightarrow> 'b result \<times> 's) \<Rightarrow> 'b result \<times> 's" where
  "andThen (Ok x, s) f = f x s"
| "andThen (Err e, s) f = (Err e, s)"
| "andThen (Panic, s) f = (Panic, s)"

lemma andThen_cong [fundef_cong]:
  "m = n \<Longrightarrow> (\<And>x s. n = (Ok x, s) \<Longrightarrow> f x s = g x s) \<Longrightarrow> andThen m f = andThen n g"
  by (cases m; cases "fst m") auto

lemma andThen_case:
  "andThen m f = (case m of (r, s) \<Rightarrow> case r of Ok x \<Rightarrow> f x s | Err err \<Rightarrow> (Err err, s) | Panic \<Rightarrow> (Panic, s))"
  by (cases m; cases "fst m") auto

lemma andThen_eq_Ok:
  "andThen m f = (Ok y, s') \<longleftrightarrow> (\<exists>x s. m = (Ok x, s) \<and> f x s = (Ok y, s'))"
  by (cases m; cases "fst m") auto

section \<open>Slices\<close>

text \<open>\<^verbatim>\<open>&xs[a..b]\<close>, \<^verbatim>\<open>&xs[a..]\<close> and \<^verbatim>\<open>xs[i]\<close> panic out of range.\<close>

definition slice :: "nat \<Rightarrow> nat \<Rightarrow> 'a list \<Rightarrow> 'a list result" where
  "slice a b xs = (if a \<le> b \<and> b \<le> length xs then Ok (take (b - a) (drop a xs)) else Panic)"

definition slice_from :: "nat \<Rightarrow> 'a list \<Rightarrow> 'a list result" where
  "slice_from a xs = (if a \<le> length xs then Ok (drop a xs) else Panic)"

definition index :: "'a list \<Rightarrow> nat \<Rightarrow> 'a result" where
  "index xs i = (if i < length xs then Ok (xs ! i) else Panic)"

lemma slice_Ok [result_simps]:
  "a \<le> b \<Longrightarrow> b \<le> length xs \<Longrightarrow> slice a b xs = Ok (take (b - a) (drop a xs))"
  by (simp add: slice_def)

lemma slice_from_Ok [result_simps]: "a \<le> length xs \<Longrightarrow> slice_from a xs = Ok (drop a xs)"
  by (simp add: slice_from_def)

lemma index_Ok [result_simps]: "i < length xs \<Longrightarrow> index xs i = Ok (xs ! i)"
  by (simp add: index_def)

section \<open>Little-endian integers\<close>

definition le_bytes :: "nat \<Rightarrow> 'a::len word \<Rightarrow> bytes" where
  "le_bytes n w = map (\<lambda>i. ucast (drop_bit (8 * i) w)) [0..<n]"

primrec from_le :: "bytes \<Rightarrow> 'a::len word" where
  "from_le [] = 0"
| "from_le (b # bs) = ucast b OR push_bit 8 (from_le bs)"

text \<open>\<^verbatim>\<open>u32::to_le_bytes\<close> and \<^verbatim>\<open>u64::to_le_bytes\<close>.\<close>

definition u32_le :: "u32 \<Rightarrow> bytes" where
  "u32_le w = le_bytes 4 w"

definition u64_le :: "u64 \<Rightarrow> bytes" where
  "u64_le w = le_bytes 8 w"

text \<open>\<^verbatim>\<open>n as u32\<close> and \<^verbatim>\<open>n as u64\<close> of a \<^verbatim>\<open>usize\<close>.\<close>

abbreviation as_u32 :: "nat \<Rightarrow> u32" where
  "as_u32 n \<equiv> word_of_nat n"

abbreviation as_u64 :: "nat \<Rightarrow> u64" where
  "as_u64 n \<equiv> word_of_nat n"

lemma length_le_bytes [simp]: "length (le_bytes n w) = n"
  by (simp add: le_bytes_def)

lemma length_u32_le [simp, le_simps]: "length (u32_le w) = 4"
  by (simp add: u32_le_def)

lemma length_u64_le [simp, le_simps]: "length (u64_le w) = 8"
  by (simp add: u64_le_def)

lemma bit_from_le:
  "bit (from_le bs :: 'a::len word) n \<longleftrightarrow>
     n < LENGTH('a) \<and> n div 8 < length bs \<and> bit (bs ! (n div 8)) (n mod 8)"
proof (induction bs arbitrary: n)
  case Nil
  then show ?case by simp
next
  case (Cons b bs)
  show ?case
  proof (cases "n < 8")
    case True
    then show ?thesis
      by (auto simp: bit_or_iff bit_push_bit_iff bit_ucast_iff)
  next
    case False
    then obtain m where m: "n = m + 8"
      by (metis add.commute le_Suc_ex not_le)
    then have "n div 8 = Suc (m div 8)" and "n mod 8 = m mod 8"
      by simp_all
    moreover have "\<not> bit (ucast b :: 'a word) n"
      using False bit_imp_le_length [of b n] by (auto simp: bit_ucast_iff)
    ultimately show ?thesis
      using Cons.IH [of m] m by (auto simp: bit_or_iff bit_push_bit_iff)
  qed
qed

lemma bit_le_bytes_nth:
  "i < n \<Longrightarrow> bit (le_bytes n w ! i) j \<longleftrightarrow> j < 8 \<and> bit w (8 * i + j)"
  by (simp add: le_bytes_def bit_ucast_iff bit_drop_bit_eq)

lemma from_le_le_bytes:
  fixes w :: "'a::len word"
  assumes "LENGTH('a) \<le> 8 * n"
  shows "from_le (le_bytes n w) = w"
proof (rule bit_word_eqI)
  fix i
  assume i: "i < LENGTH('a)"
  with assms have "i div 8 < n"
    by (auto simp: div_less_iff_less_mult mult.commute)
  moreover have "8 * (i div 8) + i mod 8 = i"
    by simp
  ultimately show "bit (from_le (le_bytes n w) :: 'a word) i = bit w i"
    using i by (simp only: bit_from_le length_le_bytes bit_le_bytes_nth) simp
qed

lemma le_bytes_from_le:
  assumes "8 * n \<le> LENGTH('a::len)" and "length bs = n"
  shows "le_bytes n (from_le bs :: 'a word) = bs"
proof (rule nth_equalityI)
  show "length (le_bytes n (from_le bs :: 'a word)) = length bs"
    using assms by simp
next
  fix i
  assume "i < length (le_bytes n (from_le bs :: 'a word))"
  then have i: "i < n" by simp
  show "le_bytes n (from_le bs :: 'a word) ! i = bs ! i"
  proof (rule bit_word_eqI)
    fix j
    assume j: "j < LENGTH(8)"
    then have "(8 * i + j) div 8 = i" and "(8 * i + j) mod 8 = j" and "8 * i + j < LENGTH('a)"
      using assms i by auto
    then show "bit (le_bytes n (from_le bs :: 'a word) ! i) j = bit (bs ! i) j"
      using i j assms by (simp add: bit_le_bytes_nth bit_from_le)
  qed
qed

lemma from_le_u32_le [simp, le_simps]: "from_le (u32_le w) = w"
  by (simp add: u32_le_def from_le_le_bytes)

lemma from_le_u64_le [simp, le_simps]: "from_le (u64_le w) = w"
  by (simp add: u64_le_def from_le_le_bytes)

lemma u32_le_from_le: "length bs = 4 \<Longrightarrow> u32_le (from_le bs) = bs"
  by (simp add: u32_le_def le_bytes_from_le)

lemma u64_le_from_le: "length bs = 8 \<Longrightarrow> u64_le (from_le bs) = bs"
  by (simp add: u64_le_def le_bytes_from_le)

lemma u32_le_inject [simp]: "u32_le a = u32_le b \<longleftrightarrow> a = b"
  by (metis from_le_u32_le)

lemma u64_le_inject [simp]: "u64_le a = u64_le b \<longleftrightarrow> a = b"
  by (metis from_le_u64_le)

lemma unat_as_u32 [le_simps]: "n < 2 ^ 32 \<Longrightarrow> unat (as_u32 n) = n"
  by (simp add: unat_of_nat take_bit_nat_eq_self)

lemma unat_as_u64 [le_simps]: "n < 2 ^ 64 \<Longrightarrow> unat (as_u64 n) = n"
  by (simp add: unat_of_nat take_bit_nat_eq_self)

lemma bit_imp_ge_unat:
  assumes "bit w n"
  shows "2 ^ n \<le> unat w"
proof (rule ccontr)
  assume "\<not> 2 ^ n \<le> unat w"
  then have "take_bit n (unat w) = unat w"
    by (simp add: take_bit_nat_eq_self)
  then have "\<not> bit (unat w) n"
    by (metis bit_take_bit_iff less_irrefl)
  then show False
    using assms by (simp add: bit_unsigned_iff bit_imp_possible_bit)
qed

lemma u32_le_eval [eval_simps]:
  "u32_le w = [ucast w, ucast (drop_bit 8 w), ucast (drop_bit 16 w), ucast (drop_bit 24 w)]"
  by (simp add: u32_le_def le_bytes_def upt_rec)

lemma u64_le_eval [eval_simps]:
  "u64_le w = [ucast w, ucast (drop_bit 8 w), ucast (drop_bit 16 w), ucast (drop_bit 24 w),
     ucast (drop_bit 32 w), ucast (drop_bit 40 w), ucast (drop_bit 48 w), ucast (drop_bit 56 w)]"
  by (simp add: u64_le_def le_bytes_def upt_rec)

lemmas [eval_simps] = slice_def slice_from_def index_def

section \<open>Lists\<close>

lemma take_append_exact: "length xs = n \<Longrightarrow> take n (xs @ ys) = xs"
  by simp

lemma drop_append_exact: "length xs = n \<Longrightarrow> drop n (xs @ ys) = ys"
  by simp

lemma take_prefix_cases:
  "(\<exists>m\<le>length xs. take n (xs @ ys) = take m xs) \<or> (\<exists>m. take n (xs @ ys) = xs @ take m ys)"
  by (cases "n \<le> length xs") auto

section \<open>Sorted association lists\<close>

text \<open>
  \<^verbatim>\<open>std::collections::BTreeMap\<close> as the list of its entries in key order: \<^const>\<open>map_of\<close> is \<^verbatim>\<open>get\<close>,
  the list itself is \<^verbatim>\<open>iter\<close>, and \<open>btree_insert\<close> is \<^verbatim>\<open>insert\<close>.
\<close>

abbreviation ksorted :: "('k::linorder \<times> 'v) list \<Rightarrow> bool" where
  "ksorted xs \<equiv> sorted_wrt (<) (map fst xs)"

fun btree_insert :: "'k::linorder \<Rightarrow> 'v \<Rightarrow> ('k \<times> 'v) list \<Rightarrow> ('k \<times> 'v) list" where
  "btree_insert k v [] = [(k, v)]"
| "btree_insert k v ((a, b) # xs) =
     (if k < a then (k, v) # (a, b) # xs
      else if k = a then (k, v) # xs
      else (a, b) # btree_insert k v xs)"

lemma map_of_btree_insert [simp]: "map_of (btree_insert k v xs) = (map_of xs)(k \<mapsto> v)"
  by (induction k v xs rule: btree_insert.induct) (auto simp: fun_eq_iff)

lemma fst_set_btree_insert: "fst ` set (btree_insert k v xs) = insert k (fst ` set xs)"
  by (induction k v xs rule: btree_insert.induct) auto

lemma set_btree_insert: "set (btree_insert k v xs) \<subseteq> insert (k, v) (set xs)"
  by (induction k v xs rule: btree_insert.induct) auto

lemma ksorted_btree_insert [simp]: "ksorted xs \<Longrightarrow> ksorted (btree_insert k v xs)"
proof (induction k v xs rule: btree_insert.induct)
  case (1 k v)
  then show ?case by simp
next
  case (2 k v a b xs)
  then show ?case
    using fst_set_btree_insert [of k v xs] by (auto simp: image_iff)
qed

lemma btree_insert_nonempty [simp]: "btree_insert k v xs \<noteq> []"
  by (induction k v xs rule: btree_insert.induct) auto

lemma ksorted_distinct: "ksorted xs \<Longrightarrow> distinct (map fst xs)"
  by (simp add: strict_sorted_iff)

lemma ksorted_sorted: "ksorted xs \<Longrightarrow> sorted (map fst xs)"
  by (simp add: strict_sorted_iff)

lemma ksorted_append:
  "ksorted (xs @ ys) \<longleftrightarrow> ksorted xs \<and> ksorted ys \<and> (\<forall>(a, _) \<in> set xs. \<forall>(b, _) \<in> set ys. a < b)"
  by (auto simp: sorted_wrt_append split_def)

lemma ksorted_filter: "ksorted xs \<Longrightarrow> ksorted (filter P xs)"
  by (induction xs) auto

lemma ksorted_map_of: "ksorted xs \<Longrightarrow> map_of xs k = Some v \<longleftrightarrow> (k, v) \<in> set xs"
  by (simp add: ksorted_distinct)

lemma map_of_rev_distinct: "distinct (map fst xs) \<Longrightarrow> map_of (rev xs) = map_of xs"
  by (induction xs)
    (auto simp: fun_eq_iff map_add_def image_iff dest!: map_of_SomeD split: option.splits)

text \<open>Sorted lists with the same lookups are the same list.\<close>

lemma ksorted_map_of_eqI:
  assumes "ksorted xs" and "ksorted ys" and "map_of xs = map_of ys"
  shows "xs = ys"
proof -
  from assms have "set xs = set ys"
    by (auto simp flip: ksorted_map_of [OF assms(1)] ksorted_map_of [OF assms(2)])
  with assms(1,2) show ?thesis
    by (intro map_sorted_distinct_set_unique [where f = fst])
      (auto simp: ksorted_sorted ksorted_distinct inj_on_def
        dest: eq_key_imp_eq_value [OF ksorted_distinct])
qed

section \<open>Decimal numbers\<close>

text \<open>\<^verbatim>\<open>format!("{n}")\<close> and the zero padding of \<^verbatim>\<open>format!("{n:06}")\<close>.\<close>

fun decimal :: "nat \<Rightarrow> string" where
  "decimal n = (if n < 10 then [char_of (48 + n)] else decimal (n div 10) @ [char_of (48 + n mod 10)])"

declare decimal.simps [simp del]

definition pad_zeros :: "nat \<Rightarrow> string \<Rightarrow> string" where
  "pad_zeros width s = replicate (width - length s) (CHR ''0'') @ s"

definition undecimal :: "string \<Rightarrow> nat" where
  "undecimal s = foldl (\<lambda>n c. 10 * n + (of_char c - 48)) 0 s"

lemma of_char_digit: "d < 10 \<Longrightarrow> (of_char (char_of (48 + d) :: char) :: nat) = 48 + d"
  by simp

lemma undecimal_decimal: "undecimal (decimal n) = n"
proof (induction n rule: decimal.induct)
  case (1 n)
  show ?case
  proof (cases "n < 10")
    case True
    then show ?thesis
      by (simp add: decimal.simps [of n] undecimal_def of_char_digit del: of_char_of)
  next
    case False
    have "undecimal (decimal n) = 10 * undecimal (decimal (n div 10)) + n mod 10"
      using False
      by (simp add: decimal.simps [of n] undecimal_def of_char_digit del: of_char_of)
    then show ?thesis
      using 1 False by simp
  qed
qed

lemma undecimal_pad: "undecimal (pad_zeros width s) = undecimal s"
proof -
  have "foldl (\<lambda>n c. 10 * n + (of_char c - 48)) (0 :: nat) (replicate k (CHR ''0'')) = 0" for k
    by (induction k) simp_all
  then show ?thesis
    by (simp add: undecimal_def pad_zeros_def)
qed

lemma pad_decimal_inject: "pad_zeros w (decimal a) = pad_zeros w (decimal b) \<longleftrightarrow> a = b"
  by (metis undecimal_decimal undecimal_pad)

definition is_digit :: "char \<Rightarrow> bool" where
  "is_digit c \<longleftrightarrow> (48 :: nat) \<le> of_char c \<and> (of_char c :: nat) \<le> 57"

lemma digits_decimal: "list_all is_digit (decimal n)"
proof (induction n rule: decimal.induct)
  case (1 n)
  then show ?case
    by (cases "n < 10")
      (simp_all add: decimal.simps [of n] is_digit_def of_char_digit del: of_char_of)
qed

lemma digits_pad: "list_all is_digit (pad_zeros w (decimal n))"
  using digits_decimal [of n] by (auto simp: pad_zeros_def list_all_iff is_digit_def)

lemma decimal_not_Nil [simp]: "decimal n \<noteq> []"
  by (subst decimal.simps) simp

end
