(* ===== verification/Crc.thy ===== *)
theory Crc
  imports Prelude
begin

text \<open>
  The checksum of every on-disk structure (\<^verbatim>\<open>src/src/crc.rs\<close>): the CRC32 loop and the two readers of
  little-endian integers, the interface the formats rely on (a locale: one changed byte is always
  noticed), and the proof that the CRC32 loop keeps that promise.
\<close>

section \<open>The code\<close>

definition crc32_bit :: "u32 \<Rightarrow> u32" where
  "crc32_bit crc = (let mask = - (crc AND 1) in drop_bit 1 crc XOR (0xEDB88320 AND mask))"

definition crc32_byte :: "u32 \<Rightarrow> u8 \<Rightarrow> u32" where
  "crc32_byte crc byte = (crc32_bit ^^ 8) (crc XOR ucast byte)"

definition crc32 :: "bytes \<Rightarrow> u32" where
  "crc32 bytes = NOT (foldl crc32_byte 0xFFFFFFFF bytes)"

definition read_u32_le :: "bytes \<Rightarrow> u32 result" where
  "read_u32_le bytes = (if length bytes = 4 then Ok (from_le bytes) else Panic)"

definition read_u64_le :: "bytes \<Rightarrow> u64 result" where
  "read_u64_le bytes = (if length bytes = 8 then Ok (from_le bytes) else Panic)"

text \<open>The reads \<^verbatim>\<open>read_u32_le(&xs[a..b])\<close> and \<^verbatim>\<open>read_u64_le(&xs[a..b])\<close> of the callers.\<close>

definition read_u32_at :: "nat \<Rightarrow> nat \<Rightarrow> bytes \<Rightarrow> u32 result" where
  "read_u32_at a b xs = and_then (slice a b xs) read_u32_le"

definition read_u64_at :: "nat \<Rightarrow> nat \<Rightarrow> bytes \<Rightarrow> u64 result" where
  "read_u64_at a b xs = and_then (slice a b xs) read_u64_le"

lemma read_u32_at_Ok [result_simps]:
  "b = a + 4 \<Longrightarrow> b \<le> length xs \<Longrightarrow> read_u32_at a b xs = Ok (from_le (take 4 (drop a xs)))"
  by (simp add: read_u32_at_def read_u32_le_def slice_def)

lemma read_u64_at_Ok [result_simps]:
  "b = a + 8 \<Longrightarrow> b \<le> length xs \<Longrightarrow> read_u64_at a b xs = Ok (from_le (take 8 (drop a xs)))"
  by (simp add: read_u64_at_def read_u64_le_def slice_def)

section \<open>What a checksum promises\<close>

text \<open>
  The formats use the checksum through one law: two byte strings that differ in exactly one
  position have different sums.
\<close>

locale checksum =
  fixes sum :: "bytes \<Rightarrow> u32"
  assumes sum_update: "i < length xs \<Longrightarrow> b \<noteq> xs ! i \<Longrightarrow> sum (xs[i := b]) \<noteq> sum xs"
begin

text \<open>A frame is a body preceded by its little-endian checksum (records and manifest entries).\<close>

definition frame_ok :: "bytes \<Rightarrow> bool" where
  "frame_ok fr \<longleftrightarrow> 4 \<le> length fr \<and> from_le (take 4 fr) = sum (drop 4 fr)"

lemma frame_ok_frame: "frame_ok (u32_le (sum body) @ body)"
  by (simp add: frame_ok_def)

lemma frame_detects:
  assumes ok: "frame_ok fr" and i: "i < length fr" and b: "b \<noteq> fr ! i"
  shows "\<not> frame_ok (fr[i := b])"
proof (cases "i < 4")
  case True
  have "take 4 (fr[i := b]) = (take 4 fr)[i := b]"
    by (simp add: take_update_swap)
  moreover have "(take 4 fr)[i := b] \<noteq> take 4 fr"
    using True i b by (metis length_take min_less_iff_conj nth_list_update_eq nth_take)
  moreover have "length (take 4 fr) = 4"
    using ok by (simp add: frame_ok_def)
  then have "u32_le (from_le ((take 4 fr)[i := b])) = (take 4 fr)[i := b]"
    and "u32_le (from_le (take 4 fr)) = take 4 fr"
    by (simp_all add: u32_le_from_le)
  ultimately have "from_le (take 4 (fr[i := b])) \<noteq> (from_le (take 4 fr) :: u32)"
    by metis
  then show ?thesis
    using ok True by (simp add: frame_ok_def)
next
  case False
  then have "drop 4 (fr[i := b]) = (drop 4 fr)[i - 4 := b]"
    and "take 4 (fr[i := b]) = take 4 fr"
    by (simp_all add: drop_update_swap)
  moreover have "i - 4 < length (drop 4 fr)" and "b \<noteq> drop 4 fr ! (i - 4)"
    using False i b by simp_all
  ultimately show ?thesis
    using ok sum_update by (metis frame_ok_def)
qed

text \<open>A trailer is a body followed by its checksum (data blocks, index, Bloom filter).\<close>

definition trailer_ok :: "bytes \<Rightarrow> bool" where
  "trailer_ok tr \<longleftrightarrow> 4 \<le> length tr \<and>
     from_le (drop (length tr - 4) tr) = sum (take (length tr - 4) tr)"

lemma trailer_ok_trailer: "trailer_ok (body @ u32_le (sum body))"
  by (simp add: trailer_ok_def)

lemma trailer_detects:
  assumes ok: "trailer_ok tr" and i: "i < length tr" and b: "b \<noteq> tr ! i"
  shows "\<not> trailer_ok (tr[i := b])"
proof (cases "i < length tr - 4")
  case True
  let ?n = "length tr - 4"
  have new: "take ?n (tr[i := b]) = (take ?n tr)[i := b]" "drop ?n (tr[i := b]) = drop ?n tr"
    using True by (simp_all add: take_update_swap)
  have "sum ((take ?n tr)[i := b]) \<noteq> sum (take ?n tr)"
    by (rule sum_update) (use True b in simp_all)
  then show ?thesis
    using ok by (simp add: trailer_ok_def new)
next
  case False
  let ?n = "length tr - 4"
  let ?old = "drop ?n tr" and ?j = "i - ?n"
  have new: "take ?n (tr[i := b]) = take ?n tr" "drop ?n (tr[i := b]) = ?old[?j := b]"
    using False by (simp_all add: drop_update_swap)
  have len: "length ?old = 4"
    using ok by (simp add: trailer_ok_def)
  have "?j < length ?old" and "?old ! ?j = tr ! i"
    using False i by simp_all
  then have "?old[?j := b] \<noteq> ?old"
    using b by (metis nth_list_update_eq)
  moreover from len have "u32_le (from_le (?old[?j := b])) = ?old[?j := b]"
    and "u32_le (from_le ?old) = ?old"
    by (simp_all add: u32_le_from_le)
  ultimately have "from_le (?old[?j := b]) \<noteq> (from_le ?old :: u32)"
    by metis
  then show ?thesis
    using ok by (simp add: trailer_ok_def new)
qed

end

section \<open>CRC32 is a checksum\<close>

lemma crc32_bit_if:
  "crc32_bit crc = drop_bit 1 crc XOR (if odd crc then 0xEDB88320 else 0)"
proof (cases "odd crc")
  case True
  then have "crc AND 1 = 1" by (simp add: and_one_eq mod_2_eq_odd)
  then show ?thesis using True by (simp add: crc32_bit_def)
next
  case False
  then have "crc AND 1 = 0" by (simp add: and_one_eq mod_2_eq_odd)
  then show ?thesis using False by (simp add: crc32_bit_def)
qed

text \<open>
  The top bit of the polynomial is set and a shifted word has a clear top bit, so the low bit that
  is shifted out can be read off the result: one step loses nothing.
\<close>

lemma crc32_bit_top: "bit (crc32_bit crc) 31 \<longleftrightarrow> odd crc"
proof -
  have "\<not> bit (drop_bit 1 crc) 31"
    using bit_imp_le_length [of crc 32] by (auto simp: bit_drop_bit_eq)
  moreover have "bit (0xEDB88320 :: u32) 31"
    by simp
  ultimately show ?thesis
    by (simp add: crc32_bit_if bit_xor_iff)
qed

lemma xor_right_cancel: "a XOR c = b XOR c \<longleftrightarrow> a = (b :: 'a::len word)"
  by (auto simp: bit_eq_iff bit_xor_iff)

lemma xor_left_cancel: "c XOR a = c XOR b \<longleftrightarrow> a = (b :: 'a::len word)"
  by (auto simp: bit_eq_iff bit_xor_iff)

lemma inj_crc32_bit: "inj crc32_bit"
proof (rule injI)
  fix x y
  assume eq: "crc32_bit x = crc32_bit y"
  then have odd: "odd x = odd y"
    by (metis crc32_bit_top)
  with eq have "drop_bit 1 x = drop_bit 1 y"
    by (simp add: crc32_bit_if xor_right_cancel)
  then have "x div 2 = y div 2"
    by (simp add: drop_bit_eq_div)
  moreover from odd have "x mod 2 = y mod 2"
    by (simp add: mod_2_eq_odd)
  ultimately show "x = y"
    by (metis div_mult_mod_eq)
qed

lemma inj_crc32_bits: "inj (crc32_bit ^^ n)"
proof (induction n)
  case 0
  then show ?case by simp
next
  case (Suc n)
  then have "inj (crc32_bit \<circ> (crc32_bit ^^ n))"
    by (rule inj_compose [OF inj_crc32_bit])
  then show ?case by (simp only: funpow.simps)
qed

lemma crc32_byte_inject_left: "crc32_byte a byte = crc32_byte b byte \<longleftrightarrow> a = b"
proof
  assume "crc32_byte a byte = crc32_byte b byte"
  then have "a XOR ucast byte = b XOR ucast byte"
    unfolding crc32_byte_def by (rule injD [OF inj_crc32_bits])
  then show "a = b"
    by (simp add: xor_right_cancel)
qed simp

lemma inj_ucast_u8: "inj (ucast :: u8 \<Rightarrow> u32)"
proof (rule injI)
  fix a b :: u8
  assume "(ucast a :: u32) = ucast b"
  then have "\<And>n. bit (ucast a :: u32) n = bit (ucast b :: u32) n"
    by simp
  then have eq: "n < 32 \<and> bit a n \<longleftrightarrow> n < 32 \<and> bit b n" for n
    by (simp add: bit_ucast_iff)
  have "bit a n = bit b n" if "n < 8" for n
    using that eq [of n] by simp
  then show "a = b"
    by (intro bit_word_eqI) simp
qed

lemma crc32_byte_inject_right: "crc32_byte crc a = crc32_byte crc b \<longleftrightarrow> a = b"
proof
  assume "crc32_byte crc a = crc32_byte crc b"
  then have "crc XOR ucast a = crc XOR ucast b"
    unfolding crc32_byte_def by (rule injD [OF inj_crc32_bits])
  then have "(ucast a :: u32) = ucast b"
    by (simp add: xor_left_cancel)
  then show "a = b"
    by (rule injD [OF inj_ucast_u8])
qed simp

lemma foldl_crc32_byte_inject:
  "foldl crc32_byte a xs = foldl crc32_byte b xs \<longleftrightarrow> a = b"
  by (induction xs arbitrary: a b) (simp_all add: crc32_byte_inject_left)

lemma foldl_crc32_byte_update:
  "i < length xs \<Longrightarrow> b \<noteq> xs ! i \<Longrightarrow>
     foldl crc32_byte c (xs[i := b]) \<noteq> foldl crc32_byte c xs"
proof (induction xs arbitrary: c i)
  case Nil
  then show ?case by simp
next
  case (Cons x xs)
  then show ?case
    by (cases i) (simp_all add: foldl_crc32_byte_inject crc32_byte_inject_right)
qed

lemma NOT_inject_word: "NOT a = NOT b \<longleftrightarrow> a = (b :: 'a::len word)"
  by (metis bit.double_compl)

interpretation crc: checksum crc32
proof unfold_locales
  fix i b and xs :: bytes
  assume "i < length xs" and "b \<noteq> xs ! i"
  then show "crc32 (xs[i := b]) \<noteq> crc32 xs"
    using foldl_crc32_byte_update by (simp add: crc32_def NOT_inject_word)
qed

section \<open>Evaluation\<close>

lemma crc32_byte_eval [eval_simps]:
  "crc32_byte crc b =
     crc32_bit (crc32_bit (crc32_bit (crc32_bit
       (crc32_bit (crc32_bit (crc32_bit (crc32_bit (crc XOR ucast b))))))))"
  by (simp add: crc32_byte_def eval_nat_numeral)

lemmas [eval_simps] =
  crc32_def crc32_bit_if read_u32_at_def read_u32_le_def read_u64_at_def read_u64_le_def

text \<open>The vector the unit test of \<^verbatim>\<open>crc.rs\<close> checks: the CRC32 of \<^verbatim>\<open>"123456789"\<close>.\<close>

lemma crc32_known_vector:
  "crc32 [0x31, 0x32, 0x33, 0x34, 0x35, 0x36, 0x37, 0x38, 0x39] = 0xCBF43926"
  by (simp add: eval_simps)

end
