(* ===== verification/Wal_Record.thy ===== *)
theory Wal_Record
  imports Crc
begin

text \<open>
  The binary record of one mutation (\<^verbatim>\<open>src/src/record.rs\<close>) with the size limits of
  \<^verbatim>\<open>src/src/engine.rs\<close>: encoding, the strict decoder, and what they promise. The decoder is the exact
  inverse of the encoder, never panics, and rejects every record in which one byte was changed.
\<close>

section \<open>The code\<close>

datatype operation = Put bytes bytes | Delete bytes

definition MAX_KEY_SIZE :: nat where
  "MAX_KEY_SIZE = 64 * 1024"

definition MAX_VALUE_SIZE :: nat where
  "MAX_VALUE_SIZE = 64 * 1024 * 1024"

definition RECORD_TYPE_PUT :: u8 where
  "RECORD_TYPE_PUT = 1"

definition RECORD_TYPE_DELETE :: u8 where
  "RECORD_TYPE_DELETE = 2"

definition CHECKSUM_LEN :: nat where
  "CHECKSUM_LEN = 4"

definition BODY_HEADER_LEN :: nat where
  "BODY_HEADER_LEN = 1 + 4 + 4"

definition RECORD_HEADER_LEN :: nat where
  "RECORD_HEADER_LEN = CHECKSUM_LEN + BODY_HEADER_LEN"

definition KEY_LEN_OFFSET :: nat where
  "KEY_LEN_OFFSET = 5"

definition VALUE_LEN_OFFSET :: nat where
  "VALUE_LEN_OFFSET = 9"

fun op_parts :: "operation \<Rightarrow> u8 \<times> bytes \<times> bytes" where
  "op_parts (Put key v) = (RECORD_TYPE_PUT, key, v)"
| "op_parts (Delete key) = (RECORD_TYPE_DELETE, key, [])"

definition record_body :: "u8 \<Rightarrow> bytes \<Rightarrow> bytes \<Rightarrow> bytes" where
  "record_body record_type key v =
     [record_type] @ u32_le (as_u32 (length key)) @ u32_le (as_u32 (length v)) @ key @ v"

definition encode :: "operation \<Rightarrow> bytes result" where
  "encode op =
     (case op_parts op of (record_type, key, v) \<Rightarrow>
        if length key > MAX_KEY_SIZE then Err KeyTooLarge
        else if length v > MAX_VALUE_SIZE then Err ValueTooLarge
        else let body = record_body record_type key v;
                 checksum = crc32 body
             in Ok (u32_le checksum @ body))"

definition decode :: "bytes \<Rightarrow> operation result" where
  "decode bs =
     (if length bs < RECORD_HEADER_LEN then Err CorruptedRecord else
      and_then (read_u32_at 0 CHECKSUM_LEN bs) (\<lambda>checksum.
      and_then (slice_from CHECKSUM_LEN bs) (\<lambda>body.
      and_then (index body 0) (\<lambda>record_type.
      and_then (read_u32_at 1 5 body) (\<lambda>key_len32.
      and_then (read_u32_at 5 9 body) (\<lambda>value_len32.
      let key_len = unat key_len32; value_len = unat value_len32 in
      if key_len > MAX_KEY_SIZE \<or> value_len > MAX_VALUE_SIZE then Err CorruptedRecord else
      let expected_body_len = BODY_HEADER_LEN + key_len + value_len in
      if length body \<noteq> expected_body_len then Err CorruptedRecord else
      if crc32 body \<noteq> checksum then Err InvalidChecksum else
      let key_start = BODY_HEADER_LEN; key_end = key_start + key_len;
          value_end = key_end + value_len in
      and_then (slice key_start key_end body) (\<lambda>key.
      and_then (slice key_end value_end body) (\<lambda>v.
      if record_type = RECORD_TYPE_PUT then Ok (Put key v)
      else if record_type = RECORD_TYPE_DELETE then
        (if value_len \<noteq> 0 then Err CorruptedRecord else Ok (Delete key))
      else Err CorruptedRecord))))))))"

lemmas record_type_consts = RECORD_TYPE_PUT_def RECORD_TYPE_DELETE_def CHECKSUM_LEN_def
  BODY_HEADER_LEN_def RECORD_HEADER_LEN_def KEY_LEN_OFFSET_def VALUE_LEN_OFFSET_def

lemmas record_consts = MAX_KEY_SIZE_def MAX_VALUE_SIZE_def record_type_consts

lemmas [eval_simps] = record_consts record_body_def encode_def decode_def

lemma record_nums: "CHECKSUM_LEN = 4" "BODY_HEADER_LEN = 9" "RECORD_HEADER_LEN = 13"
  "KEY_LEN_OFFSET = 5" "VALUE_LEN_OFFSET = 9" "RECORD_TYPE_PUT = 1" "RECORD_TYPE_DELETE = 2"
  by (simp_all add: record_consts)

section \<open>The encoder\<close>

definition op_key :: "operation \<Rightarrow> bytes" where
  "op_key op = fst (snd (op_parts op))"

definition op_value :: "operation \<Rightarrow> bytes" where
  "op_value op = snd (snd (op_parts op))"

lemma op_key_simps [simp]: "op_key (Put k v) = k" "op_key (Delete k) = k"
  by (simp_all add: op_key_def)

lemma op_value_simps [simp]: "op_value (Put k v) = v" "op_value (Delete k) = []"
  by (simp_all add: op_value_def)

definition op_fits :: "operation \<Rightarrow> bool" where
  "op_fits op \<longleftrightarrow> length (op_key op) \<le> MAX_KEY_SIZE \<and> length (op_value op) \<le> MAX_VALUE_SIZE"

text \<open>The bytes of an operation that fits.\<close>

definition op_body :: "operation \<Rightarrow> bytes" where
  "op_body op = record_body (fst (op_parts op)) (op_key op) (op_value op)"

definition op_bytes :: "operation \<Rightarrow> bytes" where
  "op_bytes op = u32_le (crc32 (op_body op)) @ op_body op"

lemma encode_eq:
  "encode op =
     (if length (op_key op) > MAX_KEY_SIZE then Err KeyTooLarge
      else if length (op_value op) > MAX_VALUE_SIZE then Err ValueTooLarge
      else Ok (op_bytes op))"
  by (simp add: encode_def op_bytes_def op_body_def op_key_def op_value_def Let_def split: prod.splits)

lemma encode_fits: "op_fits op \<Longrightarrow> encode op = Ok (op_bytes op)"
  by (simp add: op_fits_def encode_eq)

lemma encode_Ok_iff: "encode op = Ok bs \<longleftrightarrow> op_fits op \<and> bs = op_bytes op"
  by (auto simp: op_fits_def encode_eq)

lemma encode_not_fits: "\<not> op_fits op \<Longrightarrow> encode op \<in> {Err KeyTooLarge, Err ValueTooLarge}"
  by (auto simp: op_fits_def encode_eq)

lemma op_bytes_not_Nil [simp]: "op_bytes op \<noteq> []"
  by (simp add: op_bytes_def op_body_def record_body_def)

lemma length_op_bytes: "length (op_bytes op) = 13 + length (op_key op) + length (op_value op)"
  by (simp add: op_bytes_def op_body_def record_body_def)

section \<open>The decoder\<close>

text \<open>The decoder without the slices, which are all in range once the header is there.\<close>

definition body_key_len :: "bytes \<Rightarrow> nat" where
  "body_key_len body = unat (from_le (take 4 (drop 1 body)) :: u32)"

definition body_value_len :: "bytes \<Rightarrow> nat" where
  "body_value_len body = unat (from_le (take 4 (drop 5 body)) :: u32)"

lemma decode_pure:
  assumes "13 \<le> length bs" and body: "body = drop 4 bs"
  shows "decode bs =
     (if body_key_len body > MAX_KEY_SIZE \<or> body_value_len body > MAX_VALUE_SIZE
      then Err CorruptedRecord
      else if length body \<noteq> 9 + body_key_len body + body_value_len body then Err CorruptedRecord
      else if \<not> crc.frame_ok bs then Err InvalidChecksum
      else if body ! 0 = 1
        then Ok (Put (take (body_key_len body) (drop 9 body)) (drop (9 + body_key_len body) body))
      else if body ! 0 = 2 \<and> body_value_len body = 0
        then Ok (Delete (take (body_key_len body) (drop 9 body)))
      else Err CorruptedRecord)"
proof -
  have frame: "crc.frame_ok bs \<longleftrightarrow> crc32 body = from_le (take 4 bs)"
    using assms by (auto simp: crc.frame_ok_def)
  have len: "9 \<le> length body" using assms by simp
  have r0: "read_u32_at 0 4 bs = Ok (from_le (take 4 bs))"
    and rb: "slice_from 4 bs = Ok body"
    using assms by (simp_all add: result_simps)
  have ri: "index body 0 = Ok (body ! 0)"
    and rk: "read_u32_at 1 5 body = Ok (from_le (take 4 (drop 1 body)))"
    and rv: "read_u32_at 5 9 body = Ok (from_le (take 4 (drop 5 body)))"
    using len by (auto simp: result_simps index_def)
  have split: "decode bs =
     (let key_len = body_key_len body; value_len = body_value_len body in
      if key_len > MAX_KEY_SIZE \<or> value_len > MAX_VALUE_SIZE then Err CorruptedRecord else
      if length body \<noteq> 9 + key_len + value_len then Err CorruptedRecord else
      if crc32 body \<noteq> from_le (take 4 bs) then Err InvalidChecksum else
      and_then (slice 9 (9 + key_len) body) (\<lambda>key.
      and_then (slice (9 + key_len) (9 + key_len + value_len) body) (\<lambda>v.
      if body ! 0 = 1 then Ok (Put key v)
      else if body ! 0 = 2 then (if value_len \<noteq> 0 then Err CorruptedRecord else Ok (Delete key))
      else Err CorruptedRecord)))"
    unfolding decode_def record_nums r0 rb ri rk rv and_then.simps Let_def body_key_len_def
      body_value_len_def
    by (rule if_not_P) (use assms(1) in simp)
  show ?thesis
    unfolding split Let_def frame by (auto simp: slice_def)
qed

lemma decode_short: "length bs < 13 \<Longrightarrow> decode bs = Err CorruptedRecord"
  by (simp add: decode_def record_consts)

lemma op_body_lens:
  assumes "op_fits op"
  shows "body_key_len (op_body op) = length (op_key op)"
    and "body_value_len (op_body op) = length (op_value op)"
  using assms
  by (simp_all add: op_fits_def body_key_len_def body_value_len_def op_body_def record_body_def
      record_consts unat_as_u32)

lemma decode_op_bytes:
  assumes fits: "op_fits op"
  shows "decode (op_bytes op) = Ok op"
proof -
  let ?body = "op_body op" and ?k = "op_key op" and ?v = "op_value op"
  have body: "?body = drop 4 (op_bytes op)" and long: "13 \<le> length (op_bytes op)"
    by (simp_all add: op_bytes_def length_op_bytes op_body_def record_body_def)
  have frame: "crc.frame_ok (op_bytes op)"
    by (simp add: op_bytes_def crc.frame_ok_frame)
  have len: "length ?body = 9 + length ?k + length ?v"
    and type: "?body ! 0 = fst (op_parts op)" and payload: "drop 9 ?body = ?k @ ?v"
    by (simp_all add: op_body_def record_body_def)
  have rest: "drop (9 + length ?k) ?body = ?v"
    using payload by (metis add.commute append_eq_conv_conj drop_drop)
  have key: "take (length ?k) (drop 9 ?body) = ?k"
    using payload by simp
  have sizes: "\<not> (length ?k > MAX_KEY_SIZE \<or> length ?v > MAX_VALUE_SIZE)"
    using fits by (simp add: op_fits_def)
  have "decode (op_bytes op) =
     (if fst (op_parts op) = 1 then Ok (Put ?k ?v)
      else if fst (op_parts op) = 2 \<and> length ?v = 0 then Ok (Delete ?k)
      else Err CorruptedRecord)"
    unfolding decode_pure [OF long body] op_body_lens [OF fits] type key rest len
    using frame sizes by simp
  then show ?thesis
    by (cases op) (simp_all add: record_consts)
qed

text \<open>Conversely the decoder accepts nothing but the encoder's output.\<close>

lemma list_split_1_4_4:
  assumes "9 \<le> length xs"
  shows "xs = [xs ! 0] @ take 4 (drop 1 xs) @ take 4 (drop 5 xs) @ drop 9 xs"
proof -
  have "drop 9 xs = drop 4 (drop 5 xs)" and "drop 5 xs = drop 4 (drop 1 xs)"
    by simp_all
  then have "take 4 (drop 1 xs) @ take 4 (drop 5 xs) @ drop 9 xs = drop 1 xs"
    by (simp only: append_take_drop_id)
  moreover have "xs = [xs ! 0] @ drop 1 xs"
    using assms by (cases xs) auto
  ultimately show ?thesis by simp
qed

lemma decode_Ok_bytes:
  assumes "decode bs = Ok op"
  shows "op_fits op \<and> bs = op_bytes op"
proof -
  define body where "body = drop 4 bs"
  let ?kl = "body_key_len body" and ?vl = "body_value_len body"
  have long: "13 \<le> length bs"
    using assms decode_short [of bs] by fastforce
  note dec = assms [unfolded decode_pure [OF long body_def]]
  have sizes: "?kl \<le> MAX_KEY_SIZE" "?vl \<le> MAX_VALUE_SIZE"
    and len: "length body = 9 + ?kl + ?vl" and frame: "crc.frame_ok bs"
    and op: "body ! 0 = 1 \<and> op = Put (take ?kl (drop 9 body)) (drop (9 + ?kl) body) \<or>
      body ! 0 = 2 \<and> ?vl = 0 \<and> op = Delete (take ?kl (drop 9 body))"
    using dec by (auto split: if_splits)
  have long9: "9 \<le> length body" using long by (simp add: body_def)
  have kl: "u32_le (as_u32 ?kl) = take 4 (drop 1 body)"
    and vl: "u32_le (as_u32 ?vl) = take 4 (drop 5 body)"
    using long9 by (simp_all add: body_key_len_def body_value_len_def u32_le_from_le)
  have body: "body = [body ! 0] @ take 4 (drop 1 body) @ take 4 (drop 5 body) @ drop 9 body"
    by (rule list_split_1_4_4) (use len in simp)
  have fields: "op_key op = take ?kl (drop 9 body)" "op_value op = drop ?kl (drop 9 body)"
    "fst (op_parts op) = body ! 0"
    using op len by (auto simp: record_consts add.commute)
  have lens: "length (op_key op) = ?kl" "length (op_value op) = ?vl"
    using len by (simp_all add: fields)
  have "op_body op = [body ! 0] @ u32_le (as_u32 ?kl) @ u32_le (as_u32 ?vl) @ op_key op @ op_value op"
    by (simp add: op_body_def record_body_def lens fields(3))
  also have "\<dots> = body"
    unfolding kl vl fields(1,2) append_take_drop_id using body by simp
  finally have "op_body op = body" .
  moreover have "u32_le (crc32 body) = take 4 bs"
    using frame long by (metis body_def crc.frame_ok_def length_take min_absorb2 u32_le_from_le)
  ultimately have "bs = op_bytes op"
    by (simp add: op_bytes_def body_def)
  then show ?thesis
    using sizes lens by (simp add: op_fits_def)
qed

lemma decode_not_Panic: "decode bs \<noteq> Panic"
  by (cases "length bs < 13") (auto simp: decode_short decode_pure [OF _ refl])

lemma decode_outcome:
  "(\<exists>op. decode bs = Ok op) \<or> decode bs \<in> {Err CorruptedRecord, Err InvalidChecksum}"
  by (cases "length bs < 13") (auto simp: decode_short decode_pure [OF _ refl])

lemma decode_frame_ok: "decode bs = Ok op \<Longrightarrow> crc.frame_ok bs"
  using decode_Ok_bytes crc.frame_ok_frame by (metis op_bytes_def)

lemma decode_detects:
  assumes "op_fits op" and "i < length (op_bytes op)" and "b \<noteq> op_bytes op ! i"
  shows "decode ((op_bytes op)[i := b]) \<in> {Err CorruptedRecord, Err InvalidChecksum}"
proof -
  have "crc.frame_ok (op_bytes op)"
    by (simp add: op_bytes_def crc.frame_ok_frame)
  then have "decode ((op_bytes op)[i := b]) \<noteq> Ok y" for y
    using assms(2,3) crc.frame_detects decode_frame_ok by blast
  then show ?thesis
    using decode_outcome [of "(op_bytes op)[i := b]"] by auto
qed

section \<open>What the format promises\<close>

text \<open>
  C29: decoding inverts encoding in both directions. A byte string decodes to an operation exactly
  when it is the encoding of that operation; so every operation within the size limits round-trips,
  and the decoder accepts no second spelling of it.
\<close>

theorem decode_iff_encode: "decode bs = Ok op \<longleftrightarrow> encode op = Ok bs"
  using decode_op_bytes decode_Ok_bytes encode_Ok_iff by metis

text \<open>
  C30: any single corrupted byte of a stored record, in its checksum, its header or its payload, makes
  the decoder report an error.
\<close>

theorem decode_detects_corruption:
  assumes "encode op = Ok bs" and "i < length bs" and "b \<noteq> bs ! i"
  shows "decode (bs[i := b]) \<in> {Err CorruptedRecord, Err InvalidChecksum}"
  using assms decode_detects by (auto simp: encode_Ok_iff)

theorem decode_detects_corruption_witness:
  "decode ((op_bytes (Put [0x6B] [0x76]))[13 := 0]) \<in> {Err CorruptedRecord, Err InvalidChecksum}"
proof -
  let ?op = "Put [0x6B] [0x76]"
  have "encode ?op = Ok (op_bytes ?op)"
    by (simp add: encode_Ok_iff op_fits_def record_consts)
  moreover have "13 < length (op_bytes ?op)" and "0 \<noteq> op_bytes ?op ! 13"
    by (simp_all add: op_bytes_def op_body_def record_body_def nth_append)
  ultimately show ?thesis
    by (rule decode_detects_corruption)
qed

end
