(* ===== verification/Io.thy ===== *)
theory Io
  imports Prelude
begin

text \<open>
  The part of \<^verbatim>\<open>std::fs\<close> the engine uses, on one database directory, and the fault-injection hooks of
  \<^verbatim>\<open>src/src/wal.rs\<close> (module \<^verbatim>\<open>failpoints\<close>).

  A file has its contents and the length of the prefix that a completed \<^verbatim>\<open>sync_all\<close> made durable.
  A crash keeps of every file some prefix that is at least as long as the durable one: that is the
  torn tail the recovery code is written for. Creating, renaming and removing a directory entry and
  cutting a file to length zero are atomic, and a directory entry is durable at once. The last point is an
  assumption about the file system, not something the code secures: \<^verbatim>\<open>sync_dir\<close> is called after a manifest
  append and after the rename of a table and ignores its own failures, and it is not called after
  \<^verbatim>\<open>wal.log\<close> is created nor after files are removed. The operations of the operating system fail only
  where a failpoint is armed, where a file is missing and where a read runs past the end of a file.
\<close>

section \<open>Files\<close>

record disk_file =
  content :: bytes
  durable :: nat

datatype fail_kind = WalAppend | WalSync | SsTableWrite | SsTableSync | ManifestWrite | Rename

record world =
  files :: "string \<Rightarrow> disk_file option"
  failpoint :: "fail_kind option"

definition empty_file :: disk_file where
  "empty_file = \<lparr>content = [], durable = 0\<rparr>"

definition empty_world :: world where
  "empty_world = \<lparr>files = (\<lambda>_. None), failpoint = None\<rparr>"

definition set_file :: "string \<Rightarrow> disk_file \<Rightarrow> world \<Rightarrow> world" where
  "set_file f x w = w\<lparr>files := (files w)(f := Some x)\<rparr>"

text \<open>\<^verbatim>\<open>Path::exists\<close>.\<close>

definition file_exists :: "string \<Rightarrow> world \<Rightarrow> bool" where
  "file_exists f w \<longleftrightarrow> files w f \<noteq> None"

text \<open>\<^verbatim>\<open>OpenOptions::new().read(true).write(true).create(true).truncate(false).open(f)\<close>.\<close>

definition open_create :: "string \<Rightarrow> world \<Rightarrow> world" where
  "open_create f w = (case files w f of None \<Rightarrow> set_file f empty_file w | Some _ \<Rightarrow> w)"

text \<open>\<^verbatim>\<open>OpenOptions::new().create(true).write(true).truncate(true).open(f)\<close>.\<close>

definition open_truncate :: "string \<Rightarrow> world \<Rightarrow> world" where
  "open_truncate f w = set_file f empty_file w"

definition file_of :: "string \<Rightarrow> world \<Rightarrow> disk_file" where
  "file_of f w = (case files w f of None \<Rightarrow> empty_file | Some x \<Rightarrow> x)"

text \<open>\<^verbatim>\<open>seek(SeekFrom::End(0))\<close> followed by \<^verbatim>\<open>write_all\<close>.\<close>

definition file_append :: "string \<Rightarrow> bytes \<Rightarrow> world \<Rightarrow> world" where
  "file_append f bs w =
     (let x = file_of f w in set_file f (x\<lparr>content := content x @ bs\<rparr>) w)"

text \<open>\<^verbatim>\<open>flush\<close> and \<^verbatim>\<open>sync_all\<close>.\<close>

definition file_sync :: "string \<Rightarrow> world \<Rightarrow> world" where
  "file_sync f w = (let x = file_of f w in set_file f (x\<lparr>durable := length (content x)\<rparr>) w)"

text \<open>\<^verbatim>\<open>set_len(0)\<close> followed by \<^verbatim>\<open>sync_all\<close>.\<close>

definition file_clear :: "string \<Rightarrow> world \<Rightarrow> world" where
  "file_clear f w = set_file f empty_file w"

definition file_rename :: "string \<Rightarrow> string \<Rightarrow> world \<Rightarrow> world" where
  "file_rename old new w = w\<lparr>files := (files w)(old := None, new := files w old)\<rparr>"

definition file_remove :: "string \<Rightarrow> world \<Rightarrow> world" where
  "file_remove f w = w\<lparr>files := (files w)(f := None)\<rparr>"

text \<open>\<^verbatim>\<open>File::open\<close>, \<^verbatim>\<open>seek(SeekFrom::Start(offset))\<close> and \<^verbatim>\<open>read_exact\<close> into a buffer of \<open>n\<close> bytes.\<close>

definition read_exact_at :: "string \<Rightarrow> nat \<Rightarrow> nat \<Rightarrow> world \<Rightarrow> bytes result" where
  "read_exact_at f offset n w =
     (case files w f of
        None \<Rightarrow> Err (Io NotFound ''No such file or directory'')
      | Some x \<Rightarrow>
          if offset + n \<le> length (content x) then Ok (take n (drop offset (content x)))
          else if n = 0 then Ok []
          else Err (Io UnexpectedEof ''failed to fill whole buffer''))"

definition other_error :: "string \<Rightarrow> error" where
  "other_error message = Io OtherKind message"

section \<open>Failpoints\<close>

definition inject :: "fail_kind \<Rightarrow> world \<Rightarrow> world" where
  "inject kind w = w\<lparr>failpoint := Some kind\<rparr>"

definition clear_failpoint :: "world \<Rightarrow> world" where
  "clear_failpoint w = w\<lparr>failpoint := None\<rparr>"

definition should_fail :: "fail_kind \<Rightarrow> world \<Rightarrow> bool \<times> world" where
  "should_fail kind w =
     (if failpoint w = Some kind then (True, w\<lparr>failpoint := None\<rparr>) else (False, w))"

section \<open>Crashes\<close>

text \<open>
  After a crash and a restart of the process the file \<open>f\<close> has its first \<open>keep f\<close> bytes, where
  \<open>keep\<close> lies between the durable prefix and the whole file; the failpoint of the dead process is gone.
\<close>

definition crash_keeps :: "(string \<Rightarrow> nat) \<Rightarrow> world \<Rightarrow> bool" where
  "crash_keeps keep w \<longleftrightarrow> (\<forall>f x. files w f = Some x \<longrightarrow> durable x \<le> keep f)"

definition crash :: "(string \<Rightarrow> nat) \<Rightarrow> world \<Rightarrow> world" where
  "crash keep w =
     \<lparr>files = (\<lambda>f. case files w f of None \<Rightarrow> None
                | Some x \<Rightarrow> let c = take (keep f) (content x) in Some \<lparr>content = c, durable = length c\<rparr>),
      failpoint = None\<rparr>"

section \<open>Reading back\<close>

lemmas io_defs = set_file_def file_exists_def open_create_def open_truncate_def file_of_def
  file_append_def file_sync_def file_clear_def file_rename_def file_remove_def empty_file_def

lemmas [eval_simps] = io_defs read_exact_at_def inject_def clear_failpoint_def should_fail_def
  crash_def empty_world_def other_error_def

lemma files_set_file [simp]: "files (set_file f x w) g = (if g = f then Some x else files w g)"
  by (simp add: set_file_def)

lemma failpoint_set_file [simp]: "failpoint (set_file f x w) = failpoint w"
  by (simp add: set_file_def)

lemma failpoint_io [simp]:
  "failpoint (open_create f w) = failpoint w"
  "failpoint (open_truncate f w) = failpoint w"
  "failpoint (file_append f bs w) = failpoint w"
  "failpoint (file_sync f w) = failpoint w"
  "failpoint (file_clear f w) = failpoint w"
  "failpoint (file_rename f g w) = failpoint w"
  "failpoint (file_remove f w) = failpoint w"
  by (simp_all add: io_defs Let_def split: option.splits)

lemma file_of_Some [simp]: "files w f = Some x \<Longrightarrow> file_of f w = x"
  by (simp add: file_of_def)

lemma files_file_append [simp]:
  "files (file_append f bs w) g =
     (if g = f then Some ((file_of f w)\<lparr>content := content (file_of f w) @ bs\<rparr>) else files w g)"
  by (simp add: file_append_def Let_def)

lemma files_file_sync [simp]:
  "files (file_sync f w) g =
     (if g = f then Some ((file_of f w)\<lparr>durable := length (content (file_of f w))\<rparr>) else files w g)"
  by (simp add: file_sync_def Let_def)

lemma files_file_clear [simp]:
  "files (file_clear f w) g = (if g = f then Some empty_file else files w g)"
  by (simp add: file_clear_def)

lemma files_open_truncate [simp]:
  "files (open_truncate f w) g = (if g = f then Some empty_file else files w g)"
  by (simp add: open_truncate_def)

lemma files_open_create:
  "files (open_create f w) g = (if g = f \<and> files w f = None then Some empty_file else files w g)"
  by (simp add: open_create_def split: option.splits)

lemma files_file_rename [simp]:
  "old \<noteq> new \<Longrightarrow>
     files (file_rename old new w) g =
       (if g = new then files w old else if g = old then None else files w g)"
  by (simp add: file_rename_def)

lemma files_file_remove [simp]:
  "files (file_remove f w) g = (if g = f then None else files w g)"
  by (simp add: file_remove_def)

lemma file_of_set_file [simp]:
  "file_of g (set_file f x w) = (if g = f then x else file_of g w)"
  by (simp add: file_of_def)

lemma file_of_append [simp]:
  "file_of g (file_append f bs w) =
     (if g = f then (file_of f w)\<lparr>content := content (file_of f w) @ bs\<rparr> else file_of g w)"
  by (simp add: file_of_def)

lemma file_of_sync [simp]:
  "file_of g (file_sync f w) =
     (if g = f then (file_of f w)\<lparr>durable := length (content (file_of f w))\<rparr> else file_of g w)"
  by (simp add: file_of_def)

lemma file_append_append: "file_append f ys (file_append f xs w) = file_append f (xs @ ys) w"
  by (simp add: file_append_def Let_def set_file_def file_of_def)

lemma file_append_Nil [simp]: "files w f \<noteq> None \<Longrightarrow> file_append f [] w = w"
  by (auto simp: file_append_def Let_def set_file_def file_of_def fun_upd_idem)

lemma should_fail_None: "failpoint w = None \<Longrightarrow> should_fail kind w = (False, w)"
  by (simp add: should_fail_def)

lemma files_should_fail [simp]: "files (snd (should_fail kind w)) = files w"
  by (simp add: should_fail_def)

lemma should_fail_cases:
  obtains (armed) "failpoint w = Some kind" "should_fail kind w = (True, w\<lparr>failpoint := None\<rparr>)"
  | (clear) "failpoint w \<noteq> Some kind" "should_fail kind w = (False, w)"
  by (cases "failpoint w = Some kind") (auto simp: should_fail_def)

lemma files_crash [simp]:
  "files (crash keep w) f =
     map_option (\<lambda>x. \<lparr>content = take (keep f) (content x),
        durable = length (take (keep f) (content x))\<rparr>) (files w f)"
  by (simp add: crash_def Let_def split: option.splits)

lemma failpoint_crash [simp]: "failpoint (crash keep w) = None"
  by (simp add: crash_def)

lemma crash_keepsD: "crash_keeps keep w \<Longrightarrow> files w f = Some x \<Longrightarrow> durable x \<le> keep f"
  by (simp add: crash_keeps_def)

text \<open>The worst crash: only what was synced is left.\<close>

definition keep_synced :: "world \<Rightarrow> string \<Rightarrow> nat" where
  "keep_synced w f = durable (file_of f w)"

lemma crash_keeps_synced: "crash_keeps (keep_synced w) w"
  by (simp add: crash_keeps_def keep_synced_def)

text \<open>A file that is durable as a whole survives every crash unchanged.\<close>

lemma crash_durable:
  assumes "crash_keeps keep w" and "files w f = Some x" and "durable x = length (content x)"
  shows "files (crash keep w) f = Some x"
proof -
  from assms(1,2) have "durable x \<le> keep f"
    by (simp add: crash_keeps_def)
  with assms show ?thesis by (cases x) simp
qed

text \<open>A step that changes at most the files in \<open>F\<close> and leaves the failpoint as it is.\<close>

definition changes :: "string set \<Rightarrow> world \<Rightarrow> world \<Rightarrow> bool" where
  "changes F w w' \<longleftrightarrow> failpoint w' = failpoint w \<and> (\<forall>f. f \<notin> F \<longrightarrow> files w' f = files w f)"

lemma changes_refl [simp]: "changes F w w"
  by (simp add: changes_def)

lemma changes_trans: "changes F w w' \<Longrightarrow> changes G w' w'' \<Longrightarrow> changes (F \<union> G) w w''"
  by (simp add: changes_def)

lemma changes_mono: "changes F w w' \<Longrightarrow> F \<subseteq> G \<Longrightarrow> changes G w w'"
  by (auto simp: changes_def)

lemma changes_io:
  "changes {f} w (file_append f bs w)" "changes {f} w (file_sync f w)" "changes {f} w (file_clear f w)"
  "changes {f} w (open_create f w)"
  by (simp_all add: changes_def files_open_create)

end
