(* ===== verification/Log_Format.thy ===== *)
theory Log_Format
  imports Prelude
begin

text \<open>
  The interface shared by the two append-only logs of the engine, the write-ahead log and the
  manifest: records written one after the other, read back from the start, a torn tail ignored. What
  a log of that kind promises about replay and about crashes is proved here once, inside the locale;
  the theories of the two logs interpret it.
\<close>

datatype 'r parsed = End | Bad error | Item 'r bytes

locale log_format =
  fixes enc :: "'r \<Rightarrow> bytes"
    and valid :: "'r \<Rightarrow> bool"
    and parse :: "bytes \<Rightarrow> 'r parsed"
    and collect :: "bytes \<Rightarrow> 'r list result"
  assumes parse_Nil: "parse [] = End"
    and parse_enc: "valid r \<Longrightarrow> parse (enc r @ rest) = Item r rest"
    and parse_torn: "valid r \<Longrightarrow> n < length (enc r) \<Longrightarrow> parse (take n (enc r)) = End"
    and collect_End: "parse bs = End \<Longrightarrow> collect bs = Ok []"
    and collect_Bad: "parse bs = Bad e \<Longrightarrow> collect bs = Err e"
    and collect_Item:
      "parse bs = Item r rest \<Longrightarrow> collect bs = and_then (collect rest) (\<lambda>rs. Ok (r # rs))"
begin

definition log_bytes :: "'r list \<Rightarrow> bytes" where
  "log_bytes rs = concat (map enc rs)"

lemma log_bytes_simps [simp]:
  "log_bytes [] = []" "log_bytes (r # rs) = enc r @ log_bytes rs"
  "log_bytes (rs @ ss) = log_bytes rs @ log_bytes ss"
  by (simp_all add: log_bytes_def)

text \<open>Replay reads whole records back and then whatever the rest of the file holds.\<close>

lemma collect_append:
  "list_all valid rs \<Longrightarrow>
     collect (log_bytes rs @ tail) = and_then (collect tail) (\<lambda>ts. Ok (rs @ ts))"
proof (induction rs)
  case Nil
  show ?case by (cases "collect tail") simp_all
next
  case (Cons r rs)
  then have "collect (log_bytes (r # rs) @ tail) =
      and_then (collect (log_bytes rs @ tail)) (\<lambda>ts. Ok (r # ts))"
    by (simp add: collect_Item [OF parse_enc])
  with Cons show ?case
    by (cases "collect tail") simp_all
qed

lemma collect_log: "list_all valid rs \<Longrightarrow> collect (log_bytes rs) = Ok rs"
  using collect_append [of rs "[]"] by (simp add: collect_End [OF parse_Nil])

text \<open>The records that lie completely within the first \<open>n\<close> bytes of a log.\<close>

primrec complete :: "nat \<Rightarrow> 'r list \<Rightarrow> 'r list" where
  "complete n [] = []"
| "complete n (r # rs) =
     (if length (enc r) \<le> n then r # complete (n - length (enc r)) rs else [])"

text \<open>A log cut anywhere replays to exactly its complete records, without an error.\<close>

lemma collect_torn:
  "list_all valid rs \<Longrightarrow> collect (take n (log_bytes rs)) = Ok (complete n rs)"
proof (induction rs arbitrary: n)
  case Nil
  then show ?case by (simp add: collect_End [OF parse_Nil])
next
  case (Cons r rs)
  show ?case
  proof (cases "length (enc r) \<le> n")
    case True
    with Cons show ?thesis
      by (simp add: collect_Item [OF parse_enc])
  next
    case False
    with Cons have "collect (take n (enc r)) = Ok []"
      by (intro collect_End parse_torn) simp_all
    with False show ?thesis by simp
  qed
qed

lemma complete_prefix: "\<exists>m. complete n rs = take m rs"
proof (induction rs arbitrary: n)
  case Nil
  then show ?case by simp
next
  case (Cons r rs)
  then obtain m where "complete (n - length (enc r)) rs = take m rs" by blast
  then have "complete n (r # rs) = take (if length (enc r) \<le> n then Suc m else 0) (r # rs)"
    by simp
  then show ?case by blast
qed

lemma complete_append:
  "length (log_bytes rs) \<le> n \<Longrightarrow>
     complete n (rs @ ss) = rs @ complete (n - length (log_bytes rs)) ss"
  by (induction rs arbitrary: n) auto

text \<open>Records that were made durable survive: they are a prefix of what is replayed.\<close>

lemma collect_durable:
  assumes "list_all valid (rs @ ss)" and "length (log_bytes rs) \<le> n"
  shows "\<exists>m. collect (take n (log_bytes (rs @ ss))) = Ok (rs @ take m ss)"
  using collect_torn [OF assms(1), of n] complete_append [OF assms(2), of ss] complete_prefix
  by metis

end

end
