(* ===== verification/Wal.thy ===== *)
theory Wal
  imports Wal_Record Io Log_Format
begin

text \<open>
  The write-ahead log (\<^verbatim>\<open>src/src/wal.rs\<close>): opening, appending, syncing, truncating, and the streaming
  parser \<^verbatim>\<open>WalIterator\<close> that recovery runs over the file. The log is an instance of the log format,
  with the records of theory Wal-Record.
\<close>

section \<open>The code\<close>

record wal =
  wal_path :: string

text \<open>
  Opening creates the file if it is missing. The directory is not synced then; that the new entry survives a
  crash is the assumption of theory Io on directory entries.
\<close>

definition wal_open :: "string \<Rightarrow> world \<Rightarrow> wal result \<times> world" where
  "wal_open path w = (Ok \<lparr>wal_path = path\<rparr>, open_create path w)"

definition wal_append :: "wal \<Rightarrow> operation \<Rightarrow> world \<Rightarrow> u64 result \<times> world" where
  "wal_append wal op w =
     (let (fail, w) = should_fail WalAppend w in
      if fail then (Err (other_error ''injected WAL append failure''), w)
      else andThen (encode op, w) (\<lambda>bs w.
        let offset = as_u64 (length (content (file_of (wal_path wal) w)));
            w = file_append (wal_path wal) bs w
        in (Ok offset, w)))"

definition wal_sync :: "wal \<Rightarrow> world \<Rightarrow> unit result \<times> world" where
  "wal_sync wal w =
     (let (fail, w) = should_fail WalSync w in
      if fail then (Err (other_error ''injected WAL sync failure''), w)
      else (Ok (), file_sync (wal_path wal) w))"

record wal_iterator =
  wal_data :: bytes
  wal_pos :: nat

definition wal_from_bytes :: "bytes \<Rightarrow> wal_iterator" where
  "wal_from_bytes bs = \<lparr>wal_data = bs, wal_pos = 0\<rparr>"

definition wal_next :: "wal_iterator \<Rightarrow> operation result option \<times> wal_iterator" where
  "wal_next it =
     (case slice_from (wal_pos it) (wal_data it) of
        Ok data \<Rightarrow>
          if data = [] then (None, it)
          else if length data < RECORD_HEADER_LEN then
            (None, it\<lparr>wal_pos := length (wal_data it)\<rparr>)
          else
            (case (read_u32_at KEY_LEN_OFFSET (KEY_LEN_OFFSET + 4) data,
                   read_u32_at VALUE_LEN_OFFSET (VALUE_LEN_OFFSET + 4) data) of
               (Ok key_len32, Ok value_len32) \<Rightarrow>
                 let key_len = unat key_len32; value_len = unat value_len32 in
                 if key_len > MAX_KEY_SIZE \<or> value_len > MAX_VALUE_SIZE then
                   (Some (Err CorruptedRecord), it\<lparr>wal_pos := length (wal_data it)\<rparr>)
                 else
                   let record_len = RECORD_HEADER_LEN + key_len + value_len in
                   if length data < record_len then
                     (None, it\<lparr>wal_pos := length (wal_data it)\<rparr>)
                   else
                     (Some (and_then (slice 0 record_len data) decode),
                      it\<lparr>wal_pos := wal_pos it + record_len\<rparr>)
             | _ \<Rightarrow> (Some Panic, it))
      | _ \<Rightarrow> (Some Panic, it))"

lemma wal_next_progress:
  assumes "wal_next it = (Some (Ok op), it')"
  shows "wal_data it' = wal_data it \<and> wal_pos it < wal_pos it' \<and> wal_pos it' \<le> length (wal_data it)"
  using assms
  by (auto simp: wal_next_def Let_def slice_from_def record_nums and_then_eq_Ok
      split: result.splits if_splits)

text \<open>\<^verbatim>\<open>iter.collect::<Result<Vec<_>>>()\<close>: the operations up to the end or the first error.\<close>

function wal_collect :: "wal_iterator \<Rightarrow> operation list result" where
  "wal_collect it =
     (case wal_next it of
        (None, _) \<Rightarrow> Ok []
      | (Some (Ok op), it') \<Rightarrow> and_then (wal_collect it') (\<lambda>ops. Ok (op # ops))
      | (Some (Err e), _) \<Rightarrow> Err e
      | (Some Panic, _) \<Rightarrow> Panic)"
  by pat_completeness auto
termination
  by (relation "measure (\<lambda>it. length (wal_data it) - wal_pos it)")
    (auto dest!: wal_next_progress [OF sym])

declare wal_collect.simps [simp del]

definition wal_iter :: "wal \<Rightarrow> world \<Rightarrow> wal_iterator result \<times> world" where
  "wal_iter wal w = (Ok (wal_from_bytes (content (file_of (wal_path wal) w))), w)"

definition wal_replay :: "wal \<Rightarrow> world \<Rightarrow> operation list result \<times> world" where
  "wal_replay wal w = andThen (wal_iter wal w) (\<lambda>it w. (wal_collect it, w))"

definition wal_truncate :: "wal \<Rightarrow> world \<Rightarrow> unit result \<times> world" where
  "wal_truncate wal w = (Ok (), file_clear (wal_path wal) w)"

definition wal_len :: "wal \<Rightarrow> world \<Rightarrow> u64 result" where
  "wal_len wal w = Ok (as_u64 (length (content (file_of (wal_path wal) w))))"

definition wal_is_empty :: "wal \<Rightarrow> world \<Rightarrow> bool result" where
  "wal_is_empty wal w = and_then (wal_len wal w) (\<lambda>n. Ok (n = 0))"

lemmas [eval_simps] = wal_open_def wal_append_def wal_sync_def wal_from_bytes_def wal_next_def
  wal_iter_def wal_replay_def wal_truncate_def wal_len_def wal_is_empty_def

section \<open>The parser, seen from the unread bytes\<close>

definition rec_key_len :: "bytes \<Rightarrow> nat" where
  "rec_key_len data = unat (from_le (take 4 (drop 5 data)) :: u32)"

definition rec_value_len :: "bytes \<Rightarrow> nat" where
  "rec_value_len data = unat (from_le (take 4 (drop 9 data)) :: u32)"

lemma wal_next_pure:
  assumes "p \<le> length d" and data: "data = drop p d"
  shows "wal_next \<lparr>wal_data = d, wal_pos = p\<rparr> =
     (if data = [] then (None, \<lparr>wal_data = d, wal_pos = p\<rparr>)
      else if length data < 13 then (None, \<lparr>wal_data = d, wal_pos = length d\<rparr>)
      else if rec_key_len data > MAX_KEY_SIZE \<or> rec_value_len data > MAX_VALUE_SIZE
        then (Some (Err CorruptedRecord), \<lparr>wal_data = d, wal_pos = length d\<rparr>)
      else if length data < 13 + rec_key_len data + rec_value_len data
        then (None, \<lparr>wal_data = d, wal_pos = length d\<rparr>)
      else (Some (decode (take (13 + rec_key_len data + rec_value_len data) data)),
            \<lparr>wal_data = d, wal_pos = p + (13 + rec_key_len data + rec_value_len data)\<rparr>))"
proof (cases "length data < 13")
  case True
  then show ?thesis
    using assms by (simp add: wal_next_def slice_from_def record_nums)
next
  case False
  then have reads:
    "read_u32_at 5 (5 + 4) data = Ok (from_le (take 4 (drop 5 data)))"
    "read_u32_at 9 (9 + 4) data = Ok (from_le (take 4 (drop 9 data)))"
    by (simp_all add: result_simps)
  have sl: "slice_from p d = Ok data"
    using assms by (simp add: slice_from_def)
  show ?thesis
    unfolding wal_next_def wal_iterator.simps sl result.case record_nums reads prod.case Let_def
      rec_key_len_def [symmetric] rec_value_len_def [symmetric]
    by (simp add: slice_def)
qed

definition wal_parse :: "bytes \<Rightarrow> operation parsed" where
  "wal_parse bs =
     (case wal_next (wal_from_bytes bs) of
        (None, _) \<Rightarrow> End
      | (Some (Ok op), it) \<Rightarrow> Item op (drop (wal_pos it) bs)
      | (Some (Err e), _) \<Rightarrow> Bad e
      | (Some Panic, _) \<Rightarrow> End)"

definition wal_collect_bytes :: "bytes \<Rightarrow> operation list result" where
  "wal_collect_bytes bs = wal_collect (wal_from_bytes bs)"

text \<open>Only the unread suffix matters.\<close>

lemma wal_next_suffix:
  assumes "p \<le> length d"
  shows "wal_next \<lparr>wal_data = d, wal_pos = p\<rparr> =
     map_prod id (\<lambda>it. \<lparr>wal_data = d, wal_pos = p + wal_pos it\<rparr>) (wal_next (wal_from_bytes (drop p d)))"
  using assms
  by (simp add: wal_from_bytes_def wal_next_pure [OF assms refl] wal_next_pure [OF le0 refl])

lemma wal_collect_suffix:
  "p \<le> length d \<Longrightarrow> wal_collect \<lparr>wal_data = d, wal_pos = p\<rparr> = wal_collect_bytes (drop p d)"
proof (induction "length d - p" arbitrary: d p rule: less_induct)
  case less
  let ?it = "\<lparr>wal_data = d, wal_pos = p\<rparr>" and ?start = "wal_from_bytes (drop p d)"
  obtain r it where nx0: "wal_next ?start = (r, it)" by fastforce
  have nx: "wal_next ?it = (r, \<lparr>wal_data = d, wal_pos = p + wal_pos it\<rparr>)"
    by (simp only: wal_next_suffix [OF less.prems] nx0 map_prod_simp id_apply)
  show ?case
  proof (cases "\<exists>op. r = Some (Ok op)")
    case True
    then obtain op where r: "r = Some (Ok op)" by blast
    have it: "wal_data it = drop p d" "0 < wal_pos it" "wal_pos it \<le> length d - p"
      using wal_next_progress [OF nx0 [unfolded r]] by (simp_all add: wal_from_bytes_def)
    then have it_eq: "it = \<lparr>wal_data = drop p d, wal_pos = wal_pos it\<rparr>"
      by simp
    have "wal_collect \<lparr>wal_data = d, wal_pos = p + wal_pos it\<rparr> = wal_collect_bytes (drop (p + wal_pos it) d)"
      using it less.prems by (intro less.hyps) simp_all
    moreover have "wal_collect it = wal_collect_bytes (drop (wal_pos it) (drop p d))"
      using it less.prems by (subst it_eq, intro less.hyps) simp_all
    ultimately show ?thesis
      using nx nx0 r
      by (simp add: wal_collect_bytes_def wal_collect.simps [of ?it] wal_collect.simps [of ?start] add.commute)
  next
    case False
    then show ?thesis
      using nx nx0
      by (auto simp: wal_collect_bytes_def wal_collect.simps [of ?it] wal_collect.simps [of ?start]
          split: option.splits result.splits)
  qed
qed

lemma wal_collect_bytes_parse:
  "wal_collect_bytes bs =
     (case wal_parse bs of
        End \<Rightarrow> Ok []
      | Bad e \<Rightarrow> Err e
      | Item op rest \<Rightarrow> and_then (wal_collect_bytes rest) (\<lambda>ops. Ok (op # ops)))"
proof -
  obtain r it where nx: "wal_next (wal_from_bytes bs) = (r, it)" by fastforce
  have np: "r \<noteq> Some Panic"
    using nx wal_next_pure [OF le0 refl, of bs] decode_not_Panic
    by (auto simp: wal_from_bytes_def split: if_splits)
  show ?thesis
  proof (cases "\<exists>op. r = Some (Ok op)")
    case True
    then obtain op where r: "r = Some (Ok op)" by blast
    have it: "wal_data it = bs" "wal_pos it \<le> length bs"
      using wal_next_progress [OF nx [unfolded r]] by (simp_all add: wal_from_bytes_def)
    then have "wal_collect it = wal_collect_bytes (drop (wal_pos it) bs)"
      using wal_collect_suffix [of "wal_pos it" bs] by (cases it) simp
    then show ?thesis
      using nx r by (simp add: wal_collect_bytes_def wal_parse_def wal_collect.simps [of "wal_from_bytes bs"])
  next
    case False
    then show ?thesis
      using nx np
      by (auto simp: wal_collect_bytes_def wal_parse_def wal_collect.simps [of "wal_from_bytes bs"]
          split: option.splits result.splits)
  qed
qed

section \<open>The log is an instance of the log format\<close>

lemma op_bytes_split:
  "op_bytes op = (u32_le (crc32 (op_body op)) @ [fst (op_parts op)]) @
     u32_le (as_u32 (length (op_key op))) @ u32_le (as_u32 (length (op_value op))) @
     op_key op @ op_value op"
  by (simp add: op_bytes_def op_body_def record_body_def)

lemma rec_lens_op_bytes:
  assumes "op_fits op" and "13 \<le> n"
  shows "rec_key_len (take n (op_bytes op @ rest)) = length (op_key op)"
    and "rec_value_len (take n (op_bytes op @ rest)) = length (op_value op)"
proof -
  have "take 4 (drop 5 (take n (op_bytes op @ rest))) = u32_le (as_u32 (length (op_key op)))"
    and "take 4 (drop 9 (take n (op_bytes op @ rest))) = u32_le (as_u32 (length (op_value op)))"
    using assms(2) by (simp_all add: op_bytes_split drop_take)
  then show "rec_key_len (take n (op_bytes op @ rest)) = length (op_key op)"
    and "rec_value_len (take n (op_bytes op @ rest)) = length (op_value op)"
    using assms(1)
    by (simp_all add: rec_key_len_def rec_value_len_def op_fits_def record_consts unat_as_u32)
qed

lemma op_fits_sizes:
  "op_fits op \<Longrightarrow> \<not> MAX_KEY_SIZE < length (op_key op) \<and> \<not> MAX_VALUE_SIZE < length (op_value op)"
  by (simp add: op_fits_def)

lemma wal_parse_enc:
  assumes "op_fits op"
  shows "wal_parse (op_bytes op @ rest) = Item op rest"
proof -
  let ?data = "op_bytes op @ rest"
  have lens: "rec_key_len ?data = length (op_key op)" "rec_value_len ?data = length (op_value op)"
    using rec_lens_op_bytes [OF assms, of "length ?data" rest] by (simp_all add: length_op_bytes)
  have "take (13 + length (op_key op) + length (op_value op)) ?data = op_bytes op"
    by (simp add: length_op_bytes)
  then have "wal_next (wal_from_bytes ?data) =
      (Some (Ok op), \<lparr>wal_data = ?data, wal_pos = length (op_bytes op)\<rparr>)"
    unfolding wal_from_bytes_def wal_next_pure [OF le0 refl] drop_0 lens
    using op_fits_sizes [OF assms] by (simp add: length_op_bytes decode_op_bytes [OF assms])
  then show ?thesis
    by (simp add: wal_parse_def)
qed

lemma wal_parse_torn:
  assumes "op_fits op" and "n < length (op_bytes op)"
  shows "wal_parse (take n (op_bytes op)) = End"
proof (cases "n < 13")
  case True
  then show ?thesis
    by (auto simp: wal_parse_def wal_from_bytes_def wal_next_pure [OF le0 refl])
next
  case False
  then have lens: "rec_key_len (take n (op_bytes op)) = length (op_key op)"
    "rec_value_len (take n (op_bytes op)) = length (op_value op)"
    using rec_lens_op_bytes [OF assms(1), of n "[]"] by simp_all
  show ?thesis
    unfolding wal_parse_def wal_from_bytes_def wal_next_pure [OF le0 refl] drop_0 lens
    using assms(2) op_fits_sizes [OF assms(1)] by (simp add: length_op_bytes)
qed

interpretation wal_log: log_format op_bytes op_fits wal_parse wal_collect_bytes
proof unfold_locales
  show "wal_parse [] = End"
    by (simp add: wal_parse_def wal_from_bytes_def wal_next_pure [OF le0 refl])
qed (simp_all add: wal_parse_enc wal_parse_torn wal_collect_bytes_parse)

section \<open>The operations on the log file\<close>

text \<open>The file holds exactly these operations, one record after the other.\<close>

definition wal_holds :: "wal \<Rightarrow> operation list \<Rightarrow> world \<Rightarrow> bool" where
  "wal_holds wal ops w \<longleftrightarrow> list_all op_fits ops \<and>
     (\<exists>x. files w (wal_path wal) = Some x \<and> content x = wal_log.log_bytes ops)"

text \<open>All of the file is durable.\<close>

definition wal_synced :: "wal \<Rightarrow> world \<Rightarrow> bool" where
  "wal_synced wal w \<longleftrightarrow>
     durable (file_of (wal_path wal) w) = length (content (file_of (wal_path wal) w))"

lemma wal_replay_holds: "wal_holds wal ops w \<Longrightarrow> wal_replay wal w = (Ok ops, w)"
  using wal_log.collect_log
  by (auto simp: wal_holds_def wal_replay_def wal_iter_def wal_collect_bytes_def)

lemma wal_append_cases:
  obtains
    (injected) "failpoint w = Some WalAppend"
      "wal_append wal op w =
        (Err (other_error ''injected WAL append failure''), w\<lparr>failpoint := None\<rparr>)"
  | (rejected) e where "failpoint w \<noteq> Some WalAppend" "\<not> op_fits op" "encode op = Err e"
      "wal_append wal op w = (Err e, w)"
  | (written) offset where "failpoint w \<noteq> Some WalAppend" "op_fits op"
      "wal_append wal op w = (Ok offset, file_append (wal_path wal) (op_bytes op) w)"
proof (cases "failpoint w = Some WalAppend")
  case True
  then show ?thesis by (intro injected) (simp_all add: wal_append_def should_fail_def)
next
  case False
  show ?thesis
  proof (cases "op_fits op")
    case True
    with False show ?thesis
      by (intro written) (simp_all add: wal_append_def should_fail_def encode_fits Let_def)
  next
    case nofit: False
    then obtain e where "encode op = Err e"
      using encode_not_fits by blast
    with False nofit show ?thesis
      by (intro rejected) (simp_all add: wal_append_def should_fail_def)
  qed
qed

lemma wal_holds_append:
  "wal_holds wal ops w \<Longrightarrow> op_fits op \<Longrightarrow>
     wal_holds wal (ops @ [op]) (file_append (wal_path wal) (op_bytes op) w)"
  by (auto simp: wal_holds_def)

lemma wal_holds_sync: "wal_holds wal ops w \<Longrightarrow> wal_holds wal ops (file_sync (wal_path wal) w)"
  by (auto simp: wal_holds_def)

lemma wal_synced_sync: "wal_synced wal (file_sync (wal_path wal) w)"
  by (simp add: wal_synced_def)

lemma wal_holds_truncate: "wal_holds wal [] (file_clear (wal_path wal) w)"
  by (simp add: wal_holds_def empty_file_def)

lemma wal_holds_open:
  "wal_open path w = (Ok wal, w') \<Longrightarrow> files w path = None \<Longrightarrow> wal_holds wal [] w'"
  by (auto simp: wal_open_def wal_holds_def files_open_create empty_file_def)

lemma wal_holds_other:
  "wal_holds wal ops w \<Longrightarrow> files w' (wal_path wal) = files w (wal_path wal) \<Longrightarrow> wal_holds wal ops w'"
  by (simp add: wal_holds_def)

text \<open>
  A record read four bytes too late: its type byte lands in the top byte of the key length, which is
  then at least \<open>2 ^ 24\<close>.
\<close>

lemma wal_parse_shifted_record:
  assumes "length frag = 4"
  shows "wal_parse (frag @ op_bytes op) = Bad CorruptedRecord"
proof -
  let ?data = "frag @ op_bytes op" and ?crc = "u32_le (crc32 (op_body op))"
  have "take 4 (drop 5 ?data) = drop 1 ?crc @ [fst (op_parts op)]"
    using assms by (simp add: op_bytes_split)
  then have "bit (from_le (take 4 (drop 5 ?data)) :: u32) 24 \<or>
      bit (from_le (take 4 (drop 5 ?data)) :: u32) 25"
    by (cases op) (simp_all add: bit_from_le nth_append record_consts)
  then have "2 ^ 24 \<le> rec_key_len ?data"
    using bit_imp_ge_unat [of _ 24] bit_imp_ge_unat [of _ 25] by (force simp: rec_key_len_def)
  then have "MAX_KEY_SIZE < rec_key_len ?data"
    by (simp add: record_consts)
  then show ?thesis
    using assms
    by (simp add: wal_parse_def wal_from_bytes_def wal_next_pure [OF le0 refl] length_op_bytes)
qed

section \<open>Replay and crash recovery\<close>

text \<open>A run of appends, as a writer issues them.\<close>

fun wal_append_all :: "wal \<Rightarrow> operation list \<Rightarrow> world \<Rightarrow> unit result \<times> world" where
  "wal_append_all wal [] w = (Ok (), w)"
| "wal_append_all wal (op # ops) w =
     andThen (wal_append wal op w) (\<lambda>_ w. wal_append_all wal ops w)"

lemma wal_append_all_Ok:
  "wal_append_all wal ops w = (Ok (), w') \<Longrightarrow> files w (wal_path wal) = Some x \<Longrightarrow>
     list_all op_fits ops \<and>
     files w' (wal_path wal) = Some (x\<lparr>content := content x @ wal_log.log_bytes ops\<rparr>)"
proof (induction ops arbitrary: w x)
  case Nil
  then show ?case by simp
next
  case (Cons op ops)
  show ?case
  proof (cases rule: wal_append_cases [of w wal op])
    case (written offset)
    with Cons.prems Cons.IH [of "file_append (wal_path wal) (op_bytes op) w"] show ?thesis
      by simp
  qed (use Cons.prems in simp_all)
qed

text \<open>
  Replaying a log returns exactly the operations that were appended to it, in the order in which
  they were appended.
\<close>

lemma wal_replay_appended:
  assumes "files w path = None" and "wal_open path w = (Ok wal, w1)"
    and "wal_append_all wal ops w1 = (Ok (), w2)"
  shows "wal_replay wal w2 = (Ok ops, w2)"
proof (rule wal_replay_holds)
  have "wal_path wal = path" and "files w1 path = Some empty_file"
    using assms(1,2) by (auto simp: wal_open_def files_open_create)
  then show "wal_holds wal ops w2"
    using wal_append_all_Ok [OF assms(3)] by (auto simp: wal_holds_def empty_file_def)
qed

text \<open>
  C31: crash recovery. Whatever part of the unsynced tail a crash leaves behind, replay succeeds and
  returns every operation appended before the last sync, followed by some prefix of the later ones.
\<close>

theorem wal_crash_recovery:
  assumes "files w path = None" and "wal_open path w = (Ok wal, w1)"
    and "wal_append_all wal ops w1 = (Ok (), w2)" and "wal_sync wal w2 = (Ok (), w3)"
    and "wal_append_all wal later w3 = (Ok (), w4)" and "crash_keeps keep w4"
  shows "\<exists>m. wal_replay wal (crash keep w4) = (Ok (ops @ take m later), crash keep w4)"
proof -
  let ?all = "wal_log.log_bytes (ops @ later)" and ?p = "wal_path wal"
  have p: "?p = path" and f1: "files w1 path = Some empty_file"
    using assms(1,2) by (auto simp: wal_open_def files_open_create)
  have ops: "list_all op_fits ops" and f2: "files w2 ?p = Some (empty_file\<lparr>content := wal_log.log_bytes ops\<rparr>)"
    using wal_append_all_Ok [OF assms(3)] f1 p by (simp_all add: empty_file_def)
  have f3: "files w3 ?p = Some \<lparr>content = wal_log.log_bytes ops, durable = length (wal_log.log_bytes ops)\<rparr>"
    using assms(4) f2 by (auto simp: wal_sync_def should_fail_def empty_file_def split: if_splits)
  have later: "list_all op_fits later"
    and f4: "files w4 ?p = Some \<lparr>content = ?all, durable = length (wal_log.log_bytes ops)\<rparr>"
    using wal_append_all_Ok [OF assms(5) f3] by simp_all
  have "length (wal_log.log_bytes ops) \<le> keep ?p"
    using crash_keepsD [OF assms(6) f4] by simp
  then obtain m where "wal_collect_bytes (take (keep ?p) ?all) = Ok (ops @ take m later)"
    using wal_log.collect_durable [of ops later "keep ?p"] ops later by auto
  then show ?thesis
    using f4 by (auto simp: wal_replay_def wal_iter_def wal_collect_bytes_def file_of_def)
qed

theorem wal_crash_recovery_witness:
  "\<exists>wal w4 m. wal_replay wal (crash (\<lambda>_. 17) w4) =
     (Ok ([Put [97] [49]] @ take m [Put [98] [50]]), crash (\<lambda>_. 17) w4)"
proof -
  let ?wal = "\<lparr>wal_path = ''wal.log''\<rparr>" and ?w1 = "open_create ''wal.log'' empty_world"
  let ?w2 = "file_append ''wal.log'' (op_bytes (Put [97] [49])) ?w1"
  let ?w3 = "file_sync ''wal.log'' ?w2"
  let ?w4 = "file_append ''wal.log'' (op_bytes (Put [98] [50])) ?w3"
  have fp: "failpoint ?w1 = None" "failpoint ?w2 = None" "failpoint ?w3 = None"
    by (simp_all add: empty_world_def)
  have fits: "op_fits (Put [97] [49])" "op_fits (Put [98] [50])"
    by (simp_all add: op_fits_def record_consts)
  have "files empty_world ''wal.log'' = None" and "wal_open ''wal.log'' empty_world = (Ok ?wal, ?w1)"
    by (simp_all add: wal_open_def empty_world_def)
  moreover have "wal_append_all ?wal [Put [97] [49]] ?w1 = (Ok (), ?w2)"
    and "wal_sync ?wal ?w2 = (Ok (), ?w3)" and "wal_append_all ?wal [Put [98] [50]] ?w3 = (Ok (), ?w4)"
    using fp fits by (simp_all add: wal_append_def wal_sync_def should_fail_def encode_fits Let_def)
  moreover have "crash_keeps (\<lambda>_. 17) ?w4"
    by (auto simp: crash_keeps_def length_op_bytes files_open_create empty_world_def file_of_def
        empty_file_def open_create_def split: if_splits)
  ultimately show ?thesis
    using wal_crash_recovery by blast
qed

section \<open>Corruption\<close>

lemma u32_le_second_byte:
  assumes "n < 256"
  shows "(u32_le (as_u32 n))[1 := 0xFF] = u32_le (as_u32 (n + 65280))"
proof -
  define x where "x = as_u32 n"
  have low: "take_bit 8 x = x"
    using assms by (simp add: x_def take_bit_of_nat take_bit_nat_eq_self)
  have high: "drop_bit 8 x = 0" "drop_bit 16 x = 0" "drop_bit 24 x = 0"
    by (subst low [symmetric], simp add: drop_bit_take_bit)+
  have "x AND 0xFF00 = take_bit 8 x AND 0xFF00"
    by (simp only: low)
  also have "\<dots> = 0"
    by (simp add: take_bit_eq_mask and.assoc mask_numeral)
  finally have "as_u32 (n + 65280) = x OR 0xFF00"
    using disjunctive_add_eq_or [of x "0xFF00"] by (simp add: x_def)
  moreover have zero: "(0xFF00 :: u8) = 0"
    by simp
  then have "ucast x OR 0xFF00 = (ucast x :: u8)"
    unfolding zero by simp
  ultimately show ?thesis
    by (simp add: u32_le_eval high unsigned_or_eq flip: x_def)
qed

lemma rec_lens_update:
  assumes "i < 5 \<or> 13 \<le> i"
  shows "rec_key_len (xs[i := b] @ rest) = rec_key_len (xs @ rest)"
    and "rec_value_len (xs[i := b] @ rest) = rec_value_len (xs @ rest)"
  using assms
  by (auto simp: rec_key_len_def rec_value_len_def drop_update_swap take_update_swap
      drop_update_cancel take_update_cancel list_update_beyond simp flip: list_update_append1)

lemma wal_parse_corrupt:
  assumes fits: "op_fits op" and i: "i < length (op_bytes op)" "i < 5 \<or> 13 \<le> i"
    and b: "b \<noteq> op_bytes op ! i"
  shows "wal_parse ((op_bytes op)[i := b] @ rest) \<in> {Bad CorruptedRecord, Bad InvalidChecksum}"
proof -
  let ?bad = "(op_bytes op)[i := b]" and ?data = "(op_bytes op)[i := b] @ rest"
  have lens: "rec_key_len ?data = length (op_key op)" "rec_value_len ?data = length (op_value op)"
    using rec_lens_op_bytes [OF fits, of "length ?data" rest]
    by (simp_all add: rec_lens_update [OF i(2)] length_op_bytes)
  have "take (13 + length (op_key op) + length (op_value op)) ?data = ?bad"
    by (simp add: length_op_bytes)
  then have "wal_next (wal_from_bytes ?data) =
      (Some (decode ?bad), \<lparr>wal_data = ?data, wal_pos = length (op_bytes op)\<rparr>)"
    unfolding wal_from_bytes_def wal_next_pure [OF le0 refl] drop_0 lens
    using op_fits_sizes [OF fits] by (simp add: length_op_bytes)
  then show ?thesis
    using decode_detects [OF fits i(1) b] by (auto simp: wal_parse_def)
qed

text \<open>
  A complete record in the middle of the log whose checksum, type, key or value was changed in
  one byte makes replay fail; nothing after it is silently skipped.
\<close>

lemma wal_replay_corrupt_record:
  assumes "list_all op_fits ops" and "op_fits op"
    and "i < length (op_bytes op)" and "i < 5 \<or> 13 \<le> i" and "b \<noteq> op_bytes op ! i"
  shows "wal_collect_bytes (wal_log.log_bytes ops @ (op_bytes op)[i := b] @ rest)
     \<in> {Err CorruptedRecord, Err InvalidChecksum}"
  using wal_parse_corrupt [OF assms(2-5), of rest] wal_log.collect_append [OF assms(1)]
    wal_log.collect_Bad by fastforce

text \<open>
  C32: the length fields are the exception. If the second byte of a key length is overwritten with
  \<^verbatim>\<open>0xFF\<close>, the record claims to be longer than the rest of the file, replay takes it for a torn tail,
  reports success and silently drops that record and every acknowledged record after it.
\<close>

theorem wal_corrupt_length_drops_tail:
  assumes "list_all op_fits ops" and "list_all op_fits (op # later)"
    and "length (op_key op) < 256" and "length (wal_log.log_bytes (op # later)) < 65280"
  shows "wal_collect_bytes (wal_log.log_bytes ops @ (wal_log.log_bytes (op # later))[6 := 0xFF]) = Ok ops"
proof -
  let ?data = "(wal_log.log_bytes (op # later))[6 := 0xFF]"
  let ?n = "length (op_key op)"
  have "take 4 (drop 5 ?data) = (u32_le (as_u32 ?n))[1 := 0xFF]"
    by (simp add: op_bytes_split list_update_append drop_update_swap take_update_swap)
  also have "\<dots> = u32_le (as_u32 (?n + 65280))"
    using assms(3) by (rule u32_le_second_byte)
  finally have klen: "rec_key_len ?data = ?n + 65280"
    using assms(3) unat_as_u32 [of "?n + 65280"] by (simp add: rec_key_len_def)
  have "take 4 (drop 9 ?data) = u32_le (as_u32 (length (op_value op)))"
    by (simp add: op_bytes_split list_update_append)
  then have vlen: "rec_value_len ?data = length (op_value op)"
    using assms(2) by (simp add: rec_value_len_def op_fits_def record_consts unat_as_u32)
  have len: "13 \<le> length ?data" "length ?data < 65280"
    using assms(4) by (simp_all add: length_op_bytes)
  then have "wal_parse ?data = End"
    unfolding wal_parse_def wal_from_bytes_def wal_next_pure [OF le0 refl] drop_0 klen vlen
    using assms(2,3) by (auto simp: op_fits_def record_consts)
  then show ?thesis
    using wal_log.collect_append [OF assms(1), of ?data] wal_log.collect_End by simp
qed

theorem wal_corrupt_length_drops_tail_witness:
  "wal_collect_bytes (wal_log.log_bytes [Put [97] [49]] @
     (wal_log.log_bytes [Put [98] [50], Put [99] [51]])[6 := 0xFF]) = Ok [Put [97] [49]]"
  by (rule wal_corrupt_length_drops_tail) (simp_all add: op_fits_def record_consts length_op_bytes)

text \<open>
  C33: a torn tail is skipped when the log is read but it is not removed, and the next append goes
  behind it. If a crash left the first four bytes of a record, the log still replays; but once one more
  write has been appended, synced and acknowledged, the log as a whole can no longer be replayed.
\<close>

theorem wal_append_after_torn_tail:
  assumes "files w (wal_path wal) = Some x"
    and "content x = wal_log.log_bytes ops @ take 4 (op_bytes torn)"
    and "list_all op_fits ops" and "op_fits torn" and "op_fits op" and "failpoint w = None"
  shows "wal_replay wal w = (Ok ops, w) \<and>
    (\<exists>offset w1 w2. wal_append wal op w = (Ok offset, w1) \<and> wal_sync wal w1 = (Ok (), w2) \<and>
       wal_replay wal w2 = (Err CorruptedRecord, w2))"
proof (intro conjI exI)
  let ?w1 = "file_append (wal_path wal) (op_bytes op) w"
  let ?frag = "take 4 (op_bytes torn)"
  have "wal_parse ?frag = End"
    by (rule wal_parse_torn) (simp_all add: assms length_op_bytes)
  then have "wal_collect_bytes (content x) = Ok ops"
    using wal_log.collect_append [OF assms(3)] wal_log.collect_End by (simp add: assms(2))
  then show "wal_replay wal w = (Ok ops, w)"
    using assms(1) by (simp add: wal_replay_def wal_iter_def wal_collect_bytes_def)
  show "wal_append wal op w = (Ok (as_u64 (length (content x))), ?w1)"
    using assms by (simp add: wal_append_def should_fail_def encode_fits)
  show "wal_sync wal ?w1 = (Ok (), file_sync (wal_path wal) ?w1)"
    using assms by (simp add: wal_sync_def should_fail_def)
  have "wal_parse (?frag @ op_bytes op) = Bad CorruptedRecord"
    by (rule wal_parse_shifted_record) (simp_all add: length_op_bytes)
  then have "wal_collect_bytes (content x @ op_bytes op) = Err CorruptedRecord"
    using wal_log.collect_append [OF assms(3), of "?frag @ op_bytes op"] wal_log.collect_Bad
    by (simp add: assms(2))
  then show "wal_replay wal (file_sync (wal_path wal) ?w1) =
      (Err CorruptedRecord, file_sync (wal_path wal) ?w1)"
    using assms(1) by (simp add: wal_replay_def wal_iter_def wal_collect_bytes_def)
qed

theorem wal_append_after_torn_tail_witness:
  "\<exists>wal w. wal_replay wal w = (Ok [Put [97] [49]], w) \<and>
    (\<exists>offset w1 w2. wal_append wal (Put [99] [51]) w = (Ok offset, w1) \<and>
       wal_sync wal w1 = (Ok (), w2) \<and> wal_replay wal w2 = (Err CorruptedRecord, w2))"
proof -
  let ?x = "\<lparr>content = wal_log.log_bytes [Put [97] [49]] @ take 4 (op_bytes (Put [98] [50])), durable = 19\<rparr>"
  let ?w = "set_file ''wal.log'' ?x empty_world"
  show ?thesis
  proof (rule exI [where x = "\<lparr>wal_path = ''wal.log''\<rparr>"], rule exI [where x = ?w],
      rule wal_append_after_torn_tail)
    show "files ?w (wal_path \<lparr>wal_path = ''wal.log''\<rparr>) = Some ?x"
      by simp
    show "content ?x = wal_log.log_bytes [Put [97] [49]] @ take 4 (op_bytes (Put [98] [50]))"
      by (simp only: disk_file.simps)
  qed (simp_all add: op_fits_def record_consts empty_world_def)
qed

end
