(* ===== verification/Manifest.thy ===== *)
theory Manifest
  imports Crc Io Log_Format
begin

text \<open>
  The manifest (\<^verbatim>\<open>src/src/manifest.rs\<close>): the crash-consistent log of the live tables. Its records have a
  fixed length, so it is the second instance of the log format. The theorems relate the state in
  memory to the state a recovery would rebuild from the file.
\<close>

section \<open>The code\<close>

datatype manifest_record = AddTable u64 u32 | RemoveTable u64 | SetNextTableId u64

definition TYPE_ADD :: u8 where
  "TYPE_ADD = 1"

definition TYPE_REMOVE :: u8 where
  "TYPE_REMOVE = 2"

definition TYPE_NEXT_ID :: u8 where
  "TYPE_NEXT_ID = 3"

definition RECORD_LEN :: nat where
  "RECORD_LEN = 4 + 1 + 8 + 4"

record manifest =
  man_file :: string
  next_table_id :: u64
  man_tables :: "(u64 \<times> u32) list"

fun man_record_parts :: "manifest_record \<Rightarrow> u8 \<times> u64 \<times> u32" where
  "man_record_parts (AddTable tid level) = (TYPE_ADD, tid, level)"
| "man_record_parts (RemoveTable tid) = (TYPE_REMOVE, tid, 0)"
| "man_record_parts (SetNextTableId tid) = (TYPE_NEXT_ID, tid, 0)"

definition encode_record :: "manifest_record \<Rightarrow> bytes" where
  "encode_record r =
     (case man_record_parts r of (kind, tid, level) \<Rightarrow>
        let body = [kind] @ u64_le tid @ u32_le level in u32_le (crc32 body) @ body)"

definition decode_body :: "bytes \<Rightarrow> manifest_record result" where
  "decode_body body =
     (if length body \<noteq> 13 then Err InvalidManifest else
      and_then (index body 0) (\<lambda>kind.
      and_then (read_u64_at 1 9 body) (\<lambda>tid.
      and_then (read_u32_at 9 13 body) (\<lambda>level.
      if kind = TYPE_ADD then Ok (AddTable tid level)
      else if kind = TYPE_REMOVE then Ok (RemoveTable tid)
      else if kind = TYPE_NEXT_ID then Ok (SetNextTableId tid)
      else Err InvalidManifest))))"

definition man_has_table :: "u64 \<Rightarrow> manifest \<Rightarrow> bool" where
  "man_has_table tid m \<longleftrightarrow> list_ex (\<lambda>(existing, _). existing = tid) (man_tables m)"

text \<open>The match of the recovery loop.\<close>

fun man_apply :: "manifest_record \<Rightarrow> manifest \<Rightarrow> unit result \<times> manifest" where
  "man_apply (AddTable tid level) m =
     (if man_has_table tid m then (Err InvalidManifest, m)
      else (Ok (), m\<lparr>man_tables := man_tables m @ [(tid, level)]\<rparr>))"
| "man_apply (RemoveTable tid) m =
     (Ok (), m\<lparr>man_tables := filter (\<lambda>(existing, _). existing \<noteq> tid) (man_tables m)\<rparr>)"
| "man_apply (SetNextTableId tid) m = (Ok (), m\<lparr>next_table_id := tid\<rparr>)"

function man_recover_loop :: "bytes \<Rightarrow> nat \<Rightarrow> manifest \<Rightarrow> unit result \<times> manifest" where
  "man_recover_loop bs pos m =
     (if pos + RECORD_LEN \<le> length bs then
        andThen (slice pos (pos + RECORD_LEN) bs, m) (\<lambda>record m.
        andThen (read_u32_at 0 4 record, m) (\<lambda>checksum m.
        andThen (slice_from 4 record, m) (\<lambda>body m.
        if crc32 body \<noteq> checksum then (Err InvalidManifest, m) else
        andThen (decode_body body, m) (\<lambda>r m.
        andThen (man_apply r m) (\<lambda>_ m.
        man_recover_loop bs (pos + RECORD_LEN) m)))))
      else (Ok (), m))"
  by pat_completeness auto
termination
  by (relation "measure (\<lambda>(bs, pos, m). length bs - pos)") (auto simp: RECORD_LEN_def)

declare man_recover_loop.simps [simp del]

definition man_recover :: "manifest \<Rightarrow> world \<Rightarrow> unit result \<times> manifest" where
  "man_recover m w =
     (let bs = content (file_of (man_file m) w);
          m = m\<lparr>next_table_id := 1, man_tables := []\<rparr>
      in man_recover_loop bs 0 m)"

definition MANIFEST_FILE :: string where
  "MANIFEST_FILE = ''MANIFEST''"

definition man_open :: "world \<Rightarrow> manifest result \<times> world" where
  "man_open w =
     (let w = open_create MANIFEST_FILE w;
          m = \<lparr>man_file = MANIFEST_FILE, next_table_id = 1, man_tables = []\<rparr>
      in case man_recover m w of
           (Ok _, m) \<Rightarrow> (Ok m, w)
         | (Err e, _) \<Rightarrow> (Err e, w)
         | (Panic, _) \<Rightarrow> (Panic, w))"

text \<open>The operations change the manifest and the files: their state is the pair of the two.\<close>

definition man_append :: "manifest_record \<Rightarrow> manifest \<times> world \<Rightarrow> unit result \<times> manifest \<times> world" where
  "man_append r s =
     (case s of (m, w) \<Rightarrow>
      let (fail, w) = should_fail ManifestWrite w in
      if fail then (Err (other_error ''injected manifest write failure''), m, w)
      else let bs = encode_record r;
               w = file_append (man_file m) bs w;
               w = file_sync (man_file m) w
           in (Ok (), m, w))"

definition man_add_table :: "u64 \<Rightarrow> u32 \<Rightarrow> manifest \<times> world \<Rightarrow> unit result \<times> manifest \<times> world" where
  "man_add_table tid level s =
     (if man_has_table tid (fst s) then (Err InvalidManifest, s)
      else andThen (man_append (AddTable tid level) s) (\<lambda>_ (m, w).
        (Ok (), m\<lparr>man_tables := man_tables m @ [(tid, level)]\<rparr>, w)))"

fun man_remove_tables :: "u64 list \<Rightarrow> manifest \<times> world \<Rightarrow> unit result \<times> manifest \<times> world" where
  "man_remove_tables [] s = (Ok (), s)"
| "man_remove_tables (tid # ids) s =
     andThen (man_append (RemoveTable tid) s) (\<lambda>_ (m, w).
       man_remove_tables ids
         (m\<lparr>man_tables := filter (\<lambda>(existing, _). existing \<noteq> tid) (man_tables m)\<rparr>, w))"

definition man_next_table_id :: "manifest \<times> world \<Rightarrow> u64 result \<times> manifest \<times> world" where
  "man_next_table_id s =
     (case s of (m, w) \<Rightarrow>
      let tid = next_table_id m;
          m = m\<lparr>next_table_id := next_table_id m + 1\<rparr>
      in andThen (man_append (SetNextTableId (next_table_id m)) (m, w)) (\<lambda>_ s. (Ok tid, s)))"

definition man_active_tables :: "manifest \<Rightarrow> (u64 \<times> u32) list" where
  "man_active_tables m = man_tables m"

definition man_current_next_id :: "manifest \<Rightarrow> u64" where
  "man_current_next_id m = next_table_id m"

lemmas man_consts = TYPE_ADD_def TYPE_REMOVE_def TYPE_NEXT_ID_def RECORD_LEN_def

lemma RECORD_LEN: "RECORD_LEN = 17"
  by (simp add: RECORD_LEN_def)

section \<open>The record format\<close>

definition man_body :: "manifest_record \<Rightarrow> bytes" where
  "man_body r = (case man_record_parts r of (kind, tid, level) \<Rightarrow> [kind] @ u64_le tid @ u32_le level)"

lemma encode_record_eq: "encode_record r = u32_le (crc32 (man_body r)) @ man_body r"
  by (simp add: encode_record_def man_body_def Let_def split: prod.splits)

lemma length_man_body [simp]: "length (man_body r) = 13"
  by (simp add: man_body_def split: prod.splits)

lemma length_encode_record [simp]: "length (encode_record r) = 17"
  by (simp add: encode_record_eq)

lemma decode_man_body: "decode_body (man_body r) = Ok r"
proof -
  obtain kind tid level where parts: "man_record_parts r = (kind, tid, level)"
    by (cases "man_record_parts r") auto
  have "index (man_body r) 0 = Ok kind" "read_u64_at 1 9 (man_body r) = Ok tid"
    "read_u32_at 9 13 (man_body r) = Ok level"
    by (simp_all add: result_simps man_body_def parts index_def)
  then show ?thesis
    using parts by (cases r) (auto simp: decode_body_def man_consts)
qed

lemma decode_body_outcome:
  "length body = 13 \<Longrightarrow> (\<exists>r. decode_body body = Ok r) \<or> decode_body body = Err InvalidManifest"
  by (auto simp: decode_body_def result_simps index_def)

section \<open>The manifest is an instance of the log format\<close>

definition man_parse :: "bytes \<Rightarrow> manifest_record parsed" where
  "man_parse bs =
     (if length bs < 17 then End
      else if \<not> crc.frame_ok (take 17 bs) then Bad InvalidManifest
      else case decode_body (drop 4 (take 17 bs)) of
             Ok r \<Rightarrow> Item r (drop 17 bs)
           | Err e \<Rightarrow> Bad e
           | Panic \<Rightarrow> End)"

lemma man_parse_shrinks: "man_parse bs = Item r rest \<Longrightarrow> length rest < length bs"
  by (auto simp: man_parse_def split: if_splits result.splits)

function man_collect :: "bytes \<Rightarrow> manifest_record list result" where
  "man_collect bs =
     (case man_parse bs of
        End \<Rightarrow> Ok []
      | Bad e \<Rightarrow> Err e
      | Item r rest \<Rightarrow> and_then (man_collect rest) (\<lambda>rs. Ok (r # rs)))"
  by pat_completeness auto
termination
  by (relation "measure length") (auto dest: man_parse_shrinks)

declare man_collect.simps [simp del]

interpretation man_log: log_format encode_record "\<lambda>_. True" man_parse man_collect
proof unfold_locales
  fix r rest
  have "crc.frame_ok (encode_record r)"
    by (simp add: encode_record_eq crc.frame_ok_frame)
  then show "man_parse (encode_record r @ rest) = Item r rest"
    by (simp add: man_parse_def encode_record_eq decode_man_body)
qed (simp_all add: man_parse_def man_collect.simps)

primrec man_apply_all :: "manifest_record list \<Rightarrow> manifest \<Rightarrow> unit result \<times> manifest" where
  "man_apply_all [] m = (Ok (), m)"
| "man_apply_all (r # rs) m = andThen (man_apply r m) (\<lambda>_. man_apply_all rs)"

lemma man_apply_all_append:
  "man_apply_all (rs @ ss) m = andThen (man_apply_all rs m) (\<lambda>_. man_apply_all ss)"
proof (induction rs arbitrary: m)
  case (Cons r rs)
  then show ?case
    by (cases "man_apply r m"; cases "fst (man_apply r m)") auto
qed simp

lemma man_recover_loop_parse:
  assumes "pos \<le> length bs"
  shows "man_recover_loop bs pos m =
     (case man_parse (drop pos bs) of
        End \<Rightarrow> (Ok (), m)
      | Bad e \<Rightarrow> (Err e, m)
      | Item r rest \<Rightarrow> andThen (man_apply r m) (\<lambda>_. man_recover_loop bs (pos + 17)))"
proof (cases "pos + 17 \<le> length bs")
  case True
  let ?rec = "take 17 (drop pos bs)"
  have sl: "slice pos (pos + 17) bs = Ok ?rec" "read_u32_at 0 4 ?rec = Ok (from_le (take 4 ?rec))"
    "slice_from 4 ?rec = Ok (drop 4 ?rec)"
    using True by (simp_all add: result_simps)
  have frame: "crc32 (drop 4 ?rec) \<noteq> from_le (take 4 ?rec) \<longleftrightarrow> \<not> crc.frame_ok ?rec"
    using True by (auto simp: crc.frame_ok_def)
  have loop: "man_recover_loop bs pos m =
      (if \<not> crc.frame_ok ?rec then (Err InvalidManifest, m)
       else andThen (decode_body (drop 4 ?rec), m) (\<lambda>r m.
         andThen (man_apply r m) (\<lambda>_. man_recover_loop bs (pos + 17))))"
    unfolding man_recover_loop.simps [of bs pos m] RECORD_LEN sl andThen.simps frame
    using True by simp
  have "length (drop 4 ?rec) = 13" using True by simp
  then show ?thesis
    using True decode_body_outcome [of "drop 4 ?rec"] unfolding loop man_parse_def by auto
next
  case False
  then have "length (drop pos bs) < 17"
    by auto
  then have "man_parse (drop pos bs) = End"
    unfolding man_parse_def by (rule if_P)
  with False show ?thesis
    by (simp add: man_recover_loop.simps [of bs pos m] RECORD_LEN)
qed

lemma man_recover_loop_collect:
  "pos \<le> length bs \<Longrightarrow> man_collect (drop pos bs) = Ok rs \<Longrightarrow>
     man_recover_loop bs pos m = man_apply_all rs m"
proof (induction "length bs - pos" arbitrary: pos rs m rule: less_induct)
  case less
  show ?case
  proof (cases "man_parse (drop pos bs)")
    case (Item r rest)
    have rest: "rest = drop (pos + 17) bs" and room: "pos + 17 \<le> length bs"
      using Item by (auto simp: man_parse_def add.commute split: if_splits result.splits)
    obtain rs' where rs': "rs = r # rs'" "man_collect (drop (pos + 17) bs) = Ok rs'"
      using less.prems(2) Item rest
      by (auto simp: man_collect.simps [of "drop pos bs"] and_then_eq_Ok)
    have "man_recover_loop bs (pos + 17) = man_apply_all rs'"
      using less.hyps [of "pos + 17" rs'] room rs' less.prems(1) by fastforce
    then show ?thesis
      using man_recover_loop_parse [OF less.prems(1)] Item rs' by simp
  qed (use less.prems man_recover_loop_parse [OF less.prems(1)] in
      \<open>simp_all add: man_collect.simps [of "drop pos bs"]\<close>)
qed

text \<open>An unreadable record anywhere is an invalid manifest.\<close>

lemma man_parse_Bad: "man_parse bs = Bad e \<Longrightarrow> e = InvalidManifest"
  using decode_body_outcome [of "drop 4 (take 17 bs)"]
  by (auto simp: man_parse_def split: if_splits result.splits)

lemma man_recover_loop_Err:
  "pos \<le> length bs \<Longrightarrow> man_collect (drop pos bs) = Err e \<Longrightarrow>
     fst (man_recover_loop bs pos m) = Err InvalidManifest"
proof (induction "length bs - pos" arbitrary: pos m rule: less_induct)
  case less
  show ?case
  proof (cases "man_parse (drop pos bs)")
    case (Item r rest)
    have rest: "rest = drop (pos + 17) bs" and room: "pos + 17 \<le> length bs"
      using Item by (auto simp: man_parse_def add.commute split: if_splits result.splits)
    have "man_collect (drop (pos + 17) bs) = Err e"
      using less.prems(2) Item rest
      by (cases "man_collect rest") (auto simp: man_collect.simps [of "drop pos bs"])
    then have "fst (man_recover_loop bs (pos + 17) m') = Err InvalidManifest" for m'
      using less.hyps [of "pos + 17"] room by fastforce
    then show ?thesis
      using man_recover_loop_parse [OF less.prems(1)] Item by (cases r) auto
  qed (use less.prems man_recover_loop_parse [OF less.prems(1)] man_parse_Bad in
      \<open>fastforce simp: man_collect.simps [of "drop pos bs"]\<close>)+
qed

abbreviation man_fresh :: "string \<Rightarrow> manifest" where
  "man_fresh f \<equiv> \<lparr>man_file = f, next_table_id = 1, man_tables = []\<rparr>"

lemma man_recover_collect:
  "man_collect (content (file_of (man_file m) w)) = Ok rs \<Longrightarrow>
     man_recover m w = man_apply_all rs (man_fresh (man_file m))"
  using man_recover_loop_collect [of 0 "content (file_of (man_file m) w)" rs]
  by (cases m) (simp add: man_recover_def Let_def)

lemma man_apply_file: "man_apply r m = (x, m') \<Longrightarrow> man_file m' = man_file m"
  by (cases r) (auto split: if_splits)

lemma man_apply_all_file: "man_apply_all rs m = (x, m') \<Longrightarrow> man_file m' = man_file m"
proof (induction rs arbitrary: m)
  case (Cons r rs)
  obtain y m1 where "man_apply r m = (y, m1)" by fastforce
  with Cons man_apply_file [OF this] show ?case by (cases y) auto
qed simp

section \<open>Memory and disk agree\<close>

text \<open>
  The file holds a sequence of records, all durable, whose replay rebuilds the tables in memory. The
  next id on disk is never ahead of the one in memory; it is behind only after an append of
  \<^verbatim>\<open>SetNextTableId\<close> failed, and then the id was not handed out.
\<close>

definition man_inv :: "manifest \<times> world \<Rightarrow> bool" where
  "man_inv s \<longleftrightarrow> (\<exists>x rs m. files (snd s) (man_file (fst s)) = Some x \<and>
     content x = man_log.log_bytes rs \<and> durable x = length (content x) \<and>
     man_apply_all rs (man_fresh (man_file (fst s))) = (Ok (), m) \<and>
     man_tables m = man_tables (fst s) \<and> distinct (map fst (man_tables (fst s))))"

lemma man_has_table_iff: "man_has_table tid m \<longleftrightarrow> tid \<in> fst ` set (man_tables m)"
  by (force simp: man_has_table_def list_ex_iff)

lemma man_inv_files:
  "man_inv (m, w) \<Longrightarrow> files w' (man_file m) = files w (man_file m) \<Longrightarrow> man_inv (m, w')"
  by (simp add: man_inv_def)

lemma man_inv_next_id: "man_inv (m, w) \<Longrightarrow> man_inv (m\<lparr>next_table_id := n\<rparr>, w)"
  by (simp add: man_inv_def)

lemma man_append_cases:
  obtains
    (injected) "failpoint w = Some ManifestWrite"
      "man_append r (m, w) =
        (Err (other_error ''injected manifest write failure''), m, w\<lparr>failpoint := None\<rparr>)"
  | (written) "failpoint w \<noteq> Some ManifestWrite"
      "man_append r (m, w) = (Ok (), m, file_sync (man_file m) (file_append (man_file m) (encode_record r) w))"
  by (cases "failpoint w = Some ManifestWrite") (simp_all add: man_append_def should_fail_def Let_def)

text \<open>Appending a record keeps the agreement when the tables in memory follow the record.\<close>

lemma man_inv_append:
  assumes "man_inv (m, w)" and "man_append r (m, w) = (Ok (), m, w')"
    and "man_apply r m = (Ok (), m1)" and "man_file m' = man_file m"
    and "man_tables m' = man_tables m1"
  shows "man_inv (m', w')"
proof -
  from assms(1) obtain x rs m0 where x: "files w (man_file m) = Some x"
    and c: "content x = man_log.log_bytes rs"
    and m0: "man_apply_all rs (man_fresh (man_file m)) = (Ok (), m0)" "man_tables m0 = man_tables m"
    and d: "distinct (map fst (man_tables m))"
    by (auto simp: man_inv_def)
  let ?x' = "\<lparr>content = man_log.log_bytes (rs @ [r]), durable = length (man_log.log_bytes (rs @ [r]))\<rparr>"
  have "files w' (man_file m) = Some ?x'"
    using assms(2) x c by (cases rule: man_append_cases [of w r m]) (auto simp: man_log.log_bytes_def)
  moreover obtain m2 where "man_apply r m0 = (Ok (), m2)" "man_tables m2 = man_tables m1"
    using assms(3) m0(2) by (cases r) (auto simp: man_has_table_def split: if_splits)
  then have "man_apply_all (rs @ [r]) (man_fresh (man_file m)) = (Ok (), m2)" "man_tables m2 = man_tables m'"
    using m0(1) assms(5) by (simp_all add: man_apply_all_append)
  moreover have "distinct (map fst (man_tables m'))"
    using d assms(3,5)
    by (cases r) (auto simp: man_has_table_iff distinct_map_filter split: if_splits)
  ultimately show ?thesis
    unfolding man_inv_def using assms(4) by (intro exI [of _ ?x'] exI [of _ "rs @ [r]"]) auto
qed

lemma man_inv_add_table:
  assumes "man_inv s" and "man_add_table tid level s = (x, s')"
  shows "man_inv s'"
proof (cases "man_has_table tid (fst s)")
  case True
  then show ?thesis using assms by (simp add: man_add_table_def)
next
  case False
  obtain m w where s: "s = (m, w)" by (cases s)
  show ?thesis
  proof (cases rule: man_append_cases [of w "AddTable tid level" m])
    case injected
    then show ?thesis
      using False assms s by (auto simp: man_add_table_def intro: man_inv_files)
  next
    case written
    then show ?thesis
      using False assms s man_inv_append [OF _ written(2), of "m\<lparr>man_tables := man_tables m @ [(tid, level)]\<rparr>"]
      by (auto simp: man_add_table_def)
  qed
qed

lemma man_inv_remove_tables:
  "man_inv s \<Longrightarrow> man_remove_tables ids s = (x, s') \<Longrightarrow> man_inv s'"
proof (induction ids arbitrary: s)
  case Nil
  then show ?case by simp
next
  case (Cons tid ids)
  obtain m w where s: "s = (m, w)" by (cases s)
  show ?case
  proof (cases rule: man_append_cases [of w "RemoveTable tid" m])
    case injected
    then show ?thesis
      using Cons.prems s by (auto intro: man_inv_files)
  next
    case written
    have "man_inv (m\<lparr>man_tables := filter (\<lambda>(i, _). i \<noteq> tid) (man_tables m)\<rparr>,
        file_sync (man_file m) (file_append (man_file m) (encode_record (RemoveTable tid)) w))"
      by (rule man_inv_append [OF Cons.prems(1) [unfolded s] written(2)]) simp+
    then show ?thesis
      by (rule Cons.IH) (use Cons.prems(2) s written in simp)
  qed
qed

lemma man_inv_next_table_id:
  assumes "man_inv s" and "man_next_table_id s = (x, s')"
  shows "man_inv s'"
proof -
  obtain m w where s: "s = (m, w)" by (cases s)
  let ?m = "m\<lparr>next_table_id := next_table_id m + 1\<rparr>"
  have inv: "man_inv (?m, w)" using assms(1) s man_inv_next_id by simp
  show ?thesis
  proof (cases rule: man_append_cases [of w "SetNextTableId (next_table_id m + 1)" ?m])
    case injected
    then show ?thesis
      using assms(2) s inv by (auto simp: man_next_table_id_def Let_def intro: man_inv_files)
  next
    case written
    then show ?thesis
      using assms(2) s man_inv_append [OF inv written(2), of _ ?m]
      by (auto simp: man_next_table_id_def Let_def)
  qed
qed

section \<open>Every reachable manifest\<close>

lemma man_open_log:
  assumes "files w MANIFEST_FILE = Some x" and "man_collect (content x) = Ok rs"
    and "man_apply_all rs (man_fresh MANIFEST_FILE) = (Ok (), m)"
  shows "man_open w = (Ok m, w)"
  using assms man_recover_collect [of "man_fresh MANIFEST_FILE" w rs]
  by (simp add: man_open_def open_create_def Let_def)

lemma man_open_new:
  "files w MANIFEST_FILE = None \<Longrightarrow>
     man_open w = (Ok (man_fresh MANIFEST_FILE), open_create MANIFEST_FILE w)"
  using man_recover_collect [of "man_fresh MANIFEST_FILE" "open_create MANIFEST_FILE w" "[]"]
  by (simp add: man_open_def Let_def file_of_def files_open_create empty_file_def
      man_log.collect_End [OF man_log.parse_Nil])

lemma man_open_bad:
  assumes "files w MANIFEST_FILE = Some x" and "man_collect (content x) = Err e"
  shows "man_open w = (Err InvalidManifest, w)"
proof -
  have "fst (man_recover (man_fresh MANIFEST_FILE) w) = Err InvalidManifest"
    using man_recover_loop_Err [of 0 "content x" e] assms by (simp add: man_recover_def Let_def)
  then show ?thesis
    using assms by (auto simp: man_open_def open_create_def Let_def split: prod.splits)
qed

text \<open>
  The life of a manifest: it is created, its operations run and succeed or fail, other files of the
  directory and the failpoint change, and the process crashes and reopens it, between two operations or
  while one of them appends a record. A crash that tears the record apart ends the life described here:
  the reopened manifest is still the one before the record, but what is appended to it afterwards is lost
  (both are shown below). The flag says that an id was refused since the next id last was on disk: the
  counter in memory is then ahead of the file.
\<close>

primrec man_appends :: "manifest \<Rightarrow> manifest_record \<Rightarrow> bool" where
  "man_appends m (AddTable tid level) = (\<not> man_has_table tid m)"
| "man_appends m (RemoveTable tid) = True"
| "man_appends m (SetNextTableId tid) = (tid = next_table_id m + 1)"

inductive man_run :: "bool \<Rightarrow> manifest \<times> world \<Rightarrow> bool" where
  create: "files w MANIFEST_FILE = None \<Longrightarrow> man_open w = (Ok m, w') \<Longrightarrow> man_run False (m, w')"
| add: "man_run b s \<Longrightarrow> man_add_table tid level s = (x, s') \<Longrightarrow> man_run b s'"
| remove: "man_run b s \<Longrightarrow> man_remove_tables ids s = (x, s') \<Longrightarrow> man_run b s'"
| next_id: "man_run b s \<Longrightarrow> man_next_table_id s = (x, s') \<Longrightarrow> man_run (\<forall>i. x \<noteq> Ok i) s'"
| environment: "man_run b (m, w) \<Longrightarrow> files w' MANIFEST_FILE = files w MANIFEST_FILE \<Longrightarrow> man_run b (m, w')"
| restart: "man_run b (m, w) \<Longrightarrow> crash_keeps keep w \<Longrightarrow> man_open (crash keep w) = (Ok m', w') \<Longrightarrow>
     man_run False (m', w')"
| crash_append: "man_run b (m, w) \<Longrightarrow> man_appends m r \<Longrightarrow>
     crash_keeps keep (file_append MANIFEST_FILE (encode_record r) w) \<Longrightarrow>
     17 dvd length (content (file_of MANIFEST_FILE (crash keep (file_append MANIFEST_FILE (encode_record r) w)))) \<Longrightarrow>
     man_open (crash keep (file_append MANIFEST_FILE (encode_record r) w)) = (Ok m', w') \<Longrightarrow>
     man_run False (m', w')"

definition man_reach :: "manifest \<times> world \<Rightarrow> bool" where
  "man_reach s \<longleftrightarrow> (\<exists>b. man_run b s)"

lemma man_add_table_file: "man_add_table tid level s = (x, s') \<Longrightarrow> man_file (fst s') = man_file (fst s)"
  by (cases s, cases rule: man_append_cases [of "snd s" "AddTable tid level" "fst s"])
    (auto simp: man_add_table_def split: if_splits)

lemma man_remove_tables_file: "man_remove_tables ids s = (x, s') \<Longrightarrow> man_file (fst s') = man_file (fst s)"
proof (induction ids arbitrary: s)
  case (Cons tid ids)
  obtain m w where "s = (m, w)" by (cases s)
  with Cons show ?case
    by (cases rule: man_append_cases [of w "RemoveTable tid" m]) fastforce+
qed simp

lemma man_next_table_id_file: "man_next_table_id s = (x, s') \<Longrightarrow> man_file (fst s') = man_file (fst s)"
  by (cases s, cases rule: man_append_cases [of "snd s" "SetNextTableId (next_table_id (fst s) + 1)"
        "(fst s)\<lparr>next_table_id := next_table_id (fst s) + 1\<rparr>"])
    (auto simp: man_next_table_id_def Let_def)

text \<open>Reopening the file would give exactly this manifest.\<close>

definition man_replays :: "manifest \<Rightarrow> world \<Rightarrow> bool" where
  "man_replays m w \<longleftrightarrow> (\<exists>x rs. files w MANIFEST_FILE = Some x \<and> content x = man_log.log_bytes rs \<and>
     durable x = length (content x) \<and> man_apply_all rs (man_fresh MANIFEST_FILE) = (Ok (), m))"

lemma man_replays_append:
  assumes "man_replays m0 w" and "man_apply r m0 = (Ok (), m1)" and "failpoint w \<noteq> Some ManifestWrite"
    and "man_file m = MANIFEST_FILE"
  obtains w' where "man_append r (m, w) = (Ok (), m, w')" and "man_replays m1 w'" and "changes {MANIFEST_FILE} w w'"
proof -
  let ?w = "file_sync MANIFEST_FILE (file_append MANIFEST_FILE (encode_record r) w)"
  from assms(1) obtain x rs where x: "files w MANIFEST_FILE = Some x" "content x = man_log.log_bytes rs"
    and rs: "man_apply_all rs (man_fresh MANIFEST_FILE) = (Ok (), m0)"
    by (auto simp: man_replays_def)
  have "man_append r (m, w) = (Ok (), m, ?w)"
    using assms(3,4) by (cases rule: man_append_cases [of w r m]) simp_all
  moreover have "man_apply_all (rs @ [r]) (man_fresh MANIFEST_FILE) = (Ok (), m1)"
    using rs assms(2) by (simp add: man_apply_all_append)
  then have "man_replays m1 ?w"
    unfolding man_replays_def using x
    by (intro exI [of _ "\<lparr>content = man_log.log_bytes (rs @ [r]), durable = length (man_log.log_bytes (rs @ [r]))\<rparr>"]
        exI [of _ "rs @ [r]"]) simp
  moreover have "changes {MANIFEST_FILE} w ?w"
    by (simp add: changes_def)
  ultimately show ?thesis by (rule that)
qed

lemma man_open_inv:
  assumes "man_inv (m, w)" and "man_file m = MANIFEST_FILE"
  obtains m' where "man_open w = (Ok m', w)" and "man_tables m' = man_tables m"
    and "man_file m' = MANIFEST_FILE" and "man_inv (m', w)" and "man_replays m' w"
proof -
  from assms(1,2) obtain x rs m0 where x: "files w MANIFEST_FILE = Some x"
    and c: "content x = man_log.log_bytes rs" and d: "durable x = length (content x)"
    and m0: "man_apply_all rs (man_fresh MANIFEST_FILE) = (Ok (), m0)" "man_tables m0 = man_tables m"
    and dist: "distinct (map fst (man_tables m))"
    by (auto simp: man_inv_def)
  have "man_open w = (Ok m0, w)"
    using man_log.collect_log [of rs] c by (intro man_open_log [OF x _ m0(1)]) (simp add: list_all_iff)
  moreover have f: "man_file m0 = MANIFEST_FILE"
    using man_apply_all_file [OF m0(1)] by simp
  moreover have "man_inv (m0, w)"
    unfolding man_inv_def using x c d m0 dist f
    by (intro exI [of _ x] exI [of _ rs] exI [of _ m0]) simp
  moreover have "man_replays m0 w"
    using x c d m0(1) by (auto simp: man_replays_def)
  ultimately show ?thesis using m0(2) that by blast
qed

lemma man_inv_crash: "man_inv (m, w) \<Longrightarrow> crash_keeps keep w \<Longrightarrow> man_inv (m, crash keep w)"
  using crash_durable unfolding man_inv_def fst_conv snd_conv by blast

text \<open>A crash within an append that tears nothing leaves the file as it was, or with the whole record.\<close>

lemma man_inv_crash_append:
  assumes inv: "man_inv (m, w)" and f: "man_file m = MANIFEST_FILE" and r: "man_appends m r"
    and keep: "crash_keeps keep (file_append MANIFEST_FILE (encode_record r) w)"
    and whole: "17 dvd length (content (file_of MANIFEST_FILE (crash keep (file_append MANIFEST_FILE (encode_record r) w))))"
  obtains m1 where "man_inv (m1, crash keep (file_append MANIFEST_FILE (encode_record r) w))"
    and "man_file m1 = MANIFEST_FILE"
proof -
  let ?w = "file_append MANIFEST_FILE (encode_record r) w" and ?n = "keep MANIFEST_FILE"
  from inv f obtain x rs m0 where x: "files w MANIFEST_FILE = Some x"
    and c: "content x = man_log.log_bytes rs" and d: "durable x = length (content x)"
    and m0: "man_apply_all rs (man_fresh MANIFEST_FILE) = (Ok (), m0)" "man_tables m0 = man_tables m"
    and dist: "distinct (map fst (man_tables m))"
    by (auto simp: man_inv_def)
  have len: "length (man_log.log_bytes ss) = 17 * length ss" for ss :: "manifest_record list"
    by (induction ss) simp_all
  have fx: "files ?w MANIFEST_FILE = Some (x\<lparr>content := man_log.log_bytes (rs @ [r])\<rparr>)"
    using x c by simp
  have low: "17 * length rs \<le> ?n"
    using crash_keepsD [OF keep fx] c d len [of rs] by simp
  obtain ss where ss: "take ?n (man_log.log_bytes (rs @ [r])) = man_log.log_bytes (rs @ ss)" "ss = [] \<or> ss = [r]"
  proof -
    have "content (file_of MANIFEST_FILE (crash keep ?w)) = take ?n (man_log.log_bytes (rs @ [r]))"
      unfolding file_of_def files_crash fx by simp
    then have "17 dvd min (17 * length rs + 17) ?n"
      using whole len [of "rs @ [r]"] by (simp del: man_log.log_bytes_simps add: add.commute)
    with low consider "?n = 17 * length rs" | "17 * length rs + 17 \<le> ?n"
      by (auto simp: min_def dvd_def split: if_splits)
    then show ?thesis
      by cases (use that [of "[]"] that [of "[r]"] len [of rs] in auto)
  qed
  obtain m1 where m1: "man_apply r m = (Ok (), m1)"
    using r by (cases r) auto
  obtain m2 where m2: "man_apply r m0 = (Ok (), m2)" "man_tables m2 = man_tables m1"
    using m1 m0(2) by (cases r) (auto simp: man_has_table_def split: if_splits)
  let ?m = "if ss = [] then m0 else m2"
  have app: "man_apply_all (rs @ ss) (man_fresh MANIFEST_FILE) = (Ok (), ?m)"
    using ss(2) m0(1) m2(1) by (auto simp: man_apply_all_append)
  then have mf: "man_file ?m = MANIFEST_FILE"
    using man_apply_all_file by fastforce
  have "distinct (map fst (man_tables ?m))"
    using dist m0(2) m1 m2(2) r
    by (cases r) (auto simp: man_has_table_iff distinct_map_filter split: if_splits)
  moreover have "files (crash keep ?w) MANIFEST_FILE =
      Some \<lparr>content = man_log.log_bytes (rs @ ss), durable = length (man_log.log_bytes (rs @ ss))\<rparr>"
    unfolding files_crash fx using ss(1) by (simp del: man_log.log_bytes_simps length_take)
  ultimately have "man_inv (?m, crash keep ?w)"
    unfolding man_inv_def using app mf
    by (intro exI [of _ "\<lparr>content = man_log.log_bytes (rs @ ss), durable = length (man_log.log_bytes (rs @ ss))\<rparr>"]
        exI [of _ "rs @ ss"] exI [of _ ?m]) (simp del: files_crash)
  then show ?thesis using mf by (rule that)
qed

lemma man_replays_add:
  assumes "man_replays m w" and "man_file m = MANIFEST_FILE" and "man_add_table tid level (m, w) = (x, m', w')"
  shows "man_replays m' w'"
proof (cases "failpoint w = Some ManifestWrite \<or> man_has_table tid m")
  case True
  then show ?thesis
    using assms by (auto simp: man_add_table_def man_append_def should_fail_def man_replays_def split: if_splits)
next
  case False
  let ?m = "m\<lparr>man_tables := man_tables m @ [(tid, level)]\<rparr>"
  have app: "man_apply (AddTable tid level) m = (Ok (), ?m)" and fp: "failpoint w \<noteq> Some ManifestWrite"
    using False by simp_all
  obtain w1 where "man_append (AddTable tid level) (m, w) = (Ok (), m, w1)" "man_replays ?m w1"
    by (rule man_replays_append [OF assms(1) app fp assms(2)])
  then show ?thesis
    using assms(3) False by (auto simp: man_add_table_def)
qed

lemma man_replays_remove:
  "man_replays m w \<Longrightarrow> man_file m = MANIFEST_FILE \<Longrightarrow> man_remove_tables ids (m, w) = (x, m', w') \<Longrightarrow>
     man_replays m' w'"
proof (induction ids arbitrary: m w)
  case (Cons tid ids)
  let ?m = "m\<lparr>man_tables := filter (\<lambda>(i, _). i \<noteq> tid) (man_tables m)\<rparr>"
  show ?case
  proof (cases "failpoint w = Some ManifestWrite")
    case True
    then show ?thesis
      using Cons.prems by (auto simp: man_append_def should_fail_def man_replays_def)
  next
    case False
    have app: "man_apply (RemoveTable tid) m = (Ok (), ?m)"
      by simp
    obtain w1 where "man_append (RemoveTable tid) (m, w) = (Ok (), m, w1)" "man_replays ?m w1"
      by (rule man_replays_append [OF Cons.prems(1) app False Cons.prems(2)])
    then show ?thesis
      using Cons.IH [of ?m w1] Cons.prems by simp
  qed
qed simp

text \<open>After a successful request the next id on disk is the one in memory, whatever it was before.\<close>

lemma man_replays_next_id:
  assumes inv: "man_inv (m, w)" and f: "man_file m = MANIFEST_FILE" and n: "man_next_table_id (m, w) = (Ok i, m', w')"
  shows "man_replays m' w'"
proof -
  let ?m = "m\<lparr>next_table_id := next_table_id m + 1\<rparr>" and ?r = "SetNextTableId (next_table_id m + 1)"
  obtain m0 where m0: "man_tables m0 = man_tables m" "man_file m0 = MANIFEST_FILE" "man_replays m0 w"
    by (rule man_open_inv [OF inv f]) blast
  have fp: "failpoint w \<noteq> Some ManifestWrite"
    using n by (auto simp: man_next_table_id_def man_append_def should_fail_def Let_def split: if_splits)
  have app: "man_apply ?r m0 = (Ok (), ?m)"
    using m0(1,2) f by (cases m, cases m0) simp
  have f': "man_file ?m = MANIFEST_FILE"
    using f by simp
  obtain w1 where "man_append ?r (?m, w) = (Ok (), ?m, w1)" "man_replays ?m w1"
    by (rule man_replays_append [OF m0(3) app fp f'])
  then show ?thesis
    using n by (auto simp: man_next_table_id_def)
qed

lemma man_run_inv:
  "man_run b s \<Longrightarrow> man_inv s \<and> man_file (fst s) = MANIFEST_FILE \<and> (\<not> b \<longrightarrow> man_replays (fst s) (snd s))"
proof (induction rule: man_run.induct)
  case (create w m w')
  then show ?case
    by (auto simp: man_open_new man_inv_def man_replays_def files_open_create empty_file_def man_log.log_bytes_def
        intro!: exI [of _ "[]"])
next
  case (environment b m w w')
  then show ?case by (auto simp: man_replays_def intro: man_inv_files)
next
  case (restart b m w keep m' w')
  then have "man_inv (m, crash keep w)" "man_file m = MANIFEST_FILE"
    using man_inv_crash by simp_all
  then show ?case by (rule man_open_inv) (use restart.hyps in simp)
next
  case (crash_append b m w r keep m' w')
  then obtain m1 where "man_inv (m1, crash keep (file_append MANIFEST_FILE (encode_record r) w))"
      and "man_file m1 = MANIFEST_FILE"
    using man_inv_crash_append by (metis fst_conv)
  then show ?case by (rule man_open_inv) (use crash_append.hyps in simp)
next
  case (add b s tid level x s')
  obtain m w m' w' where "s = (m, w)" "s' = (m', w')" by (metis surj_pair)
  then show ?case
    using add man_inv_add_table [of s] man_add_table_file [of tid level s] man_replays_add [of m w] by simp
next
  case (remove b s ids x s')
  obtain m w m' w' where "s = (m, w)" "s' = (m', w')" by (metis surj_pair)
  then show ?case
    using remove man_inv_remove_tables [of s] man_remove_tables_file [of ids s] man_replays_remove [of m w] by simp
next
  case (next_id b s x s')
  obtain m w m' w' where "s = (m, w)" "s' = (m', w')" by (metis surj_pair)
  then show ?case
    using next_id man_inv_next_table_id [of s] man_next_table_id_file [of s] man_replays_next_id [of m w] by auto
qed

lemma man_reach_inv: "man_reach s \<Longrightarrow> man_inv s \<and> man_file (fst s) = MANIFEST_FILE"
  unfolding man_reach_def using man_run_inv by blast

lemma man_replays_crash: "man_replays m w \<Longrightarrow> crash_keeps keep w \<Longrightarrow> man_replays m (crash keep w)"
  using crash_durable unfolding man_replays_def by blast

lemma man_replays_open: "man_replays m w \<Longrightarrow> man_open w = (Ok m, w)"
  using man_log.collect_log man_open_log unfolding man_replays_def by (fastforce simp: list_all_iff)

text \<open>
  C34: whatever operations, injected failures and crashes led to the current state, a crash between two
  operations and a reopen succeed and rebuild the tables the manifest has in memory, with pairwise
  different ids. Unless a request for an id has failed since the last one that succeeded (or since the
  last open), the reopened manifest is the one in memory altogether, next id included. Earlier crashes may
  have hit an append, as long as they left no torn record behind.
\<close>

theorem manifest_reopens_to_memory:
  assumes "man_run b (m, w)" and "crash_keeps keep w"
  shows "\<exists>m'. man_open (crash keep w) = (Ok m', crash keep w) \<and>
    man_active_tables m' = man_active_tables m \<and> distinct (map fst (man_active_tables m')) \<and>
    (\<not> b \<longrightarrow> m' = m)"
proof -
  from man_run_inv [OF assms(1)] have inv: "man_inv (m, w)" "man_file m = MANIFEST_FILE"
    and rep: "\<not> b \<longrightarrow> man_replays m w"
    by simp_all
  obtain m' where m': "man_open (crash keep w) = (Ok m', crash keep w)" "man_tables m' = man_tables m"
    by (rule man_open_inv [OF man_inv_crash [OF inv(1) assms(2)] inv(2)])
  moreover have "distinct (map fst (man_tables m))"
    using inv(1) by (auto simp: man_inv_def)
  moreover have "m' = m" if "\<not> b"
    using man_replays_open [OF man_replays_crash [OF _ assms(2)]] rep that m'(1) by auto
  ultimately show ?thesis
    by (auto simp: man_active_tables_def)
qed

text \<open>
  C35: a crash in the middle of an append is atomic. Whatever part of the new record reached the disk,
  the reopened manifest has either the old tables or the tables after the record.
\<close>

theorem manifest_append_crash_atomic:
  assumes "man_reach (m, w)" and "man_apply r m = (Ok (), m1)"
    and "crash_keeps keep (file_append MANIFEST_FILE (encode_record r) w)"
  shows "\<exists>m' w'. man_open (crash keep (file_append MANIFEST_FILE (encode_record r) w)) = (Ok m', w') \<and>
    (man_active_tables m' = man_active_tables m \<or> man_active_tables m' = man_active_tables m1)"
proof -
  from man_reach_inv [OF assms(1)] obtain x rs m0 where x: "files w MANIFEST_FILE = Some x"
    and c: "content x = man_log.log_bytes rs" and d: "durable x = length (content x)"
    and m0: "man_apply_all rs (man_fresh MANIFEST_FILE) = (Ok (), m0)" "man_tables m0 = man_tables m"
    by (auto simp: man_inv_def)
  let ?w = "file_append MANIFEST_FILE (encode_record r) w"
  let ?n = "keep MANIFEST_FILE"
  have fx: "files ?w MANIFEST_FILE = Some (x\<lparr>content := man_log.log_bytes (rs @ [r])\<rparr>)"
    using x c by (simp add: man_log.log_bytes_def)
  have keep: "length (man_log.log_bytes rs) \<le> ?n"
    using crash_keepsD [OF assms(3) fx] c d by simp
  obtain k where k: "man_collect (take ?n (man_log.log_bytes (rs @ [r]))) = Ok (rs @ take k [r])"
    using man_log.collect_durable [OF _ keep, of "[r]"] by (auto simp: list_all_iff)
  obtain m2 where m2: "man_apply r m0 = (Ok (), m2)" "man_tables m2 = man_tables m1"
    using assms(2) m0(2) by (cases r) (auto simp: man_has_table_def split: if_splits)
  have app: "man_apply_all (rs @ take k [r]) (man_fresh MANIFEST_FILE) = (Ok (), if k = 0 then m0 else m2)"
    using m0(1) m2(1) by (simp add: man_apply_all_append take_Cons' )
  have fc: "files (crash keep ?w) MANIFEST_FILE =
      Some \<lparr>content = take ?n (man_log.log_bytes (rs @ [r])),
        durable = length (take ?n (man_log.log_bytes (rs @ [r])))\<rparr>"
    unfolding files_crash fx by simp
  have "man_open (crash keep ?w) = (Ok (if k = 0 then m0 else m2), crash keep ?w)"
    by (rule man_open_log [OF fc _ app]) (simp only: disk_file.select_convs k)
  then show ?thesis
    using m0(2) m2(2) by (auto simp: man_active_tables_def)
qed

text \<open>
  C36: ids are never handed out twice. An id is returned only after its successor is durable, so the
  next id after it, in this process and after any crash, is its successor.
\<close>

theorem manifest_next_id_durable:
  assumes "man_reach s" and "man_next_table_id s = (Ok tid, m, w)" and "crash_keeps keep w"
  shows "man_current_next_id m = tid + 1 \<and>
    (\<exists>m'. man_open (crash keep w) = (Ok m', crash keep w) \<and> man_current_next_id m' = tid + 1)"
proof -
  obtain m0 w0 where s: "s = (m0, w0)" by (cases s)
  from man_reach_inv [OF assms(1)] obtain x rs m1 where x: "files w0 MANIFEST_FILE = Some x"
    and f: "man_file m0 = MANIFEST_FILE" and c: "content x = man_log.log_bytes rs"
    and m1: "man_apply_all rs (man_fresh MANIFEST_FILE) = (Ok (), m1)"
    using s by (auto simp: man_inv_def)
  let ?m = "m0\<lparr>next_table_id := next_table_id m0 + 1\<rparr>" and ?r = "SetNextTableId (next_table_id m0 + 1)"
  have res: "m = ?m" "tid = next_table_id m0"
    and w: "w = file_sync MANIFEST_FILE (file_append MANIFEST_FILE (encode_record ?r) w0)"
    using assms(2) s f
    by (cases rule: man_append_cases [of w0 ?r ?m]; auto simp: man_next_table_id_def Let_def)+
  let ?x = "\<lparr>content = man_log.log_bytes (rs @ [?r]), durable = length (man_log.log_bytes (rs @ [?r]))\<rparr>"
  have "files w MANIFEST_FILE = Some ?x"
    using x c by (simp add: w man_log.log_bytes_def)
  from crash_durable [OF assms(3) this] have fx: "files (crash keep w) MANIFEST_FILE = Some ?x"
    by simp
  have "man_open (crash keep w) = (Ok (m1\<lparr>next_table_id := next_table_id m0 + 1\<rparr>), crash keep w)"
    using m1 man_log.collect_log [of "rs @ [?r]"]
    by (intro man_open_log [OF fx, where rs = "rs @ [?r]"])
      (simp_all add: man_apply_all_append list_all_iff)
  then show ?thesis
    using res by (simp add: man_current_next_id_def)
qed

section \<open>Table ids and the log\<close>

text \<open>
  Memory and disk agree up to the next id, which is \<open>n0\<close> on disk and may be ahead of it in memory; every live table
  has an id below \<open>n0\<close>.
\<close>

definition man_at :: "u64 \<Rightarrow> manifest \<Rightarrow> world \<Rightarrow> bool" where
  "man_at n0 m w \<longleftrightarrow> man_replays (m\<lparr>next_table_id := n0\<rparr>) w \<and> man_file m = MANIFEST_FILE \<and>
     distinct (map fst (man_tables m)) \<and> (\<forall>i \<in> fst ` set (man_tables m). i < n0) \<and> n0 \<le> next_table_id m"

lemma man_at_cong: "man_at n0 m w \<Longrightarrow> files w' MANIFEST_FILE = files w MANIFEST_FILE \<Longrightarrow> man_at n0 m w'"
  by (simp add: man_at_def man_replays_def)

lemma man_at_next_id:
  assumes at: "man_at n0 m w" and fp: "failpoint w \<noteq> Some ManifestWrite" and small: "next_table_id m < next_table_id m + 1"
  obtains w' where "man_next_table_id (m, w) = (Ok (next_table_id m), m\<lparr>next_table_id := next_table_id m + 1\<rparr>, w')"
    and "man_at (next_table_id m + 1) (m\<lparr>next_table_id := next_table_id m + 1\<rparr>) w'" and "changes {MANIFEST_FILE} w w'"
proof -
  let ?m = "m\<lparr>next_table_id := next_table_id m + 1\<rparr>" and ?r = "SetNextTableId (next_table_id m + 1)"
  from at have rep: "man_replays (m\<lparr>next_table_id := n0\<rparr>) w" and mf: "man_file ?m = MANIFEST_FILE"
    by (simp_all add: man_at_def)
  have app: "man_apply ?r (m\<lparr>next_table_id := n0\<rparr>) = (Ok (), ?m)"
    by simp
  obtain w' where w': "man_append ?r (?m, w) = (Ok (), ?m, w')" "man_replays ?m w'" "changes {MANIFEST_FILE} w w'"
    by (rule man_replays_append [OF rep app fp mf])
  moreover have "i < next_table_id m + 1" if "i \<in> fst ` set (man_tables m)" for i
    using at that small unfolding man_at_def by (meson less_le_trans less_imp_le)
  ultimately show ?thesis
    using at by (intro that) (simp_all add: man_next_table_id_def man_at_def)
qed

lemma man_at_next_id_fails:
  assumes at: "man_at n0 m w" and fp: "failpoint w = Some ManifestWrite" and small: "next_table_id m < next_table_id m + 1"
  shows "\<exists>err. man_next_table_id (m, w) = (Err err, m\<lparr>next_table_id := next_table_id m + 1\<rparr>, w\<lparr>failpoint := None\<rparr>)"
    and "man_at n0 (m\<lparr>next_table_id := next_table_id m + 1\<rparr>) (w\<lparr>failpoint := None\<rparr>)"
  using at fp small
  by (auto simp: man_next_table_id_def man_append_def should_fail_def man_at_def man_replays_def Let_def)

lemma man_at_add:
  assumes at: "man_at n0 m w" and fp: "failpoint w \<noteq> Some ManifestWrite" and tid: "tid < n0" "tid \<notin> fst ` set (man_tables m)"
  obtains w' where "man_add_table tid level (m, w) = (Ok (), m\<lparr>man_tables := man_tables m @ [(tid, level)]\<rparr>, w')"
    and "man_at n0 (m\<lparr>man_tables := man_tables m @ [(tid, level)]\<rparr>) w'" and "changes {MANIFEST_FILE} w w'"
proof -
  let ?m = "m\<lparr>man_tables := man_tables m @ [(tid, level)]\<rparr>" and ?r = "AddTable tid level"
  from at have rep: "man_replays (m\<lparr>next_table_id := n0\<rparr>) w" and mf: "man_file m = MANIFEST_FILE"
    by (simp_all add: man_at_def)
  have app: "man_apply ?r (m\<lparr>next_table_id := n0\<rparr>) = (Ok (), ?m\<lparr>next_table_id := n0\<rparr>)"
    using tid(2) by (simp add: man_has_table_iff)
  obtain w' where "man_append ?r (m, w) = (Ok (), m, w')" "man_replays (?m\<lparr>next_table_id := n0\<rparr>) w'"
      "changes {MANIFEST_FILE} w w'"
    by (rule man_replays_append [OF rep app fp mf])
  then show ?thesis
    using at tid by (intro that) (auto simp: man_add_table_def man_has_table_iff man_at_def)
qed

lemma man_at_remove:
  assumes "man_at n0 m w" and "failpoint w \<noteq> Some ManifestWrite"
  obtains w' where "man_remove_tables ids (m, w) =
      (Ok (), m\<lparr>man_tables := filter (\<lambda>(i, _). i \<notin> set ids) (man_tables m)\<rparr>, w')"
    and "man_at n0 (m\<lparr>man_tables := filter (\<lambda>(i, _). i \<notin> set ids) (man_tables m)\<rparr>) w'" and "changes {MANIFEST_FILE} w w'"
proof -
  have "\<exists>w'. man_remove_tables ids (m, w) =
      (Ok (), m\<lparr>man_tables := filter (\<lambda>(i, _). i \<notin> set ids) (man_tables m)\<rparr>, w') \<and>
      man_at n0 (m\<lparr>man_tables := filter (\<lambda>(i, _). i \<notin> set ids) (man_tables m)\<rparr>) w' \<and> changes {MANIFEST_FILE} w w'"
    using assms
  proof (induction ids arbitrary: m w)
    case Nil
    then show ?case by (simp add: case_prod_beta)
  next
    case (Cons tid ids)
    let ?m = "m\<lparr>man_tables := filter (\<lambda>(i, _). i \<noteq> tid) (man_tables m)\<rparr>" and ?r = "RemoveTable tid"
    from Cons.prems have rep: "man_replays (m\<lparr>next_table_id := n0\<rparr>) w" and mf: "man_file m = MANIFEST_FILE"
      by (simp_all add: man_at_def)
    have app: "man_apply ?r (m\<lparr>next_table_id := n0\<rparr>) = (Ok (), ?m\<lparr>next_table_id := n0\<rparr>)"
      by simp
    obtain w1 where w1: "man_append ?r (m, w) = (Ok (), m, w1)" "man_replays (?m\<lparr>next_table_id := n0\<rparr>) w1"
        "changes {MANIFEST_FILE} w w1"
      by (rule man_replays_append [OF rep app Cons.prems(2) mf])
    have "man_at n0 ?m w1"
      using Cons.prems(1) w1(2) by (auto simp: man_at_def distinct_map_filter)
    moreover have "failpoint w1 \<noteq> Some ManifestWrite"
      using w1(3) Cons.prems(2) by (simp add: changes_def)
    moreover have "filter (\<lambda>(i, _). i \<notin> set ids) (filter (\<lambda>(i, _). i \<noteq> tid) (man_tables m)) =
        filter (\<lambda>(i, _). i \<notin> set (tid # ids)) (man_tables m)"
      by (auto simp: filter_filter intro: filter_cong)
    ultimately show ?case
      using Cons.IH [of ?m w1] w1(1,3) changes_trans [OF w1(3)] by fastforce
  qed
  then show ?thesis using that by blast
qed

lemma man_at_new:
  assumes "files w MANIFEST_FILE = None"
  shows "man_at 1 (man_fresh MANIFEST_FILE) (open_create MANIFEST_FILE w)"
  using assms by (auto simp: man_at_def man_replays_def files_open_create empty_file_def intro!: exI [of _ "[]"])

lemma man_at_open:
  assumes "man_at n0 m w"
  shows "man_open w = (Ok (m\<lparr>next_table_id := n0\<rparr>), w)" and "man_at n0 (m\<lparr>next_table_id := n0\<rparr>) w"
proof -
  from assms obtain x rs where x: "files w MANIFEST_FILE = Some x" "content x = man_log.log_bytes rs"
    and rs: "man_apply_all rs (man_fresh MANIFEST_FILE) = (Ok (), m\<lparr>next_table_id := n0\<rparr>)"
    by (auto simp: man_at_def man_replays_def)
  then show "man_open w = (Ok (m\<lparr>next_table_id := n0\<rparr>), w)"
    using man_log.collect_log [of rs] by (intro man_open_log [OF x(1) _ rs]) (simp add: list_all_iff)
  show "man_at n0 (m\<lparr>next_table_id := n0\<rparr>) w"
    using assms by (simp add: man_at_def)
qed

lemma man_at_crash:
  assumes "man_at n0 m w" and "crash_keeps keep w"
  shows "man_at n0 m (crash keep w)"
  using assms crash_durable [OF assms(2)] unfolding man_at_def man_replays_def by blast

section \<open>Witnesses\<close>

text \<open>A small history: a fresh directory, one id allocated, the table added at level 0.\<close>

abbreviation man_w0 :: world where
  "man_w0 \<equiv> open_create MANIFEST_FILE empty_world"

definition man_s1 :: "manifest \<times> world" where
  "man_s1 = snd (man_next_table_id (man_fresh MANIFEST_FILE, man_w0))"

definition man_s2 :: "manifest \<times> world" where
  "man_s2 = snd (man_add_table 1 0 man_s1)"

lemma man_run_s0: "man_run False (man_fresh MANIFEST_FILE, man_w0)"
  by (rule man_run.create [OF _ man_open_new]) (simp_all add: empty_world_def)

lemma man_reach_s0: "man_reach (man_fresh MANIFEST_FILE, man_w0)"
  using man_run_s0 by (auto simp: man_reach_def)

lemma man_s1_eq:
  "man_next_table_id (man_fresh MANIFEST_FILE, man_w0) = (Ok 1, man_s1)"
  "fst man_s1 = (man_fresh MANIFEST_FILE)\<lparr>next_table_id := 2\<rparr>"
  by (simp_all add: man_s1_def man_next_table_id_def man_append_def should_fail_def Let_def
      empty_world_def)

lemma man_run_s1: "man_run False man_s1"
  using man_run.next_id [OF man_run_s0 man_s1_eq(1)] by simp

lemma man_run_s2: "man_run False man_s2"
  unfolding man_s2_def by (rule man_run.add [OF man_run_s1 surjective_pairing])

lemma man_s2_tables: "man_active_tables (fst man_s2) = [(1, 0)]"
  by (cases man_s1) (use man_s1_eq in \<open>auto simp: man_s2_def man_add_table_def man_append_def
      should_fail_def Let_def man_has_table_def man_active_tables_def man_s1_def man_next_table_id_def
      empty_world_def\<close>)

theorem manifest_reopens_to_memory_witness:
  "man_open (crash (keep_synced (snd man_s2)) (snd man_s2)) =
      (Ok (fst man_s2), crash (keep_synced (snd man_s2)) (snd man_s2)) \<and> man_active_tables (fst man_s2) = [(1, 0)]"
proof -
  have "man_run False (fst man_s2, snd man_s2)"
    using man_run_s2 by simp
  from manifest_reopens_to_memory [OF this crash_keeps_synced] show ?thesis
    using man_s2_tables by auto
qed

theorem manifest_append_crash_atomic_witness:
  "\<exists>keep m' w'. man_open (crash keep (file_append MANIFEST_FILE (encode_record (RemoveTable 1)) (snd man_s2))) =
      (Ok m', w') \<and> man_active_tables m' \<in> {[(1, 0)], []}"
proof -
  let ?w = "file_append MANIFEST_FILE (encode_record (RemoveTable 1)) (snd man_s2)"
  have reach: "man_reach (fst man_s2, snd man_s2)"
    using man_run_s2 by (auto simp: man_reach_def)
  have app: "man_apply (RemoveTable 1) (fst man_s2) = (Ok (), (fst man_s2)\<lparr>man_tables := []\<rparr>)"
    using man_s2_tables by (simp add: man_active_tables_def)
  from manifest_append_crash_atomic [OF reach app crash_keeps_synced] show ?thesis
    using man_s2_tables by (fastforce simp: man_active_tables_def)
qed

theorem manifest_next_id_durable_witness:
  "\<exists>m'. man_open (crash (keep_synced (snd man_s1)) (snd man_s1)) =
      (Ok m', crash (keep_synced (snd man_s1)) (snd man_s1)) \<and> man_current_next_id m' = 2"
proof -
  have "man_next_table_id (man_fresh MANIFEST_FILE, man_w0) = (Ok 1, fst man_s1, snd man_s1)"
    using man_s1_eq(1) by simp
  from manifest_next_id_durable [OF man_reach_s0 this crash_keeps_synced] show ?thesis
    by auto
qed

definition man_torn_world :: world where
  "man_torn_world =
     file_append MANIFEST_FILE (encode_record (AddTable 1 0) @ take 4 (encode_record (AddTable 2 0))) man_w0"

lemma man_torn_bytes:
  "man_parse (take 4 (encode_record (AddTable 2 0)) @ take 13 (encode_record (AddTable 3 0))) = Bad InvalidManifest"
proof -
  have "\<not> crc.frame_ok (take 17 (take 4 (encode_record (AddTable 2 0)) @ take 13 (encode_record (AddTable 3 0))))"
    by (simp add: crc.frame_ok_def encode_record_eq man_body_def man_consts eval_simps)
  then show ?thesis
    by (simp add: man_parse_def)
qed

lemma man_open_apply_fails:
  assumes "files w MANIFEST_FILE = Some x" and "man_collect (content x) = Ok rs"
    and "man_apply_all rs (man_fresh MANIFEST_FILE) = (Err e, m)"
  shows "man_open w = (Err e, w)"
  using assms man_recover_collect [of "man_fresh MANIFEST_FILE" w rs]
  by (simp add: man_open_def open_create_def Let_def)

text \<open>Seventeen bytes behind complete records, whatever they are, are replayed as one more record or refused.\<close>

lemma man_parse_one:
  assumes "length bs = 17"
  obtains r where "man_parse bs = Item r []" and "man_parse (bs @ rest) = Item r rest"
  | e where "man_parse (bs @ rest) = Bad e"
proof (cases "crc.frame_ok bs")
  case True
  consider r where "decode_body (drop 4 bs) = Ok r" | "decode_body (drop 4 bs) = Err InvalidManifest"
    using decode_body_outcome [of "drop 4 bs"] assms by auto
  then show ?thesis
    by cases (use True assms that in \<open>auto simp: man_parse_def\<close>)
next
  case False
  then show ?thesis
    using assms that(2) [of InvalidManifest] by (simp add: man_parse_def)
qed

lemma man_open_one_more:
  assumes y: "files w MANIFEST_FILE = Some y" "content y = man_log.log_bytes rs @ bs @ rest"
    and len: "length bs = 17" "length rest < 17"
    and m: "man_apply_all rs (man_fresh MANIFEST_FILE) = (Ok (), m)"
  shows "man_open w = (Err InvalidManifest, w) \<or>
    (\<exists>r m'. man_parse bs = Item r [] \<and> man_apply r m = (Ok (), m') \<and> man_open w = (Ok m', w))"
proof -
  have coll: "man_collect (content y) = and_then (man_collect (bs @ rest)) (\<lambda>ss. Ok (rs @ ss))"
    using man_log.collect_append [of rs "bs @ rest"] y(2) by (simp add: list_all_iff)
  show ?thesis
  proof (rule man_parse_one [OF len(1), of rest])
    fix e
    assume "man_parse (bs @ rest) = Bad e"
    then have "man_collect (content y) = Err e"
      using coll man_log.collect_Bad by simp
    then show ?thesis
      using man_open_bad [OF y(1)] by simp
  next
    fix r
    assume r: "man_parse bs = Item r []" "man_parse (bs @ rest) = Item r rest"
    have "man_collect rest = Ok []"
      using len(2) by (intro man_log.collect_End) (simp add: man_parse_def)
    then have coll: "man_collect (content y) = Ok (rs @ [r])"
      using coll man_log.collect_Item [OF r(2)] by simp
    obtain z m' where "man_apply r m = (z, m')"
      by fastforce
    moreover from this have "z = Ok () \<or> z = Err InvalidManifest"
      by (cases r) (auto split: if_splits)
    ultimately show ?thesis
      using r(1) m man_open_log [OF y(1) coll, of m'] man_open_apply_fails [OF y(1) coll, of InvalidManifest m']
      by (auto simp: man_apply_all_append)
  qed
qed

text \<open>
  C37: as in the write-ahead log, a torn record is skipped but stays in the file, and the next record goes
  behind it. For any manifest file whose complete records are followed by the first \<open>j\<close> bytes of a torn
  one: the file opens as if the tail were not there, adding a table succeeds, and from then on either the
  manifest cannot be opened, or the torn bytes and the first bytes of the new record together happen to
  pass for a record, and opening replays that one in place of the table that was added.
\<close>

theorem manifest_append_after_torn_tail:
  assumes x: "files w MANIFEST_FILE = Some x"
    and c: "content x = man_log.log_bytes rs @ take j (encode_record torn)" and j: "0 < j" "j < 17"
    and m: "man_apply_all rs (man_fresh MANIFEST_FILE) = (Ok (), m)"
    and new: "\<not> man_has_table tid m" and fp: "failpoint w \<noteq> Some ManifestWrite"
  shows "man_open w = (Ok m, w) \<and>
    (\<exists>m1 w1. man_add_table tid level (m, w) = (Ok (), m1, w1) \<and>
       man_active_tables m1 = man_active_tables m @ [(tid, level)] \<and>
       (man_open w1 = (Err InvalidManifest, w1) \<or>
        (\<exists>r m2. man_parse (take j (encode_record torn) @ take (17 - j) (encode_record (AddTable tid level))) = Item r [] \<and>
           man_apply r m = (Ok (), m2) \<and> man_open w1 = (Ok m2, w1))))"
proof -
  let ?frag = "take j (encode_record torn)" and ?E = "encode_record (AddTable tid level)"
  let ?m = "m\<lparr>man_tables := man_tables m @ [(tid, level)]\<rparr>"
  let ?w = "file_sync MANIFEST_FILE (file_append MANIFEST_FILE ?E w)"
  have mf: "man_file m = MANIFEST_FILE"
    using man_apply_all_file [OF m] by simp
  have "man_collect ?frag = Ok []"
    using j by (intro man_log.collect_End) (simp add: man_parse_def)
  then have "man_collect (content x) = Ok rs"
    using man_log.collect_append [of rs ?frag] c by (simp add: list_all_iff)
  then have op: "man_open w = (Ok m, w)"
    by (rule man_open_log [OF x _ m])
  have add: "man_add_table tid level (m, w) = (Ok (), ?m, ?w)"
    using new fp mf by (simp add: man_add_table_def man_append_def should_fail_def Let_def)
  obtain y where y: "files ?w MANIFEST_FILE = Some y" "content y = man_log.log_bytes rs @ ?frag @ ?E"
    using x c by simp
  then have "content y = man_log.log_bytes rs @ (?frag @ take (17 - j) ?E) @ drop (17 - j) ?E"
    by simp
  from man_open_one_more [OF y(1) this _ _ m] j op add show ?thesis
    by (auto simp: man_active_tables_def)
qed

theorem manifest_append_after_torn_tail_witness:
  "\<exists>m m1 w1. man_open man_torn_world = (Ok m, man_torn_world) \<and> man_active_tables m = [(1, 0)] \<and>
     man_add_table 3 0 (m, man_torn_world) = (Ok (), m1, w1) \<and> man_active_tables m1 = [(1, 0), (3, 0)] \<and>
     man_open w1 = (Err InvalidManifest, w1)"
proof -
  let ?m = "(man_fresh MANIFEST_FILE)\<lparr>man_tables := [(1, 0)]\<rparr>"
  have x: "files man_torn_world MANIFEST_FILE =
      Some \<lparr>content = man_log.log_bytes [AddTable 1 0] @ take 4 (encode_record (AddTable 2 0)), durable = 0\<rparr>"
    by (simp add: man_torn_world_def files_open_create file_of_def empty_world_def empty_file_def)
  have "man_apply_all [AddTable 1 0] (man_fresh MANIFEST_FILE) = (Ok (), ?m)" "\<not> man_has_table 3 ?m"
    "failpoint man_torn_world \<noteq> Some ManifestWrite"
    by (simp_all add: man_has_table_def man_torn_world_def empty_world_def)
  from manifest_append_after_torn_tail [OF x _ _ _ this, of 4 "AddTable 2 0" 0] man_torn_bytes show ?thesis
    by (auto simp: man_active_tables_def)
qed

end
