(* ===== verification/MemTable.thy ===== *)
theory MemTable
  imports Prelude
begin

text \<open>
  The memtable (\<^verbatim>\<open>src/src/memtable.rs\<close>): entries, the sorted map with its running size estimate, its
  invariant (sorted keys; the estimate is exact), the contract of a write buffer as a locale, and the
  proof that the memtable is one.
\<close>

section \<open>The code\<close>

datatype entry = Value bytes | Tombstone

fun value_len :: "entry \<Rightarrow> nat" where
  "value_len (Value v) = length v"
| "value_len Tombstone = 0"

record memtable =
  entries :: "(bytes \<times> entry) list"
  approximate_size :: nat

definition mem_new :: memtable where
  "mem_new = \<lparr>entries = [], approximate_size = 0\<rparr>"

definition mem_get :: "memtable \<Rightarrow> bytes \<Rightarrow> entry option" where
  "mem_get t key = map_of (entries t) key"

definition mem_insert :: "bytes \<Rightarrow> entry \<Rightarrow> memtable \<Rightarrow> memtable" where
  "mem_insert key e t =
     (let added = length key + value_len e;
          size = (case mem_get t key of
                    Some previous \<Rightarrow> approximate_size t - value_len previous + value_len e
                  | None \<Rightarrow> approximate_size t + added)
      in \<lparr>entries = btree_insert key e (entries t), approximate_size = size\<rparr>)"

definition mem_put :: "bytes \<Rightarrow> bytes \<Rightarrow> memtable \<Rightarrow> memtable" where
  "mem_put key v t = mem_insert key (Value v) t"

definition mem_delete :: "bytes \<Rightarrow> memtable \<Rightarrow> memtable" where
  "mem_delete key t = mem_insert key Tombstone t"

definition mem_contains_key :: "memtable \<Rightarrow> bytes \<Rightarrow> bool" where
  "mem_contains_key t key \<longleftrightarrow> map_of (entries t) key \<noteq> None"

definition mem_len :: "memtable \<Rightarrow> nat" where
  "mem_len t = length (entries t)"

definition mem_is_empty :: "memtable \<Rightarrow> bool" where
  "mem_is_empty t \<longleftrightarrow> entries t = []"

definition mem_clear :: "memtable \<Rightarrow> memtable" where
  "mem_clear t = t\<lparr>entries := [], approximate_size := 0\<rparr>"

definition mem_iter :: "memtable \<Rightarrow> (bytes \<times> entry) list" where
  "mem_iter t = entries t"

definition mem_into_iter :: "memtable \<Rightarrow> (bytes \<times> entry) list" where
  "mem_into_iter t = entries t"

lemmas [eval_simps] = mem_new_def mem_get_def mem_insert_def mem_put_def mem_delete_def
  mem_is_empty_def mem_iter_def mem_len_def mem_contains_key_def mem_clear_def Let_def

section \<open>Invariant\<close>

definition entry_bytes :: "bytes \<times> entry \<Rightarrow> nat" where
  "entry_bytes ke = length (fst ke) + value_len (snd ke)"

definition mem_inv :: "memtable \<Rightarrow> bool" where
  "mem_inv t \<longleftrightarrow> ksorted (entries t) \<and>
     approximate_size t = sum_list (map entry_bytes (entries t))"

lemma entry_bytes_pair [simp]: "entry_bytes (k, e) = length k + value_len e"
  by (simp add: entry_bytes_def)

lemma sum_entry_bytes_insert:
  assumes "ksorted xs"
  shows "sum_list (map entry_bytes (btree_insert k e xs)) =
     (case map_of xs k of
        Some p \<Rightarrow> sum_list (map entry_bytes xs) - value_len p + value_len e
      | None \<Rightarrow> sum_list (map entry_bytes xs) + length k + value_len e)"
  using assms
proof (induction k e xs rule: btree_insert.induct)
  case (1 k e)
  then show ?case by simp
next
  case (2 k e a b xs)
  have none: "map_of xs k = None" if "k \<le> a"
    using that "2.prems" by (force simp: map_of_eq_None_iff)
  have some: "value_len p \<le> sum_list (map entry_bytes xs)" if "map_of xs k = Some p" for p
    using map_of_SomeD [OF that] member_le_sum_list [of "entry_bytes (k, p)" "map entry_bytes xs"]
    by force
  from 2 none some show ?case
    by (auto split: option.splits)
qed

lemma mem_inv_new [simp]: "mem_inv mem_new"
  by (simp add: mem_inv_def mem_new_def)

lemma mem_inv_insert [simp]: "mem_inv t \<Longrightarrow> mem_inv (mem_insert k e t)"
  by (auto simp: mem_inv_def mem_insert_def mem_get_def Let_def sum_entry_bytes_insert
      split: option.splits)

lemma mem_get_insert [simp]: "mem_get (mem_insert k e t) = (mem_get t)(k \<mapsto> e)"
  by (simp add: mem_get_def mem_insert_def Let_def fun_eq_iff)

lemma mem_get_new [simp]: "mem_get mem_new k = None"
  by (simp add: mem_get_def mem_new_def)

lemma mem_inv_clear [simp]: "mem_inv (mem_clear t)"
  by (simp add: mem_inv_def mem_clear_def)

text \<open>The estimate never underflows: the value that is replaced is part of it.\<close>

lemma mem_no_underflow:
  assumes "mem_inv t" and "mem_get t k = Some p"
  shows "value_len p \<le> approximate_size t"
proof -
  have "entry_bytes (k, p) \<le> sum_list (map entry_bytes (entries t))"
    using map_of_SomeD [of "entries t" k p] assms by (force simp: mem_get_def intro: member_le_sum_list)
  then show ?thesis
    using assms by (simp add: mem_inv_def)
qed

section \<open>The contract of a write buffer\<close>

text \<open>
  The engine uses the memtable through these laws: an empty buffer misses everywhere, a write shows
  its entry and leaves the other keys alone, and the entries come out sorted with the same lookups.
\<close>

locale write_buffer =
  fixes new :: 'b
    and ins :: "bytes \<Rightarrow> entry \<Rightarrow> 'b \<Rightarrow> 'b"
    and look :: "'b \<Rightarrow> bytes \<Rightarrow> entry option"
    and items :: "'b \<Rightarrow> (bytes \<times> entry) list"
    and inv :: "'b \<Rightarrow> bool"
  assumes inv_new: "inv new"
    and inv_ins: "inv b \<Longrightarrow> inv (ins k e b)"
    and look_new: "look new k = None"
    and look_ins: "inv b \<Longrightarrow> look (ins k e b) = (look b)(k \<mapsto> e)"
    and items_look: "inv b \<Longrightarrow> ksorted (items b) \<and> map_of (items b) = look b"
begin

lemma inv_fold: "inv b \<Longrightarrow> inv (fold (\<lambda>(k, e). ins k e) ws b)"
  by (induction ws arbitrary: b) (auto simp: inv_ins)

lemma look_fold:
  "inv b \<Longrightarrow> look (fold (\<lambda>(k, e). ins k e) ws b) = look b ++ map_of (rev ws)"
proof (induction ws arbitrary: b)
  case Nil
  then show ?case by simp
next
  case (Cons w ws)
  obtain k e where w: "w = (k, e)" by fastforce
  from Cons show ?case
    by (simp add: w inv_ins look_ins map_add_def fun_eq_iff split: option.splits)
qed

text \<open>Copying a buffer entry by entry into an empty one gives the same lookups.\<close>

lemma look_copy: "inv b \<Longrightarrow> look (fold (\<lambda>(k, e). ins k e) (items b) new) = look b"
proof -
  assume b: "inv b"
  then have "distinct (map fst (items b))" and look: "map_of (items b) = look b"
    using items_look ksorted_distinct by blast+
  then have "map_of (rev (items b)) = look b"
    by (metis map_of_rev_distinct)
  then show ?thesis
    by (simp add: look_fold [OF inv_new] look_new map_add_def fun_eq_iff split: option.splits)
qed

end

interpretation mem: write_buffer mem_new mem_insert mem_get mem_iter mem_inv
  by unfold_locales (simp_all add: mem_iter_def, simp add: mem_inv_def mem_get_def fun_eq_iff)

section \<open>Properties\<close>

fun mem_write :: "bytes \<times> entry \<Rightarrow> memtable \<Rightarrow> memtable" where
  "mem_write (k, Value v) t = mem_put k v t"
| "mem_write (k, Tombstone) t = mem_delete k t"

lemma mem_write_insert: "mem_write = (\<lambda>(k, e). mem_insert k e)"
proof (intro ext)
  fix ke t
  show "mem_write ke t = (case ke of (k, e) \<Rightarrow> mem_insert k e) t"
    by (cases "(ke, t)" rule: mem_write.cases) (simp_all add: mem_put_def mem_delete_def)
qed

text \<open>
  C28: after any sequence of puts and deletes, a lookup returns the last write to the key (a tombstone
  for a delete), iteration lists exactly these entries in strictly increasing key order, and the size
  estimate is the exact number of key and value bytes held.
\<close>

theorem memtable_writes:
  "let t = fold mem_write ws mem_new in
     mem_get t = map_of (rev ws) \<and> sorted_wrt (<) (map fst (mem_iter t)) \<and>
     map_of (mem_iter t) = map_of (rev ws) \<and>
     approximate_size t = sum_list (map (\<lambda>(k, e). length k + value_len e) (mem_iter t))"
proof -
  define t where "t = fold mem_write ws mem_new"
  have inv: "mem_inv t"
    unfolding t_def mem_write_insert by (rule mem.inv_fold) simp
  have get: "mem_get t = map_of (rev ws)"
    unfolding t_def mem_write_insert mem.look_fold [OF mem_inv_new]
    by (simp add: map_add_def fun_eq_iff split: option.splits)
  have "entry_bytes = (\<lambda>(k, e). length k + value_len e)"
    by (simp add: fun_eq_iff)
  then show ?thesis
    using inv get mem.items_look [OF inv]
    by (simp add: t_def [symmetric] Let_def mem_inv_def mem_iter_def)
qed

end
