(* ===== verification/SsTable_Format.thy ===== *)
theory SsTable_Format
  imports Crc MemTable Io
begin

text \<open>
  The on-disk pieces of a sorted table (\<^verbatim>\<open>src/src/sstable.rs\<close>): entries, data blocks and the index.
  Data blocks and the index have the same frame, a 32-bit count, the items, and a CRC32 of both; what
  that frame promises is proved once, in the locale \<open>sealed_format\<close>, and used for the two.

  Before it reads the items the code reserves room for as many as the count says (\<^verbatim>\<open>Vec::with_capacity(count)\<close>). A
  32-bit count cannot overflow the size of the vector, so this does not panic; that the memory may not be there is not
  modelled.
\<close>

section \<open>The code\<close>

definition MAGIC :: u32 where
  "MAGIC = 0x4C534D31"

definition FOOTER_LEN :: nat where
  "FOOTER_LEN = 48"

definition FORMAT_VERSION :: u32 where
  "FORMAT_VERSION = 1"

definition TYPE_VALUE :: u8 where
  "TYPE_VALUE = 1"

definition TYPE_TOMBSTONE :: u8 where
  "TYPE_TOMBSTONE = 2"

record index_entry =
  first_key :: bytes
  last_key :: bytes
  ie_offset :: u64
  ie_length :: u32

text \<open>\<^verbatim>\<open>encode_entry\<close> appends to a buffer.\<close>

fun encode_entry :: "bytes \<Rightarrow> bytes \<Rightarrow> entry \<Rightarrow> bytes" where
  "encode_entry buf key (Value v) =
     buf @ [TYPE_VALUE] @ u32_le (as_u32 (length key)) @ u32_le (as_u32 (length v)) @ key @ v"
| "encode_entry buf key Tombstone =
     buf @ [TYPE_TOMBSTONE] @ u32_le (as_u32 (length key)) @ u32_le 0 @ key"

text \<open>\<^verbatim>\<open>flush_data_block\<close> writes the block to the file and returns its length as a \<^verbatim>\<open>u32\<close>.\<close>

definition flush_data_block :: "string \<Rightarrow> bytes \<Rightarrow> u32 \<Rightarrow> world \<Rightarrow> u32 result \<times> world" where
  "flush_data_block path body count w =
     (let block = u32_le count @ body;
          checksum = crc32 block;
          block = block @ u32_le checksum
      in (Ok (as_u32 (length block)), file_append path block w))"

text \<open>The loop of \<^verbatim>\<open>read_data_block\<close> over the \<open>count\<close> entries of a block.\<close>

primrec read_entries :: "nat \<Rightarrow> bytes \<Rightarrow> (bytes \<times> entry) list result" where
  "read_entries 0 rest = Ok []"
| "read_entries (Suc n) rest =
     (if rest = [] then Err CorruptedRecord else
      and_then (index rest 0) (\<lambda>kind.
      if length rest < 9 then Err CorruptedRecord else
      and_then (read_u32_at 1 5 rest) (\<lambda>key_len.
      and_then (read_u32_at 5 9 rest) (\<lambda>value_len.
      and_then (slice_from 9 rest) (\<lambda>rest.
      if length rest < unat key_len + unat value_len then Err CorruptedRecord else
      and_then (slice 0 (unat key_len) rest) (\<lambda>key.
      and_then (slice_from (unat key_len) rest) (\<lambda>rest.
      if kind = TYPE_VALUE then
        and_then (slice 0 (unat value_len) rest) (\<lambda>v.
        and_then (slice_from (unat value_len) rest) (\<lambda>rest.
        and_then (read_entries n rest) (\<lambda>out. Ok ((key, Value v) # out))))
      else if kind = TYPE_TOMBSTONE then
        and_then (slice_from (unat value_len) rest) (\<lambda>rest.
        and_then (read_entries n rest) (\<lambda>out. Ok ((key, Tombstone) # out)))
      else Err CorruptedRecord)))))))"

definition decode_block :: "bytes \<Rightarrow> (bytes \<times> entry) list result" where
  "decode_block bs =
     (if length bs < 8 then Err CorruptedRecord else
      and_then (slice_from (length bs - 4) bs) (\<lambda>trailer.
      and_then (read_u32_le trailer) (\<lambda>checksum.
      and_then (slice 0 (length bs - 4) bs) (\<lambda>body.
      if crc32 body \<noteq> checksum then Err InvalidChecksum else
      and_then (read_u32_at 0 4 body) (\<lambda>count.
      and_then (slice_from 4 body) (\<lambda>rest.
      read_entries (unat count) rest))))))"

definition read_data_block :: "string \<Rightarrow> u64 \<Rightarrow> u32 \<Rightarrow> world \<Rightarrow> (bytes \<times> entry) list result" where
  "read_data_block path offset len w =
     and_then (read_exact_at path (unat offset) (unat len) w) decode_block"

definition encode_index_entry :: "index_entry \<Rightarrow> bytes" where
  "encode_index_entry e =
     u32_le (as_u32 (length (first_key e))) @ first_key e @
     u32_le (as_u32 (length (last_key e))) @ last_key e @
     u64_le (ie_offset e) @ u32_le (ie_length e)"

definition encode_index :: "index_entry list \<Rightarrow> bytes" where
  "encode_index idx =
     (let buf = u32_le (as_u32 (length idx)) @ concat (map encode_index_entry idx);
          checksum = crc32 buf
      in buf @ u32_le checksum)"

primrec read_index_entries :: "nat \<Rightarrow> bytes \<Rightarrow> index_entry list result" where
  "read_index_entries 0 rest = Ok []"
| "read_index_entries (Suc n) rest =
     (if length rest < 4 then Err CorruptedRecord else
      and_then (read_u32_at 0 4 rest) (\<lambda>first_len.
      and_then (slice_from 4 rest) (\<lambda>rest.
      if length rest < unat first_len + 4 then Err CorruptedRecord else
      and_then (slice 0 (unat first_len) rest) (\<lambda>first.
      and_then (slice_from (unat first_len) rest) (\<lambda>rest.
      and_then (read_u32_at 0 4 rest) (\<lambda>last_len.
      and_then (slice_from 4 rest) (\<lambda>rest.
      if length rest < unat last_len + 12 then Err CorruptedRecord else
      and_then (slice 0 (unat last_len) rest) (\<lambda>last.
      and_then (slice_from (unat last_len) rest) (\<lambda>rest.
      and_then (read_u64_at 0 8 rest) (\<lambda>offset.
      and_then (read_u32_at 8 12 rest) (\<lambda>len.
      and_then (slice_from 12 rest) (\<lambda>rest.
      and_then (read_index_entries n rest) (\<lambda>idx.
      Ok (\<lparr>first_key = first, last_key = last, ie_offset = offset, ie_length = len\<rparr> # idx))))))))))))))"

definition decode_index :: "bytes \<Rightarrow> index_entry list result" where
  "decode_index bs =
     (if length bs < 8 then Err CorruptedRecord else
      and_then (slice_from (length bs - 4) bs) (\<lambda>trailer.
      and_then (read_u32_le trailer) (\<lambda>checksum.
      and_then (slice 0 (length bs - 4) bs) (\<lambda>body.
      if crc32 body \<noteq> checksum then Err InvalidChecksum else
      and_then (read_u32_at 0 4 body) (\<lambda>count.
      and_then (slice_from 4 body) (\<lambda>rest.
      read_index_entries (unat count) rest))))))"

lemmas sst_consts = MAGIC_def FOOTER_LEN_def FORMAT_VERSION_def TYPE_VALUE_def TYPE_TOMBSTONE_def

section \<open>The frame of blocks and index\<close>

locale sealed_format =
  fixes enc :: "'r \<Rightarrow> bytes"
    and valid :: "'r \<Rightarrow> bool"
    and read_items :: "nat \<Rightarrow> bytes \<Rightarrow> 'r list result"
    and unseal :: "bytes \<Rightarrow> 'r list result"
  assumes read_zero: "read_items 0 rest = Ok []"
    and read_item: "valid r \<Longrightarrow>
          read_items (Suc n) (enc r @ rest) = and_then (read_items n rest) (\<lambda>rs. Ok (r # rs))"
    and read_not_Panic: "read_items n rest \<noteq> Panic"
    and unseal_def: "unseal bs =
          (if length bs < 8 then Err CorruptedRecord else
           and_then (slice_from (length bs - 4) bs) (\<lambda>trailer.
           and_then (read_u32_le trailer) (\<lambda>checksum.
           and_then (slice 0 (length bs - 4) bs) (\<lambda>body.
           if crc32 body \<noteq> checksum then Err InvalidChecksum else
           and_then (read_u32_at 0 4 body) (\<lambda>count.
           and_then (slice_from 4 body) (\<lambda>rest.
           read_items (unat count) rest))))))"
begin

definition sealed :: "'r list \<Rightarrow> bytes" where
  "sealed rs = (let body = u32_le (as_u32 (length rs)) @ concat (map enc rs) in body @ u32_le (crc32 body))"

lemma length_sealed: "length (sealed rs) = 8 + length (concat (map enc rs))"
  by (simp add: sealed_def Let_def)

lemma read_all: "list_all valid rs \<Longrightarrow> read_items (length rs) (concat (map enc rs)) = Ok rs"
  by (induction rs) (simp_all add: read_zero read_item)

lemma unseal_eq:
  "unseal bs =
     (if length bs < 8 then Err CorruptedRecord
      else if \<not> crc.trailer_ok bs then Err InvalidChecksum
      else read_items (unat (from_le (take 4 bs) :: u32)) (drop 4 (take (length bs - 4) bs)))"
proof (cases "length bs < 8")
  case False
  let ?n = "length bs - 4"
  have len: "4 \<le> length (take ?n bs)" "take 4 (drop 0 (take ?n bs)) = take 4 bs"
    using False by (simp_all add: min_absorb1 min_absorb2)
  have "slice_from ?n bs = Ok (drop ?n bs)" "read_u32_le (drop ?n bs) = Ok (from_le (drop ?n bs))"
    "slice 0 ?n bs = Ok (take ?n bs)"
    using False by (simp_all add: result_simps read_u32_le_def)
  moreover have "read_u32_at 0 4 (take ?n bs) = Ok (from_le (take 4 bs))"
    "slice_from 4 (take ?n bs) = Ok (drop 4 (take ?n bs))"
    using read_u32_at_Ok [of 4 0 "take ?n bs"] slice_from_Ok [OF len(1)] len by simp_all
  ultimately show ?thesis
    using False
    by (auto simp: unseal_def crc.trailer_ok_def)
qed (simp add: unseal_def)

lemma unseal_sealed:
  assumes "list_all valid rs" and "length rs < 2 ^ 32"
  shows "unseal (sealed rs) = Ok rs"
proof -
  let ?body = "u32_le (as_u32 (length rs)) @ concat (map enc rs)"
  have s: "sealed rs = ?body @ u32_le (crc32 ?body)"
    by (simp add: sealed_def Let_def)
  have "crc.trailer_ok (sealed rs)" and "take 4 (sealed rs) = u32_le (as_u32 (length rs))"
    and "drop 4 (take (length (sealed rs) - 4) (sealed rs)) = concat (map enc rs)"
    by (simp_all add: s crc.trailer_ok_trailer del: append_assoc)
  moreover have "\<not> length (sealed rs) < 8"
    by (simp add: length_sealed)
  ultimately show ?thesis
    using assms by (simp only: unseal_eq from_le_u32_le unat_as_u32 read_all) simp
qed

lemma unseal_detects:
  assumes "i < length (sealed rs)" and "b \<noteq> sealed rs ! i"
  shows "unseal ((sealed rs)[i := b]) = Err InvalidChecksum"
proof -
  have "crc.trailer_ok (sealed rs)"
    by (simp add: sealed_def Let_def crc.trailer_ok_trailer del: append_assoc)
  then have "\<not> crc.trailer_ok ((sealed rs)[i := b])"
    using assms by (rule crc.trailer_detects)
  then show ?thesis
    by (simp add: unseal_eq length_sealed)
qed

lemma unseal_not_Panic: "unseal bs \<noteq> Panic"
  by (simp add: unseal_eq read_not_Panic)

end

section \<open>Data blocks\<close>

abbreviation entry_enc :: "bytes \<times> entry \<Rightarrow> bytes" where
  "entry_enc ke \<equiv> encode_entry [] (fst ke) (snd ke)"

definition entry_fits :: "bytes \<times> entry \<Rightarrow> bool" where
  "entry_fits ke \<longleftrightarrow> length (fst ke) < 2 ^ 32 \<and> value_len (snd ke) < 2 ^ 32"

lemma encode_entry_append: "encode_entry buf key e = buf @ encode_entry [] key e"
  by (cases e) simp_all

text \<open>One round of the loop, without the slices: they are all in range.\<close>

definition entry_kl :: "bytes \<Rightarrow> nat" where
  "entry_kl rest = unat (from_le (take 4 (drop 1 rest)) :: u32)"

definition entry_vl :: "bytes \<Rightarrow> nat" where
  "entry_vl rest = unat (from_le (take 4 (drop 5 rest)) :: u32)"

lemma read_entries_Suc:
  "read_entries (Suc n) rest =
     (if length rest < 9 + (entry_kl rest + entry_vl rest) then Err CorruptedRecord
      else let key = take (entry_kl rest) (drop 9 rest); tail = drop (9 + entry_kl rest) rest;
               next_rest = drop (entry_vl rest) tail in
        if rest ! 0 = TYPE_VALUE
        then and_then (read_entries n next_rest) (\<lambda>out. Ok ((key, Value (take (entry_vl rest) tail)) # out))
        else if rest ! 0 = TYPE_TOMBSTONE
        then and_then (read_entries n next_rest) (\<lambda>out. Ok ((key, Tombstone) # out))
        else Err CorruptedRecord)"
proof (cases "length rest < 9")
  case True
  then show ?thesis
    by (simp add: index_def)
next
  case False
  then have ne: "rest \<noteq> []" by auto
  have r: "index rest 0 = Ok (rest ! 0)" "read_u32_at 1 5 rest = Ok (from_le (take 4 (drop 1 rest)))"
    "read_u32_at 5 9 rest = Ok (from_le (take 4 (drop 5 rest)))" "slice_from 9 rest = Ok (drop 9 rest)"
    using False ne by (simp_all add: result_simps)
  show ?thesis
    unfolding read_entries.simps(2) r and_then.simps entry_kl_def [symmetric] entry_vl_def [symmetric]
    using False ne by (auto simp: slice_def slice_from_def Let_def add.commute)
qed

lemma read_entries_not_Panic: "read_entries n rest \<noteq> Panic"
  by (induction n arbitrary: rest)
    (auto simp: read_entries_Suc and_then_eq_Panic Let_def simp del: read_entries.simps(2))

lemma read_entries_enc:
  assumes "entry_fits ke"
  shows "read_entries (Suc n) (entry_enc ke @ rest) = and_then (read_entries n rest) (\<lambda>out. Ok (ke # out))"
proof -
  obtain k e where ke: "ke = (k, e)" by fastforce
  then have fits: "unat (as_u32 (length k)) = length k" "unat (as_u32 (value_len e)) = value_len e"
    using assms by (simp_all only: entry_fits_def fst_conv snd_conv unat_as_u32)
  show ?thesis
  proof (cases e)
    case (Value v)
    let ?r = "entry_enc ke @ rest"
    have "entry_kl ?r = length k" "entry_vl ?r = length v" "?r ! 0 = TYPE_VALUE"
      "drop 9 ?r = k @ v @ rest"
      using fits by (simp_all add: ke Value entry_kl_def entry_vl_def)
    moreover have "length ?r = 9 + (length k + length v) + length rest"
      by (simp add: ke Value)
    ultimately show ?thesis
      by (simp add: read_entries_Suc ke Value add.commute flip: drop_drop del: read_entries.simps encode_entry.simps)
  next
    case Tombstone
    let ?r = "entry_enc ke @ rest"
    have "entry_kl ?r = length k" "entry_vl ?r = 0" "?r ! 0 = TYPE_TOMBSTONE"
      "drop 9 ?r = k @ rest"
      using fits by (simp_all add: ke Tombstone entry_kl_def entry_vl_def)
    moreover have "length ?r = 9 + length k + length rest"
      by (simp add: ke Tombstone)
    ultimately show ?thesis
      by (simp add: read_entries_Suc ke Tombstone sst_consts add.commute flip: drop_drop del: read_entries.simps encode_entry.simps)
  qed
qed

interpretation block: sealed_format entry_enc entry_fits read_entries decode_block
  by unfold_locales
    (simp_all add: read_entries_enc read_entries_not_Panic decode_block_def del: read_entries.simps(2))

lemma flush_data_block_eq:
  "flush_data_block path (concat (map entry_enc es)) (as_u32 (length es)) w =
     (Ok (as_u32 (length (block.sealed es))), file_append path (block.sealed es) w)"
  by (simp add: flush_data_block_def block.sealed_def Let_def)

section \<open>The index\<close>

definition index_entry_fits :: "index_entry \<Rightarrow> bool" where
  "index_entry_fits e \<longleftrightarrow> length (first_key e) < 2 ^ 32 \<and> length (last_key e) < 2 ^ 32"

definition head_len :: "bytes \<Rightarrow> nat" where
  "head_len rest = unat (from_le (take 4 rest) :: u32)"

lemma read_index_entries_Suc:
  "read_index_entries (Suc n) rest =
     (if length rest < 4 then Err CorruptedRecord else
      if length rest < 4 + (head_len rest + 4) then Err CorruptedRecord else
      let first = take (head_len rest) (drop 4 rest); rest = drop (head_len rest) (drop 4 rest) in
      if length rest < 4 + (head_len rest + 12) then Err CorruptedRecord else
      let last = take (head_len rest) (drop 4 rest); rest = drop (head_len rest) (drop 4 rest) in
      and_then (read_index_entries n (drop 12 rest)) (\<lambda>idx.
        Ok (\<lparr>first_key = first, last_key = last, ie_offset = from_le (take 8 rest),
             ie_length = from_le (take 4 (drop 8 rest))\<rparr> # idx)))"
proof (cases "length rest < 4 + (head_len rest + 4)")
  case True
  then show ?thesis
    by (cases "length rest < 4") (auto simp: result_simps head_len_def [symmetric])
next
  case False
  let ?r1 = "drop (head_len rest) (drop 4 rest)"
  let ?r2 = "drop (head_len ?r1) (drop 4 ?r1)"
  have r: "read_u32_at 0 4 rest = Ok (from_le (take 4 rest))" "slice_from 4 rest = Ok (drop 4 rest)"
    "slice 0 (head_len rest) (drop 4 rest) = Ok (take (head_len rest) (drop 4 rest))"
    "slice_from (head_len rest) (drop 4 rest) = Ok ?r1"
    "read_u32_at 0 4 ?r1 = Ok (from_le (take 4 ?r1))" "slice_from 4 ?r1 = Ok (drop 4 ?r1)"
    using False by (simp_all add: result_simps del: drop_drop)
  have r2: "slice 0 (head_len ?r1) (drop 4 ?r1) = Ok (take (head_len ?r1) (drop 4 ?r1))"
    "slice_from (head_len ?r1) (drop 4 ?r1) = Ok ?r2"
    "read_u64_at 0 8 ?r2 = Ok (from_le (take 8 ?r2))"
    "read_u32_at 8 12 ?r2 = Ok (from_le (take 4 (drop 8 ?r2)))" "slice_from 12 ?r2 = Ok (drop 12 ?r2)"
    if "\<not> length ?r1 < 4 + (head_len ?r1 + 12)"
    using that by (simp_all add: result_simps del: drop_drop)
  have "\<not> length rest < 4" "\<not> length (drop 4 rest) < head_len rest + 4"
    "length (drop 4 ?r1) < head_len ?r1 + 12 \<longleftrightarrow> length ?r1 < 4 + (head_len ?r1 + 12)"
    using False by auto
  then show ?thesis
    unfolding read_index_entries.simps(2) r and_then.simps head_len_def [symmetric] Let_def
    using False by (simp add: r2 del: drop_drop)
qed

lemma read_index_entries_not_Panic: "read_index_entries n rest \<noteq> Panic"
  by (induction n arbitrary: rest)
    (auto simp: read_index_entries_Suc and_then_eq_Panic Let_def simp del: read_index_entries.simps(2))

lemma read_index_entries_enc:
  assumes "index_entry_fits e"
  shows "read_index_entries (Suc n) (encode_index_entry e @ rest) =
    and_then (read_index_entries n rest) (\<lambda>idx. Ok (e # idx))"
proof -
  let ?r1 = "u32_le (as_u32 (length (last_key e))) @ last_key e @ u64_le (ie_offset e) @
    u32_le (ie_length e) @ rest"
  let ?r2 = "u64_le (ie_offset e) @ u32_le (ie_length e) @ rest"
  let ?r = "encode_index_entry e @ rest"
  have fits: "unat (as_u32 (length (first_key e))) = length (first_key e)"
    "unat (as_u32 (length (last_key e))) = length (last_key e)"
    using assms by (simp_all only: index_entry_fits_def unat_as_u32)
  have h: "head_len ?r = length (first_key e)" "head_len ?r1 = length (last_key e)"
    using fits by (simp_all add: head_len_def encode_index_entry_def)
  have d: "drop 4 ?r = first_key e @ ?r1" "drop 4 ?r1 = last_key e @ ?r2"
    and len: "\<not> length ?r < 4 + (length (first_key e) + 4)" "\<not> length ?r1 < 4 + (length (last_key e) + 12)"
    "\<not> length ?r < 4"
    by (simp_all add: encode_index_entry_def)
  have d1: "take (length (first_key e)) (first_key e @ ?r1) = first_key e"
    "drop (length (first_key e)) (first_key e @ ?r1) = ?r1"
    "take (length (last_key e)) (last_key e @ ?r2) = last_key e"
    "drop (length (last_key e)) (last_key e @ ?r2) = ?r2"
    by simp_all
  have e: "\<lparr>first_key = first_key e, last_key = last_key e, ie_offset = ie_offset e, ie_length = ie_length e\<rparr> = e"
    by simp
  show ?thesis
    unfolding read_index_entries_Suc Let_def h d d1 if_not_P [OF len(1)] if_not_P [OF len(2)] if_not_P [OF len(3)]
    by (simp add: e del: index_entry.surjective)
qed

interpretation index: sealed_format encode_index_entry index_entry_fits read_index_entries decode_index
  by unfold_locales
    (simp_all add: read_index_entries_enc read_index_entries_not_Panic decode_index_def
      del: read_index_entries.simps(2))

lemma encode_index_eq: "encode_index idx = index.sealed idx"
  by (simp add: encode_index_def index.sealed_def Let_def)

end
