(* ===== verification/Binary_Search.thy ===== *)
theory Binary_Search
  imports Main
begin

text \<open>
  \<^verbatim>\<open>slice::binary_search_by\<close> of the Rust standard library, with the size-halving loop of its
  implementation. The table reader uses it twice, to find the block of a key in the index and to find
  the key in the block. Its documented precondition is that the comparison is sorted along the slice;
  \<open>searchable\<close> names it, and the two users establish it.
\<close>

datatype ordering = Less | Equal | Greater

text \<open>\<^verbatim>\<open>Ord::cmp\<close>.\<close>

definition cmp :: "'a::linorder \<Rightarrow> 'a \<Rightarrow> ordering" where
  "cmp a b = (if a < b then Less else if a = b then Equal else Greater)"

text \<open>The loop: the candidates are the \<open>n\<close> positions from \<open>base\<close> on.\<close>

function bsearch_loop :: "('a \<Rightarrow> ordering) \<Rightarrow> 'a list \<Rightarrow> nat \<Rightarrow> nat \<Rightarrow> nat" where
  "bsearch_loop f xs base n =
     (if n > 1 then
        let half = n div 2; mid = base + half;
            base' = (if f (xs ! mid) = Greater then base else mid)
        in bsearch_loop f xs base' (n - half)
      else base)"
  by pat_completeness auto

termination
  by (relation "measure (\<lambda>(f, xs, base, n). n)") auto

declare bsearch_loop.simps [simp del]

text \<open>\<^verbatim>\<open>binary_search_by(f).ok()\<close>.\<close>

definition binary_search_by :: "('a \<Rightarrow> ordering) \<Rightarrow> 'a list \<Rightarrow> nat option" where
  "binary_search_by f xs =
     (if length xs = 0 then None
      else let base = bsearch_loop f xs 0 (length xs) in
        if f (xs ! base) = Equal then Some base else None)"

text \<open>The precondition: first the smaller elements, then the matches, then the greater ones.\<close>

definition searchable :: "('a \<Rightarrow> ordering) \<Rightarrow> 'a list \<Rightarrow> bool" where
  "searchable f xs \<longleftrightarrow>
     (\<forall>i j. i < j \<longrightarrow> j < length xs \<longrightarrow>
        (f (xs ! j) = Less \<longrightarrow> f (xs ! i) = Less) \<and> (f (xs ! i) = Greater \<longrightarrow> f (xs ! j) = Greater))"

lemma less_before:
  "searchable f xs \<Longrightarrow> i < j \<Longrightarrow> j < length xs \<Longrightarrow> f (xs ! j) = Less \<Longrightarrow> f (xs ! i) = Less"
  by (simp add: searchable_def)

lemma greater_after:
  "searchable f xs \<Longrightarrow> i < j \<Longrightarrow> j < length xs \<Longrightarrow> f (xs ! i) = Greater \<Longrightarrow> f (xs ! j) = Greater"
  by (simp add: searchable_def)

lemma loop_finds:
  assumes search: "searchable f xs" and "1 \<le> n" and "base + n \<le> length xs"
  shows "bsearch_loop f xs base n < base + n \<and>
    ((\<exists>i. base \<le> i \<and> i < base + n \<and> f (xs ! i) = Equal) \<longrightarrow> f (xs ! bsearch_loop f xs base n) = Equal)"
  using assms(2,3)
proof (induction n arbitrary: base rule: less_induct)
  case (less n)
  show ?case
  proof (cases "n > 1")
    case False
    then show ?thesis
      using less.prems by (auto simp: bsearch_loop.simps [of f xs base n] le_less_Suc_eq)
  next
    case True
    define mid where "mid = base + n div 2"
    define b where "b = (if f (xs ! mid) = Greater then base else mid)"
    have step: "bsearch_loop f xs base n = bsearch_loop f xs b (n - n div 2)"
      using True by (simp add: bsearch_loop.simps [of f xs base n] Let_def b_def mid_def)
    have mid: "base < mid" "mid < base + n" "mid < length xs"
      using True less.prems by (auto simp: mid_def)
    have inside: "base \<le> b" "b + (n - n div 2) \<le> base + n"
      by (auto simp: b_def mid_def)
    have IH: "bsearch_loop f xs b (n - n div 2) < b + (n - n div 2)"
      "(\<exists>i. b \<le> i \<and> i < b + (n - n div 2) \<and> f (xs ! i) = Equal) \<longrightarrow>
        f (xs ! bsearch_loop f xs b (n - n div 2)) = Equal"
      using less.IH [of "n - n div 2" b] True inside less.prems by auto
    have keep: "\<exists>i. b \<le> i \<and> i < b + (n - n div 2) \<and> f (xs ! i) = Equal"
      if i: "base \<le> i" "i < base + n" "f (xs ! i) = Equal" for i
    proof (cases "f (xs ! mid)")
      case Greater
      then have "i < mid"
        using i mid greater_after [OF search, of mid i] less.prems(2)
        by (metis linorder_neqE_nat ordering.distinct(5) order_less_le_trans)
      then show ?thesis
        using i Greater by (intro exI [of _ i]) (auto simp: b_def mid_def)
    next
      case Equal
      then show ?thesis
        using True by (intro exI [of _ mid]) (auto simp: b_def)
    next
      case Less
      then have "mid < i"
        using i mid less_before [OF search, of i mid] less.prems(2)
        by (metis linorder_neqE_nat ordering.distinct(1))
      then show ?thesis
        using i Less by (intro exI [of _ i]) (auto simp: b_def mid_def)
    qed
    with IH inside show ?thesis
      unfolding step by (metis (no_types, lifting) order_less_le_trans)
  qed
qed

text \<open>The search finds a match whenever there is one.\<close>

lemma search_Some:
  assumes "searchable f xs" and "binary_search_by f xs = Some i"
  shows "i < length xs \<and> f (xs ! i) = Equal"
  using assms(2-) loop_finds [OF assms(1), of "length xs" 0]
  by (cases xs) (auto simp: binary_search_by_def Let_def split: if_splits)

lemma search_None:
  assumes "searchable f xs" and "binary_search_by f xs = None" and "i < length xs"
  shows "f (xs ! i) \<noteq> Equal"
  using assms(2-) loop_finds [OF assms(1), of "length xs" 0]
  by (cases xs) (auto simp: binary_search_by_def Let_def split: if_splits)

text \<open>A sorted list is searchable for each of its keys.\<close>

lemma searchable_sorted:
  assumes "sorted_wrt (<) (map fst xs)"
  shows "searchable (\<lambda>(k, _). cmp k key) xs"
  unfolding searchable_def
proof (intro allI impI conjI)
  fix i j
  assume "i < j" and "j < length xs"
  then have "fst (xs ! i) < fst (xs ! j)"
    using sorted_wrt_nth_less [OF assms, of i j] by simp
  then show "(case xs ! j of (k, _) \<Rightarrow> cmp k key) = Less \<Longrightarrow> (case xs ! i of (k, _) \<Rightarrow> cmp k key) = Less"
    and "(case xs ! i of (k, _) \<Rightarrow> cmp k key) = Greater \<Longrightarrow> (case xs ! j of (k, _) \<Rightarrow> cmp k key) = Greater"
    by (auto simp: cmp_def split: prod.splits if_splits)
qed

end
