(* ===== verification/Bloom.thy ===== *)
theory Bloom
  imports Complex_Main Crc
begin

text \<open>
  The per-table Bloom filter (\<^verbatim>\<open>src/src/bloom.rs\<close>): hashing, insertion, membership, and its on-disk
  form. What a reader relies on is a locale: a key that was inserted is never reported absent, and
  later insertions keep it so.

  The sizing formula of \<^verbatim>\<open>BloomFilter::new\<close> is evaluated in floating point through the platform's
  logarithm. Its two rounded results are parameters of the model (\<open>raw_bit_count\<close> and
  \<open>raw_hash_count\<close>); the bounds the code then puts on them are part of it. No theorem needs more of
  the parameters than that the filter fits into the 32-bit length field of its encoding.
\<close>

section \<open>The code\<close>

record bloom =
  bits :: bytes
  hash_count :: u32

record f64_math =
  raw_bit_count :: "nat \<Rightarrow> rat \<Rightarrow> nat"
  raw_hash_count :: "nat \<Rightarrow> nat \<Rightarrow> nat"

definition bloom_new :: "f64_math \<Rightarrow> nat \<Rightarrow> rat \<Rightarrow> bloom" where
  "bloom_new fl expected_items false_positive_rate =
     (let n = max expected_items 1;
          p = min (max false_positive_rate (1 / 10000)) (1 / 2);
          bit_count = max (raw_bit_count fl n p) 64;
          hashes = min (max (raw_hash_count fl bit_count n) 1) 16;
          byte_count = (bit_count + 7) div 8
      in \<lparr>bits = replicate byte_count 0, hash_count = word_of_nat hashes\<rparr>)"

definition bloom_empty :: bloom where
  "bloom_empty = \<lparr>bits = replicate 8 0, hash_count = 1\<rparr>"

definition fnv1a_64 :: "bytes \<Rightarrow> u64" where
  "fnv1a_64 bs = foldl (\<lambda>hash byte. (hash XOR ucast byte) * 0x100000001b3) 0xcbf29ce484222325 bs"

definition splitmix :: "u64 \<Rightarrow> u64" where
  "splitmix x =
     (let x = x + 0x9E3779B97F4A7C15;
          z = x;
          z = (z XOR drop_bit 30 z) * 0xBF58476D1CE4E5B9;
          z = (z XOR drop_bit 27 z) * 0x94D049BB133111EB
      in z XOR drop_bit 31 z)"

definition hash_pair :: "bytes \<Rightarrow> u64 \<times> u64" where
  "hash_pair key = (fnv1a_64 key, splitmix (fnv1a_64 key XOR 0x9E3779B97F4A7C15))"

text \<open>The bit a hash function selects: \<^verbatim>\<open>h1.wrapping_add(i.wrapping_mul(h2)) as usize % bit_count\<close>.\<close>

definition bloom_idx :: "bytes \<Rightarrow> nat \<Rightarrow> nat \<Rightarrow> nat" where
  "bloom_idx key bit_count i =
     (case hash_pair key of (h1, h2) \<Rightarrow> unat (h1 + word_of_nat i * h2) mod bit_count)"

definition set_bit_at :: "nat \<Rightarrow> bytes \<Rightarrow> bytes" where
  "set_bit_at idx bs = bs[idx div 8 := bs ! (idx div 8) OR push_bit (idx mod 8) 1]"

definition test_bit_at :: "nat \<Rightarrow> bytes \<Rightarrow> bool" where
  "test_bit_at idx bs \<longleftrightarrow> bs ! (idx div 8) AND push_bit (idx mod 8) 1 \<noteq> 0"

text \<open>With no bits the remainder panics, before the loop body touches the filter.\<close>

definition bloom_insert :: "bytes \<Rightarrow> bloom \<Rightarrow> bloom result" where
  "bloom_insert key f =
     (let bit_count = length (bits f) * 8 in
      if bit_count = 0 \<and> hash_count f \<noteq> 0 then Panic
      else Ok (f\<lparr>bits := fold (\<lambda>i. set_bit_at (bloom_idx key bit_count i))
                            [0..<unat (hash_count f)] (bits f)\<rparr>))"

definition might_contain :: "bloom \<Rightarrow> bytes \<Rightarrow> bool" where
  "might_contain f key \<longleftrightarrow>
     (if bits f = [] then False
      else let bit_count = length (bits f) * 8 in
           list_all (\<lambda>i. test_bit_at (bloom_idx key bit_count i) (bits f)) [0..<unat (hash_count f)])"

definition bloom_encode :: "bloom \<Rightarrow> bytes" where
  "bloom_encode f =
     (let out = u32_le (hash_count f) @ u32_le (as_u32 (length (bits f))) @ bits f;
          checksum = crc32 out
      in out @ u32_le checksum)"

definition bloom_decode :: "bytes \<Rightarrow> bloom result" where
  "bloom_decode bs =
     (if length bs < 12 then Err CorruptedRecord else
      and_then (read_u32_at 0 4 bs) (\<lambda>hashes.
      and_then (read_u32_at 4 8 bs) (\<lambda>bit_len32.
      let bit_len = unat bit_len32 in
      if hashes = 0 \<or> hashes > 16 then Err CorruptedRecord else
      let expected = 8 + bit_len + 4 in
      if length bs \<noteq> expected then Err CorruptedRecord else
      and_then (slice 0 (8 + bit_len) bs) (\<lambda>body.
      and_then (slice_from (8 + bit_len) bs) (\<lambda>tail.
      and_then (read_u32_le tail) (\<lambda>checksum.
      if crc32 body \<noteq> checksum then Err InvalidChecksum else
      and_then (slice 8 (8 + bit_len) bs) (\<lambda>bs'.
      Ok \<lparr>bits = bs', hash_count = hashes\<rparr>)))))))"

text \<open>The loop of \<^verbatim>\<open>SsTable::create\<close> that inserts every key of the table.\<close>

fun bloom_insert_all :: "bytes list \<Rightarrow> bloom \<Rightarrow> bloom result" where
  "bloom_insert_all [] f = Ok f"
| "bloom_insert_all (key # keys) f = and_then (bloom_insert key f) (bloom_insert_all keys)"

lemmas [eval_simps] = bloom_new_def bloom_empty_def fnv1a_64_def splitmix_def hash_pair_def
  bloom_idx_def set_bit_at_def test_bit_at_def bloom_insert_def might_contain_def bloom_encode_def
  bloom_decode_def

section \<open>What a membership filter promises\<close>

locale membership_filter =
  fixes ins :: "bytes \<Rightarrow> 'f \<Rightarrow> 'f result"
    and ins_all :: "bytes list \<Rightarrow> 'f \<Rightarrow> 'f result"
    and may_have :: "'f \<Rightarrow> bytes \<Rightarrow> bool"
    and inv :: "'f \<Rightarrow> bool"
  assumes ins_Ok: "inv f \<Longrightarrow> \<exists>f'. ins k f = Ok f' \<and> inv f' \<and> may_have f' k"
    and ins_mono: "inv f \<Longrightarrow> ins k f = Ok f' \<Longrightarrow> may_have f l \<Longrightarrow> may_have f' l"
    and ins_all_Nil: "ins_all [] f = Ok f"
    and ins_all_Cons: "ins_all (k # ks) f = and_then (ins k f) (ins_all ks)"
begin

lemma ins_all_mono:
  "inv f \<Longrightarrow> ins_all ks f = Ok f' \<Longrightarrow> may_have f l \<Longrightarrow> may_have f' l"
proof (induction ks arbitrary: f)
  case Nil
  then show ?case by (simp add: ins_all_Nil)
next
  case (Cons k ks)
  obtain f1 where "ins k f = Ok f1" "inv f1" using ins_Ok Cons.prems(1) by blast
  with Cons ins_mono show ?case by (auto simp: ins_all_Cons)
qed

text \<open>No false negatives: after any number of insertions every inserted key may be present.\<close>

lemma no_false_negatives:
  "inv f \<Longrightarrow> \<exists>f'. ins_all ks f = Ok f' \<and> inv f' \<and> (\<forall>k\<in>set ks. may_have f' k)"
proof (induction ks arbitrary: f)
  case Nil
  then show ?case by (simp add: ins_all_Nil)
next
  case (Cons k ks)
  obtain f1 where f1: "ins k f = Ok f1" "inv f1" "may_have f1 k"
    using ins_Ok Cons.prems by blast
  then obtain f' where f': "ins_all ks f1 = Ok f'" "inv f'" "\<forall>k\<in>set ks. may_have f' k"
    using Cons.IH by blast
  then have "may_have f' k" using ins_all_mono f1 by blast
  with f1 f' show ?case by (auto simp: ins_all_Cons)
qed

end

section \<open>The Bloom filter is a membership filter\<close>

lemma length_set_bit_at [simp]: "length (set_bit_at idx bs) = length bs"
  by (simp add: set_bit_at_def)

lemma bit_push_bit_one: "bit (push_bit (m mod 8) (1 :: u8)) n \<longleftrightarrow> n = m mod 8"
  by (auto simp: bit_exp_iff)

lemma test_bit_at_iff: "test_bit_at idx bs \<longleftrightarrow> bit (bs ! (idx div 8)) (idx mod 8)"
proof -
  have "(x AND push_bit (idx mod 8) 1 \<noteq> 0) = bit x (idx mod 8)" for x :: u8
    using bit_eq_iff [of "x AND push_bit (idx mod 8) 1" 0]
    by (auto simp: bit_and_iff bit_push_bit_one simp del: push_bit_of_1)
  then show ?thesis by (simp add: test_bit_at_def)
qed

lemma test_set_bit_at:
  assumes "idx < length bs * 8" and "j < length bs * 8"
  shows "test_bit_at j (set_bit_at idx bs) \<longleftrightarrow> j = idx \<or> test_bit_at j bs"
proof -
  have "idx div 8 < length bs" "j div 8 < length bs"
    using assms by (simp_all add: div_less_iff_less_mult)
  moreover have "j = idx \<longleftrightarrow> j div 8 = idx div 8 \<and> j mod 8 = idx mod 8"
    by (metis div_mult_mod_eq)
  ultimately show ?thesis
    by (auto simp: test_bit_at_iff set_bit_at_def nth_list_update bit_or_iff bit_push_bit_one
        simp del: push_bit_of_1)
qed

lemma length_fold_set_bit [simp]:
  "length (fold (\<lambda>i. set_bit_at (g i)) js bs) = length bs"
  by (induction js arbitrary: bs) simp_all

lemma test_fold_set_bit:
  assumes "\<forall>i. g i < length bs * 8" and "j < length bs * 8"
  shows "test_bit_at j (fold (\<lambda>i. set_bit_at (g i)) js bs) \<longleftrightarrow> j \<in> g ` set js \<or> test_bit_at j bs"
  using assms
proof (induction js arbitrary: bs)
  case Nil
  then show ?case by simp
next
  case (Cons i js)
  then show ?case
    using test_set_bit_at [of "g i" bs j] by auto
qed

lemma bloom_idx_less: "0 < n \<Longrightarrow> bloom_idx key n i < n"
  by (simp add: bloom_idx_def split: prod.splits)

definition bloom_inv :: "bloom \<Rightarrow> bool" where
  "bloom_inv f \<longleftrightarrow> bits f \<noteq> [] \<and> hash_count f \<noteq> 0 \<and> hash_count f \<le> 16"

lemma bloom_insert_Ok:
  assumes "bloom_inv f"
  shows "\<exists>bs. bloom_insert key f = Ok (f\<lparr>bits := bs\<rparr>) \<and> length bs = length (bits f)"
  using assms
  by (intro exI [of _ "fold (\<lambda>i. set_bit_at (bloom_idx key (length (bits f) * 8) i))
      [0..<unat (hash_count f)] (bits f)"]) (simp add: bloom_insert_def bloom_inv_def Let_def)

interpretation bloom: membership_filter bloom_insert bloom_insert_all might_contain bloom_inv
proof unfold_locales
  fix f key
  assume inv: "bloom_inv f"
  let ?n = "length (bits f) * 8"
  let ?bs = "fold (\<lambda>i. set_bit_at (bloom_idx key ?n i)) [0..<unat (hash_count f)] (bits f)"
  have ne: "bits f \<noteq> []" "0 < ?n" using inv by (simp_all add: bloom_inv_def)
  have ins: "bloom_insert key f = Ok (f\<lparr>bits := ?bs\<rparr>)"
    using ne by (simp add: bloom_insert_def Let_def)
  have ne': "?bs \<noteq> []" using ne by (metis length_0_conv length_fold_set_bit)
  have test: "test_bit_at j ?bs \<longleftrightarrow>
      j \<in> bloom_idx key ?n ` {0..<unat (hash_count f)} \<or> test_bit_at j (bits f)" if "j < ?n" for j
    using test_fold_set_bit [of "bloom_idx key ?n" "bits f" j "[0..<unat (hash_count f)]"]
      bloom_idx_less [OF ne(2)] that by simp
  have "might_contain (f\<lparr>bits := ?bs\<rparr>) key"
    using ne' test bloom_idx_less [OF ne(2)] by (auto simp: might_contain_def list_all_iff)
  moreover have "bloom_inv (f\<lparr>bits := ?bs\<rparr>)"
    using inv ne' by (simp add: bloom_inv_def)
  ultimately show "\<exists>f'. bloom_insert key f = Ok f' \<and> bloom_inv f' \<and> might_contain f' key"
    using ins by blast
  fix f' l
  assume "bloom_insert key f = Ok f'" and "might_contain f l"
  then show "might_contain f' l"
    using ins ne ne' test bloom_idx_less [OF ne(2)]
    by (auto simp: might_contain_def list_all_iff Let_def)
qed simp_all

lemma bloom_insert_all_length:
  "bloom_inv f \<Longrightarrow> bloom_insert_all keys f = Ok f' \<Longrightarrow>
     length (bits f') = length (bits f) \<and> hash_count f' = hash_count f"
proof (induction keys arbitrary: f)
  case Nil
  then show ?case by simp
next
  case (Cons key keys)
  obtain bs where bs: "bloom_insert key f = Ok (f\<lparr>bits := bs\<rparr>)" "length bs = length (bits f)"
    using bloom_insert_Ok Cons.prems(1) by blast
  moreover have "bloom_inv (f\<lparr>bits := bs\<rparr>)"
    using Cons.prems(1) bs(2) by (auto simp: bloom_inv_def)
  ultimately show ?case using Cons by simp
qed

lemma bloom_new_inv: "bloom_inv (bloom_new fl n p)"
proof -
  have h: "1 \<le> h \<and> h \<le> 16 \<Longrightarrow> (word_of_nat h :: u32) \<noteq> 0 \<and> (word_of_nat h :: u32) \<le> 16" for h :: nat
    using unat_as_u32 [of h] by (auto simp: word_le_nat_alt simp flip: unat_eq_0)
  have "0 < (max k 64 + 7) div 8" for k :: nat
    by simp
  then show ?thesis
    using h [of "min (max k 1) 16" for k] by (simp add: bloom_inv_def bloom_new_def Let_def)
qed

section \<open>The encoding\<close>

lemma bloom_encode_parts:
  "bloom_encode f = u32_le (hash_count f) @ u32_le (as_u32 (length (bits f))) @ bits f @
     u32_le (crc32 (u32_le (hash_count f) @ u32_le (as_u32 (length (bits f))) @ bits f))"
  by (simp add: bloom_encode_def Let_def)

lemma length_bloom_encode: "length (bloom_encode f) = 12 + length (bits f)"
  by (simp add: bloom_encode_parts)

lemma bloom_decode_encode:
  assumes "bloom_inv f" and "length (bits f) < 2 ^ 32"
  shows "bloom_decode (bloom_encode f) = Ok f"
proof -
  let ?bs = "bloom_encode f" and ?n = "length (bits f)"
  let ?body = "u32_le (hash_count f) @ u32_le (as_u32 ?n) @ bits f"
  have bs: "?bs = ?body @ u32_le (crc32 ?body)"
    by (simp add: bloom_encode_parts)
  have len: "length ?bs = 8 + ?n + 4" "\<not> length ?bs < 12"
    by (simp_all add: length_bloom_encode)
  have reads: "read_u32_at 0 4 ?bs = Ok (hash_count f)" "read_u32_at 4 8 ?bs = Ok (as_u32 ?n)"
    by (simp_all add: result_simps length_bloom_encode) (simp_all add: bloom_encode_parts)
  have n: "unat (as_u32 ?n) = ?n" using assms(2) by (simp only: unat_as_u32)
  have slices: "slice 0 (8 + ?n) ?bs = Ok ?body" "slice_from (8 + ?n) ?bs = Ok (u32_le (crc32 ?body))"
    "slice 8 (8 + ?n) ?bs = Ok (bits f)"
    unfolding bs by (simp_all add: slice_def slice_from_def)
  have hc: "\<not> (hash_count f = 0 \<or> hash_count f > 16)"
    using assms(1) by (auto simp: bloom_inv_def)
  show ?thesis
    unfolding bloom_decode_def reads and_then.simps Let_def n slices
    using hc len by (simp add: read_u32_le_def)
qed

lemma bloom_decode_not_Panic: "bloom_decode bs \<noteq> Panic"
proof (cases "length bs < 12")
  case True
  then show ?thesis by (simp add: bloom_decode_def)
next
  case False
  define n where "n = unat (from_le (take 4 (drop 4 bs)) :: u32)"
  have reads: "read_u32_at 0 4 bs = Ok (from_le (take 4 bs))"
    "read_u32_at 4 8 bs = Ok (from_le (take 4 (drop 4 bs)))"
    using False by (simp_all add: result_simps)
  show ?thesis
    unfolding bloom_decode_def reads and_then.simps Let_def n_def [symmetric]
    by (auto simp: slice_def slice_from_def read_u32_le_def)
qed

text \<open>
  C38: no false negatives. A filter built with \<^verbatim>\<open>new\<close>, whatever the floating-point sizing yields, and
  filled with any keys reports every one of them as possibly present; building it never panics.
\<close>

theorem bloom_no_false_negatives:
  "\<exists>f. bloom_insert_all keys (bloom_new fl n p) = Ok f \<and> list_all (might_contain f) keys"
  using bloom.no_false_negatives [OF bloom_new_inv, of keys fl n p] by (auto simp: list_all_iff)

text \<open>
  C39: the stored filter answers exactly as the filter in memory: encoding and decoding give the same
  filter back, for every filter built by \<^verbatim>\<open>new\<close> and \<^verbatim>\<open>insert\<close> whose bit array has a 32-bit length.
\<close>

theorem bloom_encode_roundtrip:
  assumes "bloom_insert_all keys (bloom_new fl n p) = Ok f" and "length (bits f) < 2 ^ 32"
  shows "bloom_decode (bloom_encode f) = Ok f"
proof -
  have "bloom_inv f"
    using bloom.no_false_negatives [OF bloom_new_inv, of keys fl n p] assms(1) by auto
  then show ?thesis using assms(2) by (rule bloom_decode_encode)
qed

definition f64_example :: f64_math where
  "f64_example = \<lparr>raw_bit_count = (\<lambda>n _. 10 * n), raw_hash_count = (\<lambda>m n. 7 * m div (10 * n))\<rparr>"

theorem bloom_encode_roundtrip_witness:
  "\<exists>f. bloom_insert_all [[97]] (bloom_new f64_example 1 (1 / 100)) = Ok f \<and>
     bloom_decode (bloom_encode f) = Ok f"
proof -
  let ?new = "bloom_new f64_example 1 (1 / 100)"
  obtain f where f: "bloom_insert_all [[97]] ?new = Ok f"
    using bloom.no_false_negatives [OF bloom_new_inv, of "[[97]]" f64_example 1 "1 / 100"] by blast
  have "length (bits f) = 8"
    using bloom_insert_all_length [OF bloom_new_inv f] by (simp add: bloom_new_def f64_example_def)
  then show ?thesis
    using bloom_encode_roundtrip [OF f] f by auto
qed

end
