(* ===== verification/Cache.thy ===== *)
theory Cache
  imports MemTable "HOL-Library.AList"
begin

text \<open>
  The block cache of \<^verbatim>\<open>src/src/cache.rs\<close>: decoded data blocks under their table id and file offset,
  a recency queue, and a byte budget. The \<^verbatim>\<open>HashMap\<close> is an association list; the shared \<^verbatim>\<open>Arc\<close> of a
  block is the block itself, since blocks are never changed.

  The invariant says that the queue lists exactly the cached keys, once each, and that the byte counter
  is the sum of the cached sizes (so its subtractions never go below zero). The interface \<open>read_through\<close> is what the
  table reader needs: a cache in front of a store only ever returns what the store holds.
\<close>

section \<open>The code\<close>

record block_key =
  key_table_id :: u64
  key_offset :: u64

type_synonym block_data = "(bytes \<times> entry) list"

record block_cache =
  cache_map :: "(block_key \<times> block_data) list"
  order :: "block_key list"
  current_bytes :: nat
  max_bytes :: nat
  hits :: u64
  misses :: u64

definition block_size :: "block_data \<Rightarrow> nat" where
  "block_size block =
     max (sum_list (map (\<lambda>(k, e). length k + (case e of Value v \<Rightarrow> length v | Tombstone \<Rightarrow> 0)) block)) 1"

definition cache_new :: "nat \<Rightarrow> block_cache" where
  "cache_new max_b =
     \<lparr>cache_map = [], order = [], current_bytes = 0, max_bytes = max max_b 1, hits = 0, misses = 0\<rparr>"

definition touch :: "block_key \<Rightarrow> block_cache \<Rightarrow> block_cache" where
  "touch key c = c\<lparr>order := remove1 key (order c) @ [key]\<rparr>"

definition cache_get :: "block_key \<Rightarrow> block_cache \<Rightarrow> block_data option \<times> block_cache" where
  "cache_get key c =
     (case map_of (cache_map c) key of
        Some block \<Rightarrow> (Some block, touch key (c\<lparr>hits := hits c + 1\<rparr>))
      | None \<Rightarrow> (None, c\<lparr>misses := misses c + 1\<rparr>))"

definition evict_oldest :: "block_key \<Rightarrow> block_key list \<Rightarrow> block_cache \<Rightarrow> block_cache" where
  "evict_oldest oldest rest c =
     (case map_of (cache_map c) oldest of
        Some block \<Rightarrow>
          c\<lparr>order := rest, cache_map := AList.delete oldest (cache_map c),
            current_bytes := current_bytes c - block_size block\<rparr>
      | None \<Rightarrow> c\<lparr>order := rest\<rparr>)"

function evict_to_fit :: "block_cache \<Rightarrow> block_cache" where
  "evict_to_fit c =
     (if current_bytes c > max_bytes c then
        (case order c of
           [] \<Rightarrow> c
         | oldest # rest \<Rightarrow> evict_to_fit (evict_oldest oldest rest c))
      else c)"
  by pat_completeness auto

termination
  by (relation "measure (length \<circ> order)") (auto simp: evict_oldest_def split: option.splits)

declare evict_to_fit.simps [simp del]

definition cache_insert :: "block_key \<Rightarrow> block_data \<Rightarrow> block_cache \<Rightarrow> block_cache" where
  "cache_insert key block c =
     (let size = block_size block;
          previous = map_of (cache_map c) key;
          inserted = c\<lparr>cache_map := AList.update key block (cache_map c)\<rparr>;
          listed = (case previous of
            Some old \<Rightarrow> touch key (inserted\<lparr>current_bytes := current_bytes inserted - block_size old\<rparr>)
          | None \<Rightarrow> inserted\<lparr>order := order inserted @ [key]\<rparr>)
      in evict_to_fit (listed\<lparr>current_bytes := current_bytes listed + size\<rparr>))"

definition cache_len :: "block_cache \<Rightarrow> nat" where
  "cache_len c = length (cache_map c)"

definition cache_is_empty :: "block_cache \<Rightarrow> bool" where
  "cache_is_empty c \<longleftrightarrow> cache_map c = []"

section \<open>Invariant\<close>

abbreviation cached :: "block_cache \<Rightarrow> block_key \<Rightarrow> block_data option" where
  "cached c \<equiv> map_of (cache_map c)"

definition queue_size :: "(block_key \<Rightarrow> block_data option) \<Rightarrow> block_key list \<Rightarrow> nat" where
  "queue_size m ks = sum_list (map (\<lambda>k. block_size (the (m k))) ks)"

definition cache_inv :: "block_cache \<Rightarrow> bool" where
  "cache_inv c \<longleftrightarrow>
     distinct (order c) \<and> distinct (map fst (cache_map c)) \<and> set (order c) = fst ` set (cache_map c) \<and>
     current_bytes c = queue_size (cached c) (order c)"

lemma queue_size_simps [simp]:
  "queue_size m [] = 0"
  "queue_size m (k # ks) = block_size (the (m k)) + queue_size m ks"
  "queue_size m (ks @ ls) = queue_size m ks + queue_size m ls"
  by (simp_all add: queue_size_def)

lemma queue_size_cong: "(\<And>k. k \<in> set ks \<Longrightarrow> m k = m' k) \<Longrightarrow> queue_size m ks = queue_size m' ks"
  by (simp add: queue_size_def cong: map_cong)

lemma queue_size_upd [simp]: "k \<notin> set ks \<Longrightarrow> queue_size (m(k := v)) ks = queue_size m ks"
  by (rule queue_size_cong) auto

lemma queue_size_remove1:
  "k \<in> set ks \<Longrightarrow> queue_size m ks = block_size (the (m k)) + queue_size m (remove1 k ks)"
  by (induction ks) auto

lemma fst_set_delete: "fst ` set (AList.delete k al) = fst ` set al - {k}"
  using arg_cong [OF delete_keys [of k al], of set] by (simp add: set_eq_iff)

lemma cached_SomeD: "cached c k = Some b \<Longrightarrow> k \<in> fst ` set (cache_map c)"
  by (force dest: map_of_SomeD)

lemma cache_inv_dom: "cache_inv c \<Longrightarrow> k \<in> set (order c) \<longleftrightarrow> cached c k \<noteq> None"
  by (simp add: cache_inv_def map_of_eq_None_iff)

lemma cache_inv_new [simp]: "cache_inv (cache_new n)"
  by (simp add: cache_inv_def cache_new_def)

lemma cache_inv_touch:
  assumes "cache_inv c" and "k \<in> set (order c)"
  shows "cache_inv (touch k c)"
  using assms queue_size_remove1 [of k "order c" "cached c"]
  by (auto simp: cache_inv_def touch_def)

lemma cache_inv_evict_oldest:
  assumes inv: "cache_inv c" and ord: "order c = k # ks"
  shows "cache_inv (evict_oldest k ks c)" and "order (evict_oldest k ks c) = ks"
    and "cached (evict_oldest k ks c) = (cached c)(k := None)"
    and "max_bytes (evict_oldest k ks c) = max_bytes c"
proof -
  obtain b where b: "cached c k = Some b"
    using cache_inv_dom [OF inv, of k] ord by auto
  then show "order (evict_oldest k ks c) = ks" "max_bytes (evict_oldest k ks c) = max_bytes c"
    "cached (evict_oldest k ks c) = (cached c)(k := None)"
    by (simp_all add: evict_oldest_def delete_conv')
  have "k \<notin> set ks" and "set ks = fst ` set (cache_map c) - {k}"
    using inv ord by (auto simp: cache_inv_def)
  then show "cache_inv (evict_oldest k ks c)"
    using inv ord b
    by (simp add: cache_inv_def evict_oldest_def delete_conv' distinct_delete fst_set_delete)
qed

text \<open>
  Eviction drops a prefix of the queue, the shortest one after which the rest fits, and keeps every
  other block.
\<close>

lemma evict_to_fit_spec:
  assumes "cache_inv c"
  shows "cache_inv (evict_to_fit c) \<and> current_bytes (evict_to_fit c) \<le> max_bytes c \<and>
    max_bytes (evict_to_fit c) = max_bytes c \<and>
    (\<exists>n. order (evict_to_fit c) = drop n (order c) \<and>
      (\<forall>m<n. queue_size (cached c) (drop m (order c)) > max_bytes c)) \<and>
    (\<forall>k. cached (evict_to_fit c) k =
      (if k \<in> set (order (evict_to_fit c)) then cached c k else None))"
  using assms
proof (induction c rule: evict_to_fit.induct)
  case (1 c)
  show ?case
  proof (cases "current_bytes c > max_bytes c")
    case False
    then have "evict_to_fit c = c"
      by (simp add: evict_to_fit.simps)
    moreover have "\<exists>n. order c = drop n (order c) \<and> (\<forall>m<n. queue_size (cached c) (drop m (order c)) > max_bytes c)"
      by (rule exI [of _ 0]) simp
    ultimately show ?thesis
      using 1(2) False cache_inv_dom [OF 1(2)] by (auto simp: not_less)
  next
    case True
    then obtain k ks where ord: "order c = k # ks"
      using 1(2) by (cases "order c") (auto simp: cache_inv_def)
    let ?c = "evict_oldest k ks c"
    note ev = cache_inv_evict_oldest [OF 1(2) ord]
    have step: "evict_to_fit c = evict_to_fit ?c"
      using True ord by (simp add: evict_to_fit.simps [of c])
    note IH = 1(1) [OF True ord ev(1)]
    then obtain n where n: "order (evict_to_fit ?c) = drop n ks"
        "\<forall>m<n. queue_size (cached ?c) (drop m ks) > max_bytes c"
      unfolding ev by blast
    have notin: "k \<notin> set ks"
      using 1(2) ord by (simp add: cache_inv_def)
    have "queue_size (cached ?c) (drop m ks) = queue_size (cached c) (drop m ks)" for m
      using notin by (intro queue_size_cong) (auto simp: ev dest: in_set_dropD)
    with n(2) have "\<forall>m<Suc n. queue_size (cached c) (drop m (order c)) > max_bytes c"
      using True 1(2) ord by (auto simp: cache_inv_def less_Suc_eq_0_disj)
    moreover have "order (evict_to_fit c) = drop (Suc n) (order c)"
      using n(1) ord step by simp
    moreover have "cached (evict_to_fit c) j =
        (if j \<in> set (order (evict_to_fit c)) then cached c j else None)" for j
      using IH notin n(1) unfolding step ev by (auto dest: in_set_dropD)
    ultimately show ?thesis
      using IH unfolding step ev by blast
  qed
qed

definition cache_ok :: "block_cache \<Rightarrow> bool" where
  "cache_ok c \<longleftrightarrow> cache_inv c \<and> current_bytes c \<le> max_bytes c"

lemma cache_ok_new: "cache_ok (cache_new n)"
  by (simp add: cache_ok_def) (simp add: cache_new_def)

lemma cache_get_spec:
  assumes "cache_ok c"
  shows "fst (cache_get k c) = cached c k" and "cached (snd (cache_get k c)) = cached c"
    and "cache_ok (snd (cache_get k c))" and "max_bytes (snd (cache_get k c)) = max_bytes c"
proof -
  have bump: "cache_inv (c\<lparr>hits := h\<rparr>)" "cache_inv (c\<lparr>misses := h\<rparr>)" for h
    using assms by (simp_all add: cache_ok_def cache_inv_def)
  show "fst (cache_get k c) = cached c k" "cached (snd (cache_get k c)) = cached c"
    "max_bytes (snd (cache_get k c)) = max_bytes c"
    by (simp_all add: cache_get_def touch_def split: option.splits)
  show "cache_ok (snd (cache_get k c))"
  proof (cases "cached c k")
    case None
    then show ?thesis
      using assms bump by (simp add: cache_get_def cache_ok_def)
  next
    case (Some b)
    then have "k \<in> set (order (c\<lparr>hits := hits c + 1\<rparr>))"
      using assms by (simp add: cache_inv_dom cache_ok_def)
    then show ?thesis
      using Some assms cache_inv_touch [OF bump(1)] by (simp add: cache_get_def cache_ok_def touch_def)
  qed
qed

lemma fst_set_update: "fst ` set (AList.update k v al) = insert k (fst ` set al)"
  using dom_update [of k v al] by (simp add: dom_map_of_conv_image_fst)

text \<open>The cache just before eviction: the new block is in and its key is at the end of the queue.\<close>

definition cache_listed :: "block_key \<Rightarrow> block_data \<Rightarrow> block_cache \<Rightarrow> block_cache" where
  "cache_listed k b c =
     c\<lparr>cache_map := AList.update k b (cache_map c), order := remove1 k (order c) @ [k],
       current_bytes := current_bytes c - (case cached c k of Some old \<Rightarrow> block_size old | None \<Rightarrow> 0) + block_size b\<rparr>"

lemma cache_insert_listed:
  assumes "cache_inv c"
  shows "cache_insert k b c = evict_to_fit (cache_listed k b c)"
proof (cases "cached c k")
  case None
  then have "remove1 k (order c) = order c"
    using cache_inv_dom [OF assms, of k] by (simp add: remove1_idem)
  with None show ?thesis
    by (simp add: cache_insert_def cache_listed_def Let_def)
qed (simp add: cache_insert_def cache_listed_def Let_def touch_def)

lemma cache_inv_listed:
  assumes "cache_inv c"
  shows "cache_inv (cache_listed k b c)"
proof -
  have "current_bytes c - (case cached c k of Some old \<Rightarrow> block_size old | None \<Rightarrow> 0) =
      queue_size (cached c) (remove1 k (order c))"
    using assms cache_inv_dom [OF assms, of k] queue_size_remove1 [of k "order c" "cached c"]
    by (cases "cached c k") (auto simp: cache_inv_def remove1_idem)
  moreover have "k \<notin> set (remove1 k (order c))"
    using assms by (simp add: cache_inv_def)
  ultimately show ?thesis
    using assms
    by (simp add: cache_inv_def cache_listed_def update_conv' distinct_update fst_set_update)
qed

text \<open>The subtraction in \<^verbatim>\<open>insert\<close> never goes below zero.\<close>

lemma cache_no_underflow:
  assumes "cache_inv c" and "cached c k = Some old"
  shows "block_size old \<le> current_bytes c"
  using assms cache_inv_dom [OF assms(1), of k] queue_size_remove1 [of k "order c" "cached c"]
  by (auto simp: cache_inv_def)

lemma cache_insert_spec:
  fixes k b c
  defines "q \<equiv> remove1 k (order c) @ [k]" and "m \<equiv> (cached c)(k \<mapsto> b)"
  assumes "cache_inv c"
  shows "cache_ok (cache_insert k b c) \<and> max_bytes (cache_insert k b c) = max_bytes c \<and>
    (\<exists>n. order (cache_insert k b c) = drop n q \<and> queue_size m (drop n q) \<le> max_bytes c \<and>
      (\<forall>i<n. queue_size m (drop i q) > max_bytes c)) \<and>
    (\<forall>j. cached (cache_insert k b c) j = (if j \<in> set (order (cache_insert k b c)) then m j else None))"
proof -
  let ?l = "cache_listed k b c"
  have l: "cached ?l = m" "order ?l = q" "max_bytes ?l = max_bytes c"
    by (simp_all add: cache_listed_def update_conv' q_def m_def)
  note ev = evict_to_fit_spec [OF cache_inv_listed [OF assms(3), of k b], unfolded l]
  have "current_bytes (evict_to_fit ?l) = queue_size m (order (evict_to_fit ?l))"
    using ev by (auto simp: cache_inv_def intro!: queue_size_cong)
  with ev show ?thesis
    unfolding cache_insert_listed [OF assms(3)] cache_ok_def by (metis (no_types, lifting))
qed

section \<open>A cache in front of a store\<close>

locale read_through =
  fixes get :: "'k \<Rightarrow> 'c \<Rightarrow> 'b option \<times> 'c"
    and insert_block :: "'k \<Rightarrow> 'b \<Rightarrow> 'c \<Rightarrow> 'c"
    and holds :: "'c \<Rightarrow> 'k \<Rightarrow> 'b option"
    and ok :: "'c \<Rightarrow> bool"
  assumes get_fst: "ok c \<Longrightarrow> fst (get k c) = holds c k"
    and get_holds: "ok c \<Longrightarrow> holds (snd (get k c)) = holds c"
    and ok_get: "ok c \<Longrightarrow> ok (snd (get k c))"
    and ok_insert: "ok c \<Longrightarrow> ok (insert_block k b c)"
    and insert_holds: "ok c \<Longrightarrow> holds (insert_block k b c) j = Some d \<Longrightarrow>
          ((holds c)(k \<mapsto> b)) j = Some d"
begin

text \<open>\<open>store k b\<close>: the block stored under \<open>k\<close> is \<open>b\<close>.\<close>

definition coherent :: "('k \<Rightarrow> 'b \<Rightarrow> bool) \<Rightarrow> 'c \<Rightarrow> bool" where
  "coherent store c \<longleftrightarrow> ok c \<and> (\<forall>k b. holds c k = Some b \<longrightarrow> store k b)"

lemma coherent_get:
  assumes "coherent store c" and "get k c = (r, c')"
  shows "coherent store c'" and "r = Some b \<Longrightarrow> store k b"
  using assms get_fst [of c k] get_holds [of c k] ok_get [of c k] by (auto simp: coherent_def)

lemma coherent_insert:
  assumes "coherent store c" and "store k b"
  shows "coherent store (insert_block k b c)"
proof -
  have ok: "ok c" and store: "\<And>j d. holds c j = Some d \<Longrightarrow> store j d"
    using assms(1) by (auto simp: coherent_def)
  have "store j d" if "holds (insert_block k b c) j = Some d" for j d
    using insert_holds [OF ok that] assms(2) store [of j d] by (cases "j = k") simp_all
  then show ?thesis
    using ok_insert [OF ok] by (simp add: coherent_def)
qed

lemma coherent_mono:
  assumes "coherent store c" and "\<And>k b. store k b \<Longrightarrow> store' k b"
  shows "coherent store' c"
  using assms by (auto simp: coherent_def)

end

interpretation block_cache: read_through cache_get cache_insert cached cache_ok
proof
  fix c k b j d
  assume ok: "cache_ok c"
  then show "fst (cache_get k c) = cached c k" "cached (snd (cache_get k c)) = cached c"
    "cache_ok (snd (cache_get k c))"
    by (rule cache_get_spec)+
  from ok have spec: "cache_ok (cache_insert k b c)"
    "cached (cache_insert k b c) j =
       (if j \<in> set (order (cache_insert k b c)) then ((cached c)(k \<mapsto> b)) j else None)"
    using cache_insert_spec [of c k b] unfolding cache_ok_def [of c] by blast+
  then show "cache_ok (cache_insert k b c)"
    by blast
  assume "cached (cache_insert k b c) j = Some d"
  with spec(2) show "((cached c)(k \<mapsto> b)) j = Some d"
    by (auto split: if_splits)
qed

section \<open>Properties\<close>

datatype cache_op = CacheGet block_key | CacheInsert block_key block_data

fun cache_step :: "cache_op \<Rightarrow> block_cache \<Rightarrow> block_cache" where
  "cache_step (CacheGet k) c = snd (cache_get k c)"
| "cache_step (CacheInsert k b) c = cache_insert k b c"

lemma cache_ok_run: "cache_ok c \<Longrightarrow> cache_ok (fold cache_step ops c) \<and> max_bytes (fold cache_step ops c) = max_bytes c"
proof (induction ops arbitrary: c)
  case (Cons op ops)
  have "cache_ok (cache_insert k b c)" "max_bytes (cache_insert k b c) = max_bytes c" for k b
    using Cons.prems cache_insert_spec [of c k b] unfolding cache_ok_def [of c] by blast+
  then have "cache_ok (cache_step op c) \<and> max_bytes (cache_step op c) = max_bytes c"
    using cache_get_spec(3,4) [OF Cons.prems] by (cases op) simp_all
  then show ?case
    using Cons.IH [of "cache_step op c"] by simp
qed simp

lemma queue_size_eq_sum:
  assumes "cache_inv c"
  shows "queue_size (cached c) (order c) = sum_list (map (block_size \<circ> snd) (cache_map c))"
proof -
  have d: "distinct (map fst (cache_map c))" and s: "set (order c) = fst ` set (cache_map c)"
    and o: "distinct (order c)"
    using assms by (simp_all add: cache_inv_def)
  have "map (block_size \<circ> snd) (cache_map c) = map (\<lambda>k. block_size (the (cached c k))) (map fst (cache_map c))"
    using d by auto
  then show ?thesis
    using d o s by (simp only: queue_size_def sum_list_distinct_conv_sum_set list.set_map)
qed

text \<open>
  C26: whatever is looked up and inserted, the cache holds no more than its byte budget, its counter is the
  total size of the blocks it holds, and its recency queue lists every cached key exactly once.
\<close>

theorem cache_stays_bounded:
  "let c = fold cache_step ops (cache_new n) in
     sum_list (map (block_size \<circ> snd) (cache_map c)) \<le> max n 1 \<and>
     current_bytes c = sum_list (map (block_size \<circ> snd) (cache_map c)) \<and>
     distinct (order c) \<and> set (order c) = dom (map_of (cache_map c)) \<and>
     cache_len c = length (order c)"
proof -
  define c where "c = fold cache_step ops (cache_new n)"
  have c: "cache_inv c" "current_bytes c \<le> max n 1"
    using cache_ok_run [OF cache_ok_new [of n], of ops]
    by (simp_all add: cache_ok_def c_def [symmetric]) (simp add: cache_new_def)
  moreover have "cache_len c = length (order c)"
    using c(1) distinct_card [of "order c"] distinct_card [of "map fst (cache_map c)"]
    by (simp add: cache_inv_def cache_len_def)
  ultimately show ?thesis
    using queue_size_eq_sum [OF c(1)]
    by (simp add: c_def [symmetric] Let_def cache_inv_def dom_map_of_conv_image_fst)
qed

text \<open>
  C27: eviction is least recently used. Inserting a block moves its key to the recent end of the queue
  and then drops keys from the old end, as few as needed: what stays is the longest suffix of the queue
  that fits the budget, with its blocks unchanged and the new block under its key.
\<close>

theorem cache_insert_evicts_lru:
  assumes "c = fold cache_step ops (cache_new n)"
    and "q = remove1 k (order c) @ [k]" and "m = (map_of (cache_map c))(k \<mapsto> b)"
  shows "\<exists>i. order (cache_insert k b c) = drop i q \<and> queue_size m (drop i q) \<le> max n 1 \<and>
    (\<forall>j<i. queue_size m (drop j q) > max n 1) \<and>
    map_of (cache_map (cache_insert k b c)) = m |` set (drop i q)"
proof -
  have inv: "cache_inv c" and max: "max_bytes c = max n 1"
    using cache_ok_run [OF cache_ok_new [of n], of ops] assms(1)
    by (simp_all add: cache_ok_def) (simp add: cache_new_def)
  obtain i where i: "order (cache_insert k b c) = drop i q" "queue_size m (drop i q) \<le> max n 1"
      "\<forall>j<i. queue_size m (drop j q) > max n 1"
      "\<forall>j. cached (cache_insert k b c) j = (if j \<in> set (drop i q) then m j else None)"
    using cache_insert_spec [OF inv, of k b] unfolding max assms(2,3) by metis
  from i(4) have "map_of (cache_map (cache_insert k b c)) = m |` set (drop i q)"
    by (simp add: fun_eq_iff restrict_map_def)
  with i(1-3) show ?thesis
    by blast
qed

text \<open>Room for two blocks: the first is read again after the second came, so the third one takes the place of the second.\<close>

definition example_block :: "u64 \<Rightarrow> block_key" where
  "example_block i = \<lparr>key_table_id = i, key_offset = 0\<rparr>"

definition example_cache :: "cache_op list" where
  "example_cache =
     [CacheInsert (example_block 1) [([97], Tombstone)], CacheInsert (example_block 2) [([98], Tombstone)],
      CacheGet (example_block 1)]"

theorem cache_insert_evicts_lru_witness:
  "order (cache_insert (example_block 3) [([99], Tombstone)] (fold cache_step example_cache (cache_new 2))) =
     [example_block 1, example_block 3]"
proof -
  let ?c = "fold cache_step example_cache (cache_new 2)"
  let ?m = "(map_of (cache_map ?c))(example_block 3 \<mapsto> [([99], Tombstone)])"
  have c: "order ?c = [example_block 2, example_block 1]"
    "cache_map ?c = [(example_block 1, [([97], Tombstone)]), (example_block 2, [([98], Tombstone)])]"
    by (simp_all add: example_cache_def example_block_def cache_new_def cache_insert_def cache_get_def touch_def
        block_size_def evict_to_fit.simps Let_def)
  have q: "remove1 (example_block 3) (order ?c) @ [example_block 3] = [example_block 2, example_block 1, example_block 3]"
    and two: "max 2 1 = (2 :: nat)"
    unfolding c(1) by (simp_all add: example_block_def)
  obtain i where i: "order (cache_insert (example_block 3) [([99], Tombstone)] ?c) =
        drop i [example_block 2, example_block 1, example_block 3]"
      "queue_size ?m (drop i [example_block 2, example_block 1, example_block 3]) \<le> 2"
      "\<forall>j<i. queue_size ?m (drop j [example_block 2, example_block 1, example_block 3]) > 2"
    using cache_insert_evicts_lru [where ops = example_cache and n = 2 and k = "example_block 3" and b = "[([99], Tombstone)]",
        OF refl refl refl] unfolding q two by blast
  have size: "queue_size ?m [example_block 2, example_block 1, example_block 3] = 3"
    "queue_size ?m [example_block 1, example_block 3] = 2"
    by (simp_all add: c(2) example_block_def block_size_def)
  have "i \<noteq> 0"
    using i(2) size(1) by (cases i) simp_all
  moreover have "\<not> 1 < i"
    using i(3) size(2) by auto
  ultimately have "i = 1" by simp
  then show ?thesis
    using i(1) by simp
qed

end
