(* ===== verification/SsTable.thy ===== *)
theory SsTable
  imports SsTable_Format Binary_Search Bloom Cache
begin

text \<open>
  Sorted tables (\<^verbatim>\<open>src/src/sstable.rs\<close>): writing a table to a temporary file and renaming it into
  place, opening it, point lookups through the Bloom filter, the block index and the cache, and the
  sequential iterator. A path is the name of a file in the database directory.

  The predicate \<open>sst_holds t es w\<close> says that the table \<open>t\<close> stores the entries \<open>es\<close> in the world \<open>w\<close>. \<open>create\<close>
  establishes it, \<open>open\<close> recovers the same table from the file alone, and under it a lookup is
  \<^const>\<open>map_of\<close> of the entries and iteration yields the entries.
\<close>

section \<open>The code\<close>

record sstable =
  sst_id :: u64
  sst_path :: string
  sst_index :: "index_entry list"
  sst_bloom :: bloom
  smallest :: bytes
  largest :: bytes
  size_bytes :: u64
  sst_level :: nat

definition tmp_path :: "string \<Rightarrow> string" where
  "tmp_path final_path = final_path @ ''.tmp''"

definition table_file_name :: "u64 \<Rightarrow> string" where
  "table_file_name i = pad_zeros 6 (decimal (unat i)) @ ''.sst''"

text \<open>The local variables of \<^verbatim>\<open>create\<close> while it writes the data blocks.\<close>

record table_writer =
  tw_index :: "index_entry list"
  block_buf :: bytes
  block_first :: "bytes option"
  block_last :: bytes
  block_count :: u32
  tw_offset :: u64

definition writer_new :: table_writer where
  "writer_new = \<lparr>tw_index = [], block_buf = [], block_first = None, block_last = [],
     block_count = 0, tw_offset = 0\<rparr>"

text \<open>Writing out the current block and its index row; the buffers are taken, so they are empty after it.\<close>

definition close_block :: "string \<Rightarrow> table_writer \<times> world \<Rightarrow> unit result \<times> table_writer \<times> world" where
  "close_block tmp = (\<lambda>(t, w).
     case flush_data_block tmp (block_buf t) (block_count t) w of
       (Ok len, w) \<Rightarrow>
         (Ok (),
          t\<lparr>tw_index := tw_index t @ [\<lparr>first_key = (case block_first t of Some k \<Rightarrow> k | None \<Rightarrow> []),
              last_key = block_last t, ie_offset = tw_offset t, ie_length = len\<rparr>],
            block_buf := [], block_first := None, block_last := [],
            tw_offset := tw_offset t + ucast len, block_count := 0\<rparr>, w)
     | (Err e, w) \<Rightarrow> (Err e, t, w)
     | (Panic, w) \<Rightarrow> (Panic, t, w))"

definition write_entry ::
  "string \<Rightarrow> nat \<Rightarrow> bytes \<times> entry \<Rightarrow> table_writer \<times> world \<Rightarrow> unit result \<times> table_writer \<times> world" where
  "write_entry tmp block_sz = (\<lambda>(key, e) (t, w).
     let t = (if block_first t = None then t\<lparr>block_first := Some key\<rparr> else t);
         t = t\<lparr>block_buf := encode_entry (block_buf t) key e\<rparr>;
         t = t\<lparr>block_count := block_count t + 1\<rparr>;
         t = t\<lparr>block_last := key\<rparr>
     in if length (block_buf t) \<ge> block_sz \<and> block_count t > 0 then close_block tmp (t, w)
        else (Ok (), t, w))"

fun write_entries ::
  "string \<Rightarrow> nat \<Rightarrow> (bytes \<times> entry) list \<Rightarrow> table_writer \<times> world \<Rightarrow> unit result \<times> table_writer \<times> world" where
  "write_entries tmp block_sz [] tw = (Ok (), tw)"
| "write_entries tmp block_sz (ke # kes) tw =
     andThen (write_entry tmp block_sz ke tw) (\<lambda>_ tw. write_entries tmp block_sz kes tw)"

definition write_blocks ::
  "string \<Rightarrow> nat \<Rightarrow> (bytes \<times> entry) list \<Rightarrow> world \<Rightarrow> unit result \<times> table_writer \<times> world" where
  "write_blocks tmp block_sz collected w =
     andThen (write_entries tmp block_sz collected (writer_new, w)) (\<lambda>_ (t, w).
       if block_count t > 0 \<or> tw_index t = [] then close_block tmp (t, w) else (Ok (), t, w))"

definition encode_footer :: "u64 \<Rightarrow> u64 \<Rightarrow> u64 \<Rightarrow> u64 \<Rightarrow> bytes" where
  "encode_footer index_offset index_len bloom_offset bloom_len =
     (let footer = u64_le index_offset @ u64_le index_len @ u64_le bloom_offset @ u64_le bloom_len @
            u32_le FORMAT_VERSION @ u32_le 0;
          footer_crc = crc32 footer
      in footer @ u32_le footer_crc @ u32_le MAGIC)"

definition sst_create ::
  "f64_math \<Rightarrow> string \<Rightarrow> u64 \<Rightarrow> (bytes \<times> entry) list \<Rightarrow> rat \<Rightarrow> nat \<Rightarrow> world \<Rightarrow> sstable result \<times> world" where
  "sst_create fl path tid ents bloom_fp block_sz w =
     (let tmp = tmp_path path in
      case should_fail SsTableWrite w of
        (True, w) \<Rightarrow> (Err (other_error ''injected SSTable write failure''), w)
      | (False, w) \<Rightarrow>
     (let collected = sort_key fst ents in
      andThen (bloom_insert_all (map fst collected) (bloom_new fl (max (length collected) 1) bloom_fp), w)
        (\<lambda>bloom w.
      let w = open_truncate tmp w in
      case write_blocks tmp block_sz collected w of (r, t, w) \<Rightarrow>
      andThen (r, w) (\<lambda>_ w.
      let index_offset = tw_offset t;
          index_bytes = encode_index (tw_index t);
          w = file_append tmp index_bytes w;
          index_len = as_u64 (length index_bytes);
          bloom_offset = index_offset + index_len;
          bloom_bytes = bloom_encode bloom;
          w = file_append tmp bloom_bytes w;
          bloom_len = as_u64 (length bloom_bytes);
          w = file_append tmp (encode_footer index_offset index_len bloom_offset bloom_len) w
      in case should_fail SsTableSync w of
        (True, w) \<Rightarrow> (Err (other_error ''injected SSTable sync failure''), w)
      | (False, w) \<Rightarrow>
     (let w = file_sync tmp w in
      case should_fail Rename w of
        (True, w) \<Rightarrow> (Err (other_error ''injected rename failure''), w)
      | (False, w) \<Rightarrow>
     (let w = file_rename tmp path w in
      (Ok \<lparr>sst_id = tid, sst_path = path, sst_index = tw_index t, sst_bloom = bloom,
           smallest = (case collected of [] \<Rightarrow> [] | ke # _ \<Rightarrow> fst ke),
           largest = (if collected = [] then [] else fst (last collected)),
           size_bytes = as_u64 (length (content (file_of path w))), sst_level = 0\<rparr>, w)))))))"

text \<open>\<^verbatim>\<open>u64::checked_add(..).is_none_or(|end| end > bound)\<close>.\<close>

definition add_exceeds :: "u64 \<Rightarrow> u64 \<Rightarrow> u64 \<Rightarrow> bool" where
  "add_exceeds a b bound \<longleftrightarrow> unat a + unat b \<ge> 2 ^ 64 \<or> a + b > bound"

definition sst_open :: "string \<Rightarrow> u64 \<Rightarrow> world \<Rightarrow> sstable result" where
  "sst_open path tid w =
     (if suffix ''.tmp'' path then Err CorruptedRecord else
      case files w path of None \<Rightarrow> Err (Io NotFound ''No such file or directory'') | Some x \<Rightarrow>
      let size = as_u64 (length (content x)) in
      if size < as_u64 FOOTER_LEN then Err CorruptedRecord else
      and_then (read_exact_at path (unat size - FOOTER_LEN) FOOTER_LEN w) (\<lambda>footer.
      and_then (read_u32_at 44 48 footer) (\<lambda>magic.
      if magic \<noteq> MAGIC then Err CorruptedRecord else
      and_then (read_u32_at 40 44 footer) (\<lambda>footer_crc.
      and_then (slice 0 40 footer) (\<lambda>head.
      if crc32 head \<noteq> footer_crc then Err InvalidChecksum else
      and_then (read_u32_at 32 36 footer) (\<lambda>version.
      if version \<noteq> FORMAT_VERSION then Err CorruptedRecord else
      and_then (read_u64_at 0 8 footer) (\<lambda>index_offset.
      and_then (read_u64_at 8 16 footer) (\<lambda>index_len.
      and_then (read_u64_at 16 24 footer) (\<lambda>bloom_offset.
      and_then (read_u64_at 24 32 footer) (\<lambda>bloom_len.
      if add_exceeds index_offset index_len size \<or> add_exceeds bloom_offset bloom_len size
      then Err CorruptedRecord else
      and_then (read_exact_at path (unat index_offset) (unat index_len) w) (\<lambda>index_bytes.
      and_then (decode_index index_bytes) (\<lambda>idx.
      and_then (read_exact_at path (unat bloom_offset) (unat bloom_len) w) (\<lambda>bloom_bytes.
      and_then (bloom_decode bloom_bytes) (\<lambda>bloom.
      Ok \<lparr>sst_id = tid, sst_path = path, sst_index = idx, sst_bloom = bloom,
          smallest = (case idx of [] \<Rightarrow> [] | e # _ \<Rightarrow> first_key e),
          largest = (if idx = [] then [] else last_key (last idx)),
          size_bytes = size, sst_level = 0\<rparr>))))))))))))))"

definition contains_range :: "sstable \<Rightarrow> bytes \<Rightarrow> bool" where
  "contains_range t key \<longleftrightarrow>
     (if smallest t = [] \<and> largest t = [] \<and> length (sst_index t) = 1 then False
      else key \<ge> smallest t \<and> key \<le> largest t)"

definition bloom_might_contain :: "sstable \<Rightarrow> bytes \<Rightarrow> bool" where
  "bloom_might_contain t key = might_contain (sst_bloom t) key"

definition set_level :: "nat \<Rightarrow> sstable \<Rightarrow> sstable" where
  "set_level level t = t\<lparr>sst_level := level\<rparr>"

definition block_for_key :: "sstable \<Rightarrow> bytes \<Rightarrow> nat option" where
  "block_for_key t key =
     binary_search_by (\<lambda>e. if key < first_key e then Greater else if key > last_key e then Less else Equal)
       (sst_index t)"

definition load_block ::
  "sstable \<Rightarrow> nat \<Rightarrow> block_cache option \<Rightarrow> world \<Rightarrow> block_data result \<times> block_cache option" where
  "load_block t i cache w =
     andThen (index (sst_index t) i, cache) (\<lambda>e cache.
       let key = \<lparr>key_table_id = sst_id t, key_offset = ie_offset e\<rparr>;
           (hit, cache) = (case cache of
             Some c \<Rightarrow> (case cache_get key c of (hit, c) \<Rightarrow> (hit, Some c))
           | None \<Rightarrow> (None, None))
       in case hit of
            Some block \<Rightarrow> (Ok block, cache)
          | None \<Rightarrow>
              andThen (read_data_block (sst_path t) (ie_offset e) (ie_length e) w, cache) (\<lambda>block cache.
                (Ok block, map_option (cache_insert key block) cache)))"

definition search_block :: "block_data \<Rightarrow> bytes \<Rightarrow> entry option" where
  "search_block block key =
     (case binary_search_by (\<lambda>(k, _). cmp k key) block of Some i \<Rightarrow> Some (snd (block ! i)) | None \<Rightarrow> None)"

definition sst_get ::
  "sstable \<Rightarrow> bytes \<Rightarrow> block_cache option \<Rightarrow> world \<Rightarrow> entry option result \<times> block_cache option" where
  "sst_get t key cache w =
     (if \<not> contains_range t key then (Ok None, cache)
      else if \<not> might_contain (sst_bloom t) key then (Ok None, cache)
      else case block_for_key t key of
        None \<Rightarrow> (Ok None, cache)
      | Some block_idx \<Rightarrow>
          andThen (load_block t block_idx cache w) (\<lambda>block cache. (Ok (search_block block key), cache)))"

section \<open>The iterator\<close>

record sst_iterator =
  it_path :: string
  it_index :: "index_entry list"
  block_idx :: nat
  entry_idx :: nat
  current :: "(bytes \<times> entry) list"

definition load_next_block :: "world \<Rightarrow> sst_iterator \<Rightarrow> unit result \<times> sst_iterator" where
  "load_next_block w it =
     (let it = it\<lparr>current := [], entry_idx := 0\<rparr> in
      if block_idx it \<ge> length (it_index it) then (Ok (), it)
      else andThen (index (it_index it) (block_idx it), it) (\<lambda>e it.
           andThen (read_data_block (it_path it) (ie_offset e) (ie_length e) w, it) (\<lambda>block it.
             (Ok (), it\<lparr>current := block, block_idx := block_idx it + 1\<rparr>))))"

definition sst_iter :: "world \<Rightarrow> sstable \<Rightarrow> sst_iterator result" where
  "sst_iter w t =
     (case load_next_block w
        \<lparr>it_path = sst_path t, it_index = sst_index t, block_idx = 0, entry_idx = 0, current = []\<rparr> of
        (Ok _, it) \<Rightarrow> Ok it
      | (Err e, it) \<Rightarrow> Err e
      | (Panic, it) \<Rightarrow> Panic)"

lemma load_next_block_Ok:
  "load_next_block w it = (Ok u, it') \<Longrightarrow> block_idx it < length (it_index it) \<Longrightarrow>
     it_index it' = it_index it \<and> block_idx it' = Suc (block_idx it)"
  by (auto simp: load_next_block_def Let_def index_def andThen_eq_Ok)

function sst_next :: "world \<Rightarrow> sst_iterator \<Rightarrow> (bytes \<times> entry) result option \<times> sst_iterator" where
  "sst_next w it =
     (if entry_idx it < length (current it)
      then (Some (Ok (current it ! entry_idx it)), it\<lparr>entry_idx := entry_idx it + 1\<rparr>)
      else if block_idx it \<ge> length (it_index it) then (None, it)
      else case load_next_block w it of
        (Ok _, it) \<Rightarrow> sst_next w it
      | (Err e, it) \<Rightarrow> (Some (Err e), it)
      | (Panic, it) \<Rightarrow> (Some Panic, it))"
  by pat_completeness auto

termination
  by (relation "measure (\<lambda>(w, it). length (it_index it) - block_idx it)")
    (auto dest!: load_next_block_Ok [OF sym])

declare sst_next.simps [simp del]

text \<open>The number of entries an iterator can still give; a failed read ends it.\<close>

definition it_count :: "world \<Rightarrow> sst_iterator \<Rightarrow> nat" where
  "it_count w it =
     length (current it) - entry_idx it +
     sum_list (map (\<lambda>e. case read_data_block (it_path it) (ie_offset e) (ie_length e) w of
         Ok b \<Rightarrow> length b | _ \<Rightarrow> 0) (drop (block_idx it) (it_index it)))"

lemma load_next_block_count:
  assumes "load_next_block w it = (Ok u, it')" and "block_idx it < length (it_index it)"
    and "entry_idx it \<ge> length (current it)"
  shows "it_count w it' = it_count w it"
proof -
  have "drop (block_idx it) (it_index it) = it_index it ! block_idx it # drop (Suc (block_idx it)) (it_index it)"
    using assms(2) by (simp add: Cons_nth_drop_Suc)
  then show ?thesis
    using assms by (auto simp: load_next_block_def Let_def index_def it_count_def andThen_eq_Ok)
qed

lemma sst_next_count: "sst_next w it = (Some (Ok x), it') \<Longrightarrow> Suc (it_count w it') = it_count w it"
proof (induction w it arbitrary: x it' rule: sst_next.induct)
  case (1 w it)
  show ?case
  proof (cases "entry_idx it < length (current it)")
    case True
    then show ?thesis
      using 1(2) by (auto simp: sst_next.simps it_count_def)
  next
    case False
    with 1(2) have more: "\<not> length (it_index it) \<le> block_idx it"
      by (auto simp: sst_next.simps)
    obtain r it1 where load: "load_next_block w it = (r, it1)" by fastforce
    with 1(2) False more obtain u where r: "r = Ok u" and rest: "sst_next w it1 = (Some (Ok x), it')"
      by (cases r) (simp_all add: sst_next.simps [of w it])
    show ?thesis
      using 1(1) [OF False more _ _ rest] load r load_next_block_count [of w it u it1] False more by simp
  qed
qed

text \<open>\<^verbatim>\<open>iter().collect::<Result<Vec<_>>>()\<close>.\<close>

function sst_collect :: "world \<Rightarrow> sst_iterator \<Rightarrow> (bytes \<times> entry) list result" where
  "sst_collect w it =
     (case sst_next w it of
        (None, it) \<Rightarrow> Ok []
      | (Some (Ok x), it) \<Rightarrow> and_then (sst_collect w it) (\<lambda>xs. Ok (x # xs))
      | (Some (Err e), it) \<Rightarrow> Err e
      | (Some Panic, it) \<Rightarrow> Panic)"
  by pat_completeness auto

termination
  by (relation "measure (\<lambda>(w, it). it_count w it)") (auto dest: sst_next_count [OF sym])

declare sst_collect.simps [simp del]

section \<open>What a table holds\<close>

definition block_row :: "string \<Rightarrow> world \<Rightarrow> index_entry \<Rightarrow> (bytes \<times> entry) list \<Rightarrow> bool" where
  "block_row path w e b \<longleftrightarrow>
     read_data_block path (ie_offset e) (ie_length e) w = Ok b \<and>
     (b \<noteq> [] \<longrightarrow> first_key e = fst (hd b) \<and> last_key e = fst (last b))"

definition sst_blocks :: "sstable \<Rightarrow> (bytes \<times> entry) list list \<Rightarrow> world \<Rightarrow> bool" where
  "sst_blocks t bs w \<longleftrightarrow>
     list_all2 (block_row (sst_path t) w) (sst_index t) bs \<and> distinct (map ie_offset (sst_index t)) \<and>
     (if concat bs = [] then length bs = 1 \<and> smallest t = [] \<and> largest t = []
      else list_all (\<lambda>b. b \<noteq> []) bs \<and> smallest t = fst (hd (concat bs)) \<and> largest t = fst (last (concat bs)))"

definition sst_holds :: "sstable \<Rightarrow> (bytes \<times> entry) list \<Rightarrow> world \<Rightarrow> bool" where
  "sst_holds t es w \<longleftrightarrow>
     ksorted es \<and> [] \<notin> fst ` set es \<and> list_all (might_contain (sst_bloom t)) (map fst es) \<and>
     (\<exists>bs. es = concat bs \<and> sst_blocks t bs w)"

text \<open>Only the table's own file matters.\<close>

lemma read_data_block_cong:
  "map_option content (files w path) = map_option content (files w' path) \<Longrightarrow>
     read_data_block path off len w = read_data_block path off len w'"
  by (auto simp: read_data_block_def read_exact_at_def split: option.splits)

lemma sst_holds_cong:
  assumes "map_option content (files w (sst_path t)) = map_option content (files w' (sst_path t))"
  shows "sst_holds t es w \<longleftrightarrow> sst_holds t es w'"
proof -
  have "block_row (sst_path t) w = block_row (sst_path t) w'"
    by (simp add: fun_eq_iff block_row_def read_data_block_cong [OF assms])
  then show ?thesis
    by (simp add: sst_holds_def sst_blocks_def)
qed

lemma sst_holds_set_level [simp]: "sst_holds (set_level l t) es w = sst_holds t es w"
  by (simp add: sst_holds_def sst_blocks_def set_level_def)

section \<open>Iteration\<close>

text \<open>The entries an iterator has left to give.\<close>

definition it_yields :: "world \<Rightarrow> sst_iterator \<Rightarrow> (bytes \<times> entry) list \<Rightarrow> bool" where
  "it_yields w it es \<longleftrightarrow>
     (\<exists>bs. list_all2 (\<lambda>e b. read_data_block (it_path it) (ie_offset e) (ie_length e) w = Ok b)
        (drop (block_idx it) (it_index it)) bs \<and>
      es = drop (entry_idx it) (current it) @ concat bs)"

lemma it_yields_load:
  assumes "it_yields w it es" and "entry_idx it \<ge> length (current it)" and "block_idx it < length (it_index it)"
  obtains it' where "load_next_block w it = (Ok (), it')" and "it_yields w it' es"
proof -
  let ?e = "it_index it ! block_idx it"
  have idx: "drop (block_idx it) (it_index it) = ?e # drop (Suc (block_idx it)) (it_index it)"
    using assms(3) by (simp add: Cons_nth_drop_Suc)
  from assms(1) obtain bs where
      bs: "list_all2 (\<lambda>e b. read_data_block (it_path it) (ie_offset e) (ie_length e) w = Ok b)
        (drop (block_idx it) (it_index it)) bs" and es: "es = drop (entry_idx it) (current it) @ concat bs"
    by (auto simp: it_yields_def)
  from bs obtain b bs' where b: "bs = b # bs'" "read_data_block (it_path it) (ie_offset ?e) (ie_length ?e) w = Ok b"
    and bs': "list_all2 (\<lambda>e b. read_data_block (it_path it) (ie_offset e) (ie_length e) w = Ok b)
      (drop (Suc (block_idx it)) (it_index it)) bs'"
    by (auto simp: idx list_all2_Cons1)
  let ?it' = "it\<lparr>current := b, entry_idx := 0, block_idx := Suc (block_idx it)\<rparr>"
  have "load_next_block w it = (Ok (), ?it')"
    using assms(3) b(2) by (simp add: load_next_block_def index_def)
  moreover have "it_yields w ?it' es"
    using bs' es b(1) assms(2) by (auto simp: it_yields_def)
  ultimately show thesis
    by (rule that)
qed

lemma sst_next_yields:
  "it_yields w it es \<Longrightarrow>
     (case es of
        [] \<Rightarrow> \<exists>it'. sst_next w it = (None, it') \<and> it_yields w it' []
      | x # xs \<Rightarrow> \<exists>it'. sst_next w it = (Some (Ok x), it') \<and> it_yields w it' xs)"
proof (induction w it arbitrary: es rule: sst_next.induct)
  case (1 w it)
  show ?case
  proof (cases "entry_idx it < length (current it)")
    case True
    then have next_it: "sst_next w it = (Some (Ok (current it ! entry_idx it)), it\<lparr>entry_idx := entry_idx it + 1\<rparr>)"
      by (simp add: sst_next.simps)
    from 1(2) obtain bs where "list_all2 (\<lambda>e b. read_data_block (it_path it) (ie_offset e) (ie_length e) w = Ok b)
        (drop (block_idx it) (it_index it)) bs" "es = drop (entry_idx it) (current it) @ concat bs"
      by (auto simp: it_yields_def)
    then show ?thesis
      using True by (auto simp: next_it it_yields_def Cons_nth_drop_Suc [symmetric])
  next
    case False
    show ?thesis
    proof (cases "block_idx it \<ge> length (it_index it)")
      case True
      then have "es = []"
        using 1(2) False by (auto simp: it_yields_def)
      then show ?thesis
        using 1(2) True False by (simp add: sst_next.simps)
    next
      case more: False
      obtain it' where it': "load_next_block w it = (Ok (), it')" "it_yields w it' es"
        using it_yields_load [OF 1(2)] False more by (metis not_less)
      have "sst_next w it = sst_next w it'"
        using False more it' by (simp add: sst_next.simps [of w it])
      then show ?thesis
        using 1(1) [OF False more it'(1) [symmetric] refl it'(2)] by (simp only:)
    qed
  qed
qed

lemma sst_next_Nil: "it_yields w it [] \<Longrightarrow> fst (sst_next w it) = None"
  using sst_next_yields [of w it "[]"] by auto

lemma sst_next_Cons:
  assumes "it_yields w it (x # xs)"
  obtains it' where "sst_next w it = (Some (Ok x), it')" and "it_yields w it' xs"
  using sst_next_yields [OF assms] by auto

lemma sst_iter_yields:
  assumes "sst_holds t es w"
  obtains it where "sst_iter w t = Ok it" and "it_yields w it es"
proof -
  let ?it = "\<lparr>it_path = sst_path t, it_index = sst_index t, block_idx = 0, entry_idx = 0, current = []\<rparr>"
  obtain bs where es: "es = concat bs"
      and bs: "list_all2 (block_row (sst_path t) w) (sst_index t) bs" and ne: "bs \<noteq> []"
    using assms by (fastforce simp: sst_holds_def sst_blocks_def split: if_splits)
  have y: "it_yields w ?it es"
    unfolding it_yields_def using es list_all2_mono [OF bs]
    by (intro exI [of _ bs]) (auto simp: block_row_def)
  have "0 < length (sst_index t)"
    using bs ne by (simp add: list_all2_lengthD)
  then obtain it' where "load_next_block w ?it = (Ok (), it')" "it_yields w it' es"
    using it_yields_load [OF y] by auto
  then show thesis
    by (intro that) (simp_all add: sst_iter_def)
qed

lemma sst_collect_yields: "it_yields w it es \<Longrightarrow> sst_collect w it = Ok es"
proof (induction es arbitrary: it)
  case Nil
  then show ?case
    using sst_next_Nil [OF Nil] by (auto simp: sst_collect.simps [of w it] split: prod.splits)
next
  case (Cons x es)
  then obtain it' where "sst_next w it = (Some (Ok x), it')" "it_yields w it' es"
    using sst_next_Cons by blast
  then show ?case
    using Cons.IH by (simp add: sst_collect.simps [of w it])
qed

section \<open>Lookup\<close>

lemma concat_nth_split: "i < length bs \<Longrightarrow> concat bs = concat (take i bs) @ bs ! i @ concat (drop (Suc i) bs)"
  by (metis concat.simps(2) concat_append id_take_nth_drop)

lemma ksorted_hd_last:
  assumes "ksorted b" and "(k, e) \<in> set b"
  shows "fst (hd b) \<le> k" and "k \<le> fst (last b)"
proof -
  have ne: "b \<noteq> []" using assms(2) by auto
  obtain i where i: "i < length b" "b ! i = (k, e)"
    using assms(2) by (auto simp: in_set_conv_nth)
  have lt: "i' < j \<Longrightarrow> j < length b \<Longrightarrow> fst (b ! i') < fst (b ! j)" for i' j
    using sorted_wrt_nth_less [OF assms(1), of i' j] by simp
  show "fst (hd b) \<le> k"
    using lt [of 0 i] i ne by (cases "i = 0") (auto simp: hd_conv_nth)
  show "k \<le> fst (last b)"
  proof (cases "i < length b - 1")
    case True
    then show ?thesis
      using lt [of i "length b - 1"] i ne by (simp add: last_conv_nth)
  next
    case False
    then have "i = length b - 1" using i(1) by linarith
    then show ?thesis
      using i ne by (simp add: last_conv_nth)
  qed
qed

text \<open>The keys of a block lie between the keys of its index row, and no other block has keys there.\<close>

lemma concat_block_lookup:
  assumes "ksorted (concat bs)" and "i < length bs" and "bs ! i \<noteq> []"
    and "fst (hd (bs ! i)) \<le> k" and "k \<le> fst (last (bs ! i))"
  shows "map_of (concat bs) k = map_of (bs ! i) k"
proof -
  let ?b = "bs ! i" and ?pre = "concat (take i bs)" and ?post = "concat (drop (Suc i) bs)"
  have sorted: "ksorted (?pre @ ?b @ ?post)"
    using assms(1) concat_nth_split [OF assms(2)] by simp
  have "a < fst (hd ?b)" if "(a, e) \<in> set ?pre" for a e
    using sorted that hd_in_set [OF assms(3)] by (fastforce simp: sorted_wrt_append)
  then have pre: "map_of ?pre k = None"
    using assms(4) by (fastforce simp: map_of_eq_None_iff)
  have "fst (last ?b) < a" if "(a, e) \<in> set ?post" for a e
    using sorted that last_in_set [OF assms(3)] by (fastforce simp: sorted_wrt_append)
  then have post: "map_of ?post k = None"
    using assms(5) by (fastforce simp: map_of_eq_None_iff)
  have "map_of (concat bs) k = map_of (?pre @ ?b @ ?post) k"
    by (rule arg_cong [OF concat_nth_split [OF assms(2)]])
  then show ?thesis
    using pre post by (simp add: map_add_def split: option.splits)
qed

lemma ksorted_concat_nth: "ksorted (concat bs) \<Longrightarrow> i < length bs \<Longrightarrow> ksorted (bs ! i)"
  by (simp add: concat_nth_split sorted_wrt_append)

lemma search_block_eq:
  assumes "ksorted b"
  shows "search_block b key = map_of b key"
proof (cases "binary_search_by (\<lambda>(k, _). cmp k key) b")
  case None
  then have "cmp (fst (b ! i)) key \<noteq> Equal" if "i < length b" for i
    using search_None [OF searchable_sorted [OF assms] None that] by (simp add: split_def)
  then have "key \<notin> fst ` set b"
    by (force simp: in_set_conv_nth cmp_def)
  with None show ?thesis
    using map_of_eq_None_iff [of b key] by (simp add: search_block_def)
next
  case (Some i)
  then have "i < length b" and "cmp (fst (b ! i)) key = Equal"
    using search_Some [OF searchable_sorted [OF assms] Some] by (simp_all add: split_def)
  then have "(key, snd (b ! i)) \<in> set b"
    by (auto simp: cmp_def in_set_conv_nth split: if_splits)
  with Some show ?thesis
    by (metis ksorted_map_of [OF assms] option.case(2) search_block_def)
qed

definition key_cmp :: "bytes \<Rightarrow> index_entry \<Rightarrow> ordering" where
  "key_cmp key e = (if key < first_key e then Greater else if key > last_key e then Less else Equal)"

lemma block_for_key_eq: "block_for_key t key = binary_search_by (key_cmp key) (sst_index t)"
  unfolding block_for_key_def key_cmp_def [abs_def] by (rule refl)

lemma searchable_index:
  assumes rows: "list_all2 (block_row path w) idx bs" and ne: "list_all (\<lambda>b. b \<noteq> []) bs"
    and sorted: "ksorted (concat bs)"
  shows "searchable (key_cmp key) idx"
  unfolding searchable_def
proof (intro allI impI)
  fix i j
  assume ij: "i < j" "j < length idx"
  have len: "length idx = length bs"
    using rows by (rule list_all2_lengthD)
  have row: "first_key (idx ! n) = fst (hd (bs ! n))" "last_key (idx ! n) = fst (last (bs ! n))" "bs ! n \<noteq> []"
    if "n < length bs" for n
    using list_all2_nthD2 [OF rows that] ne that by (auto simp: block_row_def list_all_length)
  have own: "fst (hd (bs ! n)) \<le> fst (last (bs ! n))" if "n < length bs" for n
    using ksorted_hd_last(2) [OF ksorted_concat_nth [OF sorted that], of "fst (hd (bs ! n))" "snd (hd (bs ! n))"]
      row(3) [OF that] by simp
  have "bs ! j = drop (Suc i) bs ! (j - Suc i)"
    using ij len by simp
  then have "bs ! j \<in> set (drop (Suc i) bs)"
    using ij len by (metis diff_less_mono length_drop less_eq_Suc_le nth_mem)
  then have "hd (bs ! j) \<in> set (concat (drop (Suc i) bs))"
    using ij len row(3) [of j] hd_in_set by fastforce
  moreover have "last (bs ! i) \<in> set (bs ! i)"
    using ij len row(3) [of i] by simp
  ultimately have "fst (last (bs ! i)) < fst (hd (bs ! j))"
    using sorted concat_nth_split [of i bs] ij len by (fastforce simp: sorted_wrt_append)
  then show "(key_cmp key (idx ! j) = Less \<longrightarrow> key_cmp key (idx ! i) = Less) \<and>
      (key_cmp key (idx ! i) = Greater \<longrightarrow> key_cmp key (idx ! j) = Greater)"
    using row(1,2) [of i] row(1,2) [of j] own [of i] own [of j] ij len by (auto simp: key_cmp_def)
qed

text \<open>The block a lookup goes to decides it.\<close>

lemma block_for_key_lookup:
  assumes blocks: "sst_blocks t bs w" and sorted: "ksorted (concat bs)" and ne: "concat bs \<noteq> []"
  shows "case block_for_key t key of
      Some i \<Rightarrow> i < length (sst_index t) \<and> i < length bs \<and> map_of (concat bs) key = map_of (bs ! i) key
    | None \<Rightarrow> map_of (concat bs) key = None"
proof -
  have rows: "list_all2 (block_row (sst_path t) w) (sst_index t) bs" and nes: "list_all (\<lambda>b. b \<noteq> []) bs"
    using blocks ne by (simp_all add: sst_blocks_def)
  have len: "length (sst_index t) = length bs"
    using rows by (rule list_all2_lengthD)
  have row: "first_key (sst_index t ! n) = fst (hd (bs ! n))" "last_key (sst_index t ! n) = fst (last (bs ! n))"
    "bs ! n \<noteq> []" if "n < length bs" for n
    using list_all2_nthD2 [OF rows that] nes that by (auto simp: block_row_def list_all_length)
  note search = searchable_index [OF rows nes sorted, of key]
  show ?thesis
  proof (cases "block_for_key t key")
    case None
    then have miss: "key_cmp key (sst_index t ! n) \<noteq> Equal" if "n < length bs" for n
      using search_None [OF search] that len by (simp add: block_for_key_eq)
    have "key \<notin> fst ` set (concat bs)"
    proof
      assume "key \<in> fst ` set (concat bs)"
      then obtain e b where "b \<in> set bs" "(key, e) \<in> set b"
        by auto
      then obtain n where n: "n < length bs" "(key, e) \<in> set (bs ! n)"
        by (metis in_set_conv_nth)
      then show False
        using ksorted_hd_last [OF ksorted_concat_nth [OF sorted n(1)] n(2)] miss [of n] row(1,2) [of n] n(1)
        by (simp add: key_cmp_def not_less [symmetric] split: if_splits)
    qed
    then show ?thesis
      using None by (simp add: map_of_eq_None_iff)
  next
    case (Some i)
    then have i: "i < length bs" "key_cmp key (sst_index t ! i) = Equal"
      using search_Some [OF search] len by (simp_all add: block_for_key_eq)
    then have "map_of (concat bs) key = map_of (bs ! i) key"
      using row [OF i(1)]
      by (intro concat_block_lookup [OF sorted]) (auto simp: key_cmp_def not_less split: if_splits)
    with Some i len show ?thesis
      by simp
  qed
qed

section \<open>Lookup through the cache\<close>

text \<open>
  What the cache may hold in front of the tables \<open>T\<close>: under the id and the offset of a block of one of
  them, that block.
\<close>

definition block_store :: "sstable set \<Rightarrow> world \<Rightarrow> block_key \<Rightarrow> block_data \<Rightarrow> bool" where
  "block_store T w k b \<longleftrightarrow>
     (\<forall>t \<in> T. \<forall>e \<in> set (sst_index t). sst_id t = key_table_id k \<longrightarrow> ie_offset e = key_offset k \<longrightarrow>
        read_data_block (sst_path t) (ie_offset e) (ie_length e) w = Ok b)"

abbreviation cache_coherent :: "sstable set \<Rightarrow> world \<Rightarrow> block_cache \<Rightarrow> bool" where
  "cache_coherent T w \<equiv> block_cache.coherent (block_store T w)"

lemma block_store_read:
  assumes t: "t \<in> T" and e: "e \<in> set (sst_index t)" and inj: "inj_on sst_id T"
    and dist: "distinct (map ie_offset (sst_index t))"
    and read: "read_data_block (sst_path t) (ie_offset e) (ie_length e) w = Ok b"
  shows "block_store T w \<lparr>key_table_id = sst_id t, key_offset = ie_offset e\<rparr> b"
  unfolding block_store_def
proof (intro ballI impI)
  fix t' e'
  assume "t' \<in> T" and e': "e' \<in> set (sst_index t')"
    and "sst_id t' = key_table_id \<lparr>key_table_id = sst_id t, key_offset = ie_offset e\<rparr>"
    and off: "ie_offset e' = key_offset \<lparr>key_table_id = sst_id t, key_offset = ie_offset e\<rparr>"
  then have "t' = t"
    using t inj by (auto dest: inj_onD)
  moreover from this have "e' = e"
    using e e' off dist by (auto simp: distinct_map dest: inj_onD)
  ultimately show "read_data_block (sst_path t') (ie_offset e') (ie_length e') w = Ok b"
    using read by simp
qed

text \<open>A cache contract \<open>P\<close> serves a table when it fixes the block under each of the table's keys.\<close>

definition serves :: "(block_key \<Rightarrow> block_data \<Rightarrow> bool) \<Rightarrow> sstable \<Rightarrow> world \<Rightarrow> bool" where
  "serves P t w \<longleftrightarrow>
     (\<forall>e \<in> set (sst_index t). \<forall>b. read_data_block (sst_path t) (ie_offset e) (ie_length e) w = Ok b \<longrightarrow>
        P \<lparr>key_table_id = sst_id t, key_offset = ie_offset e\<rparr> b \<and>
        (\<forall>d. P \<lparr>key_table_id = sst_id t, key_offset = ie_offset e\<rparr> d \<longrightarrow> d = b))"

lemma block_store_serves:
  assumes "sst_holds t es w" and t: "t \<in> T" and inj: "inj_on sst_id T"
  shows "serves (block_store T w) t w"
proof -
  have dist: "distinct (map ie_offset (sst_index t))"
    using assms(1) by (auto simp: sst_holds_def sst_blocks_def)
  show ?thesis
    unfolding serves_def
  proof (intro ballI allI impI conjI)
    fix e b d
    assume e: "e \<in> set (sst_index t)" and read: "read_data_block (sst_path t) (ie_offset e) (ie_length e) w = Ok b"
    then show "block_store T w \<lparr>key_table_id = sst_id t, key_offset = ie_offset e\<rparr> b"
      by (intro block_store_read [OF t _ inj dist])
    assume "block_store T w \<lparr>key_table_id = sst_id t, key_offset = ie_offset e\<rparr> d"
    then show "d = b"
      using t e read unfolding block_store_def by force
  qed
qed

fun opt_coherent :: "(block_key \<Rightarrow> block_data \<Rightarrow> bool) \<Rightarrow> block_cache option \<Rightarrow> bool" where
  "opt_coherent P None = True"
| "opt_coherent P (Some c) = block_cache.coherent P c"

lemma load_block_spec:
  assumes serves: "serves P t w" and coh: "opt_coherent P cache" and i: "i < length (sst_index t)"
    and read: "read_data_block (sst_path t) (ie_offset (sst_index t ! i)) (ie_length (sst_index t ! i)) w = Ok b"
  shows "\<exists>cache'. load_block t i cache w = (Ok b, cache') \<and> opt_coherent P cache' \<and> (cache' = None) = (cache = None)"
proof -
  let ?e = "sst_index t ! i"
  let ?k = "\<lparr>key_table_id = sst_id t, key_offset = ie_offset ?e\<rparr>"
  have e: "?e \<in> set (sst_index t)" using i by simp
  then have store: "P ?k b" and only: "P ?k d \<Longrightarrow> d = b" for d
    using serves read unfolding serves_def by blast+
  show ?thesis
  proof (cases cache)
    case None
    then show ?thesis
      using i read by (simp add: load_block_def index_def)
  next
    case (Some c)
    obtain hit c' where get: "cache_get ?k c = (hit, c')" by fastforce
    have coh': "block_cache.coherent P c'" and hit: "hit = Some d \<Longrightarrow> d = b" for d
      using block_cache.coherent_get [OF _ get] coh only Some by auto
    have "block_cache.coherent P (cache_insert ?k b c')"
      using block_cache.coherent_insert [OF coh' store] .
    then show ?thesis
      using Some get coh' hit i read
      by (cases hit) (auto simp: load_block_def index_def Let_def)
  qed
qed

text \<open>A lookup in a table is a lookup in its entries, with any coherent cache or none.\<close>

lemma sst_get_holds:
  assumes holds: "sst_holds t es w" and serves: "serves P t w" and coh: "opt_coherent P cache"
  shows "\<exists>cache'. sst_get t key cache w = (Ok (map_of es key), cache') \<and> opt_coherent P cache' \<and>
    (cache' = None) = (cache = None)"
proof -
  obtain bs where es: "es = concat bs" and blocks: "sst_blocks t bs w" and sorted: "ksorted es"
      and filter: "list_all (might_contain (sst_bloom t)) (map fst es)" and nonempty: "[] \<notin> fst ` set es"
    using holds by (auto simp: sst_holds_def)
  have out: "key \<notin> fst ` set es" if "\<not> contains_range t key"
  proof
    assume "key \<in> fst ` set es"
    then obtain e where e: "(key, e) \<in> set es" by auto
    then have ne: "es \<noteq> []" by auto
    then have "smallest t = fst (hd es)" "largest t = fst (last es)"
      using blocks by (simp_all add: sst_blocks_def es [symmetric])
    moreover have "fst (hd es) \<noteq> []"
      using nonempty hd_in_set [OF ne] by force
    ultimately show False
      using that ksorted_hd_last [OF sorted e] by (simp add: contains_range_def)
  qed
  have skip: "key \<notin> fst ` set es" if "\<not> might_contain (sst_bloom t) key"
    using filter that by (auto simp: list_all_iff)
  show ?thesis
  proof (cases "contains_range t key \<and> might_contain (sst_bloom t) key")
    case False
    then have "map_of es key = None"
      using out skip by (auto simp: map_of_eq_None_iff)
    then show ?thesis
      using False coh by (auto simp: sst_get_def)
  next
    case True
    have "length (sst_index t) = length bs"
      using blocks list_all2_lengthD unfolding sst_blocks_def by blast
    with True have ne: "concat bs \<noteq> []"
      using blocks unfolding contains_range_def sst_blocks_def by (metis (no_types))
    note found = block_for_key_lookup [OF blocks sorted [unfolded es] ne, of key]
    show ?thesis
    proof (cases "block_for_key t key")
      case None
      then show ?thesis
        using True found coh by (simp add: sst_get_def es)
    next
      case (Some i)
      then have i: "i < length (sst_index t)" "i < length bs" "map_of es key = map_of (bs ! i) key"
        using found by (simp_all add: es)
      have "block_row (sst_path t) w (sst_index t ! i) (bs ! i)"
        using blocks i by (auto simp: sst_blocks_def dest: list_all2_nthD)
      then have read: "read_data_block (sst_path t) (ie_offset (sst_index t ! i)) (ie_length (sst_index t ! i)) w = Ok (bs ! i)"
        by (simp add: block_row_def)
      have "search_block (bs ! i) key = map_of es key"
        using search_block_eq [OF ksorted_concat_nth [OF sorted [unfolded es] i(2)]] i(3) by simp
      then show ?thesis
        using load_block_spec [OF serves coh i(1) read] True Some by (auto simp: sst_get_def)
    qed
  qed
qed

section \<open>The contents of a table\<close>

definition sst_entries :: "world \<Rightarrow> sstable \<Rightarrow> (bytes \<times> entry) list" where
  "sst_entries w t = (case and_then (sst_iter w t) (sst_collect w) of Ok es \<Rightarrow> es | _ \<Rightarrow> [])"

definition sst_ok :: "world \<Rightarrow> sstable \<Rightarrow> bool" where
  "sst_ok w t \<longleftrightarrow> sst_holds t (sst_entries w t) w"

lemma sst_entries_eq: "sst_holds t es w \<Longrightarrow> sst_entries w t = es"
  by (metis and_then.simps(1) result.case(1) sst_collect_yields sst_entries_def sst_iter_yields)

lemma sst_holds_ok: "sst_holds t es w \<Longrightarrow> sst_ok w t"
  by (simp add: sst_ok_def sst_entries_eq)

lemma sst_ok_ksorted: "sst_ok w t \<Longrightarrow> ksorted (sst_entries w t)"
  by (simp add: sst_ok_def sst_holds_def)

lemma sst_ok_cong:
  assumes "sst_ok w t" and "map_option content (files w (sst_path t)) = map_option content (files w' (sst_path t))"
  shows "sst_ok w' t" and "sst_entries w' t = sst_entries w t"
proof -
  have "sst_holds t (sst_entries w t) w'"
    using assms sst_holds_cong [OF assms(2)] by (simp add: sst_ok_def)
  then show "sst_ok w' t" "sst_entries w' t = sst_entries w t"
    by (simp_all add: sst_holds_ok sst_entries_eq)
qed

lemma sst_ok_set_level [simp]: "sst_ok w (set_level l t) = sst_ok w t"
  and sst_entries_set_level [simp]: "sst_entries w (set_level l t) = sst_entries w t"
proof -
  have "sst_iter w (set_level l t) = sst_iter w t"
    by (simp add: sst_iter_def set_level_def)
  then show "sst_entries w (set_level l t) = sst_entries w t"
    by (simp add: sst_entries_def)
  then show "sst_ok w (set_level l t) = sst_ok w t"
    by (simp add: sst_ok_def)
qed

text \<open>The keys of a table lie in its range, and an empty range means no keys.\<close>

definition table_empty :: "sstable \<Rightarrow> bool" where
  "table_empty t \<longleftrightarrow> smallest t = [] \<and> largest t = []"

lemma sst_ok_range:
  assumes "sst_ok w t" and "map_of (sst_entries w t) k = Some e"
  shows "\<not> table_empty t" and "smallest t \<le> k" and "k \<le> largest t"
proof -
  let ?es = "sst_entries w t"
  obtain bs where sorted: "ksorted ?es" and nonempty: "[] \<notin> fst ` set ?es" and es: "?es = concat bs"
      and blocks: "sst_blocks t bs w"
    using assms(1) by (auto simp: sst_ok_def sst_holds_def)
  have ke: "(k, e) \<in> set ?es"
    using assms(2) by (rule map_of_SomeD)
  then have ne: "?es \<noteq> []" by auto
  have range: "smallest t = fst (hd ?es)" "largest t = fst (last ?es)"
    using blocks ne by (simp_all add: sst_blocks_def es [symmetric])
  show "smallest t \<le> k" "k \<le> largest t"
    using ksorted_hd_last [OF sorted ke] range by simp_all
  show "\<not> table_empty t"
    using nonempty hd_in_set [OF ne] range(1) by (force simp: table_empty_def)
qed

lemma sst_ok_nonempty_key: "sst_ok w t \<Longrightarrow> map_of (sst_entries w t) [] = None"
  by (simp add: sst_ok_def sst_holds_def map_of_eq_None_iff)

text \<open>The table's range has keys at its ends.\<close>

lemma sst_ok_ends:
  assumes "sst_ok w t" and "\<not> table_empty t"
  shows "smallest t \<in> fst ` set (sst_entries w t)" and "largest t \<in> fst ` set (sst_entries w t)"
    and "smallest t \<le> largest t"
proof -
  let ?es = "sst_entries w t"
  obtain bs where sorted: "ksorted ?es" and es: "?es = concat bs" and blocks: "sst_blocks t bs w"
    using assms(1) by (auto simp: sst_ok_def sst_holds_def)
  have ne: "?es \<noteq> []"
    using assms(2) blocks unfolding sst_blocks_def es table_empty_def by metis
  have range: "smallest t = fst (hd ?es)" "largest t = fst (last ?es)"
    using blocks ne by (simp_all add: sst_blocks_def es [symmetric])
  show "smallest t \<in> fst ` set ?es" "largest t \<in> fst ` set ?es"
    using range ne by simp_all
  show "smallest t \<le> largest t"
    using ksorted_hd_last(2) [OF sorted, of "fst (hd ?es)" "snd (hd ?es)"] range ne by simp
qed

section \<open>File names\<close>

lemma table_file_name_inject [simp]: "table_file_name a = table_file_name b \<longleftrightarrow> a = b"
  by (simp add: table_file_name_def pad_decimal_inject) (metis unsigned_word_eqI)

lemma table_file_name_hd: "\<exists>c s. table_file_name i = c # s \<and> is_digit c"
proof -
  have "pad_zeros 6 (decimal (unat i)) \<noteq> []"
    by (simp add: pad_zeros_def)
  then show ?thesis
    using digits_pad [of 6 "unat i"] by (cases "pad_zeros 6 (decimal (unat i))") (auto simp: table_file_name_def)
qed

lemma table_file_name_not_tmp [simp]: "\<not> suffix ''.tmp'' (table_file_name i)"
  by (simp add: table_file_name_def suffix_to_prefix)

lemma tmp_path_suffix [simp]: "suffix ''.tmp'' (tmp_path p)"
  by (simp add: tmp_path_def suffix_def)

lemma table_file_name_neq_tmp [simp]: "table_file_name i \<noteq> tmp_path p" "tmp_path p \<noteq> table_file_name i"
  using table_file_name_not_tmp tmp_path_suffix by metis+

lemma tmp_path_inject [simp]: "tmp_path p = tmp_path q \<longleftrightarrow> p = q"
  by (simp add: tmp_path_def)

end
