(* ===== verification/SsTable_Create.thy ===== *)
theory SsTable_Create
  imports SsTable Wal_Record
begin

text \<open>
  What \<^verbatim>\<open>SsTable::create\<close> writes and what \<^verbatim>\<open>SsTable::open\<close> reads back. The writer loop is shown equal to
  a function that cuts the sorted entries into blocks; the file is the blocks, the index, the filter and
  the footer one after the other.

  The lengths in the file are 32 and 64 bits wide. \<open>table_fits\<close> collects what keeps them exact: entries
  within the limits of the engine, fewer than \<open>2^32\<close> of them, a block size of at most \<open>2^31\<close>, and a Bloom
  filter of less than \<open>2^32\<close> bytes.
\<close>

section \<open>Cutting the entries into blocks\<close>

abbreviation enc_all :: "(bytes \<times> entry) list \<Rightarrow> bytes" where
  "enc_all b \<equiv> concat (map entry_enc b)"

fun blocks_of ::
  "nat \<Rightarrow> (bytes \<times> entry) list \<Rightarrow> (bytes \<times> entry) list \<Rightarrow> (bytes \<times> entry) list list \<times> (bytes \<times> entry) list" where
  "blocks_of sz pend [] = ([], pend)"
| "blocks_of sz pend (ke # kes) =
     (if sz \<le> length (enc_all (pend @ [ke]))
      then let (bs, p) = blocks_of sz [] kes in ((pend @ [ke]) # bs, p)
      else blocks_of sz (pend @ [ke]) kes)"

definition table_blocks :: "nat \<Rightarrow> (bytes \<times> entry) list \<Rightarrow> (bytes \<times> entry) list list" where
  "table_blocks sz es = (let (bs, p) = blocks_of sz [] es in if p \<noteq> [] \<or> bs = [] then bs @ [p] else bs)"

definition index_row :: "nat \<Rightarrow> (bytes \<times> entry) list \<Rightarrow> index_entry" where
  "index_row off b =
     \<lparr>first_key = (if b = [] then [] else fst (hd b)), last_key = (if b = [] then [] else fst (last b)),
      ie_offset = as_u64 off, ie_length = as_u32 (length (block.sealed b))\<rparr>"

fun index_rows :: "nat \<Rightarrow> (bytes \<times> entry) list list \<Rightarrow> index_entry list" where
  "index_rows off [] = []"
| "index_rows off (b # bs) = index_row off b # index_rows (off + length (block.sealed b)) bs"

abbreviation data_bytes :: "(bytes \<times> entry) list list \<Rightarrow> bytes" where
  "data_bytes bs \<equiv> concat (map block.sealed bs)"

lemma index_rows_snoc:
  "index_rows off (bs @ [b]) = index_rows off bs @ [index_row (off + length (data_bytes bs)) b]"
  by (induction bs arbitrary: off) (simp_all add: add.assoc)

lemma length_index_rows [simp]: "length (index_rows off bs) = length bs"
  by (induction bs arbitrary: off) simp_all

lemma index_rows_Nil_iff [simp]: "index_rows off bs = [] \<longleftrightarrow> bs = []"
  by (cases bs) simp_all

lemma length_entry_enc: "9 \<le> length (entry_enc ke)"
  by (cases "snd ke") simp_all

lemma length_enc_all: "9 * length b \<le> length (enc_all b)"
proof (induction b)
  case (Cons ke b)
  then show ?case using length_entry_enc [of ke] by simp
qed simp

section \<open>The writer loop\<close>

definition writer_of :: "(bytes \<times> entry) list list \<Rightarrow> (bytes \<times> entry) list \<Rightarrow> table_writer" where
  "writer_of bs pend =
     \<lparr>tw_index = index_rows 0 bs, block_buf = enc_all pend,
      block_first = (if pend = [] then None else Some (fst (hd pend))),
      block_last = (if pend = [] then [] else fst (last pend)),
      block_count = as_u32 (length pend), tw_offset = as_u64 (length (data_bytes bs))\<rparr>"

definition world_of :: "string \<Rightarrow> world \<Rightarrow> bytes \<Rightarrow> world" where
  "world_of tmp w c = set_file tmp \<lparr>content = c, durable = 0\<rparr> w"

lemma file_append_world_of [simp]: "file_append tmp bs (world_of tmp w c) = world_of tmp w (c @ bs)"
  by (simp add: world_of_def io_defs)

lemma writer_new_eq: "writer_new = writer_of [] []"
  by (simp add: writer_new_def writer_of_def)

lemma ucast_as_u32: "n < 2 ^ 32 \<Longrightarrow> ucast (as_u32 n) = as_u64 n"
  by (simp add: unsigned_of_nat take_bit_nat_eq_self)

lemma close_block_eq:
  assumes "length (block.sealed pend) < 2 ^ 32"
  shows "close_block tmp (writer_of bs pend, world_of tmp w (data_bytes bs)) =
    (Ok (), writer_of (bs @ [pend]) [], world_of tmp w (data_bytes (bs @ [pend])))"
proof -
  have "flush_data_block tmp (enc_all pend) (as_u32 (length pend)) (world_of tmp w (data_bytes bs)) =
      (Ok (as_u32 (length (block.sealed pend))), world_of tmp w (data_bytes (bs @ [pend])))"
    by (simp add: flush_data_block_eq)
  then show ?thesis
    using assms
    by (simp add: close_block_def writer_of_def index_rows_snoc index_row_def ucast_as_u32)
qed

lemma write_entry_eq:
  assumes sealed: "length (block.sealed (pend @ [ke])) < 2 ^ 32"
  shows "write_entry tmp sz ke (writer_of bs pend, world_of tmp w (data_bytes bs)) =
    (if sz \<le> length (enc_all (pend @ [ke]))
     then (Ok (), writer_of (bs @ [pend @ [ke]]) [], world_of tmp w (data_bytes (bs @ [pend @ [ke]])))
     else (Ok (), writer_of bs (pend @ [ke]), world_of tmp w (data_bytes bs)))"
proof -
  obtain k e where ke: "ke = (k, e)" by fastforce
  have "length pend + 1 < 2 ^ 32"
    using length_enc_all [of "pend @ [ke]"] sealed by (simp add: block.length_sealed)
  then have pos: "as_u32 (length pend) + 1 > 0"
    using unat_as_u32 [of "length pend + 1"] by (simp add: word_less_nat_alt add.commute)
  let ?t = "writer_of bs (pend @ [ke])"
  have "write_entry tmp sz ke (writer_of bs pend, world_of tmp w (data_bytes bs)) =
    (if sz \<le> length (enc_all (pend @ [ke])) then close_block tmp (?t, world_of tmp w (data_bytes bs))
     else (Ok (), ?t, world_of tmp w (data_bytes bs)))"
    using pos
    by (simp add: write_entry_def writer_of_def ke Let_def encode_entry_append [of "enc_all pend"] add.commute)
  then show ?thesis
    using close_block_eq [OF sealed, of tmp bs w] by simp
qed

definition entry_limits :: "bytes \<times> entry \<Rightarrow> bool" where
  "entry_limits ke \<longleftrightarrow> length (fst ke) \<le> MAX_KEY_SIZE \<and> value_len (snd ke) \<le> MAX_VALUE_SIZE"

lemma length_entry_enc_limits: "entry_limits ke \<Longrightarrow> length (entry_enc ke) < 2 ^ 27"
  by (cases "snd ke") (simp_all add: entry_limits_def record_consts)

lemma entry_limits_fits: "entry_limits ke \<Longrightarrow> entry_fits ke"
  by (simp add: entry_limits_def entry_fits_def record_consts)

lemma sealed_small:
  assumes "length (enc_all pend) \<le> sz" and "sz \<le> 2 ^ 31" and "entry_limits ke"
  shows "length (block.sealed (pend @ [ke])) < 2 ^ 32"
  using assms length_entry_enc_limits [OF assms(3)] by (simp add: block.length_sealed)

lemma write_entries_eq:
  assumes "list_all entry_limits kes" and "sz \<le> 2 ^ 31" and "length (enc_all pend) \<le> sz"
  shows "write_entries tmp sz kes (writer_of bs pend, world_of tmp w (data_bytes bs)) =
    (case blocks_of sz pend kes of (bs', pend') \<Rightarrow>
      (Ok (), writer_of (bs @ bs') pend', world_of tmp w (data_bytes (bs @ bs'))))"
  using assms
proof (induction sz pend kes arbitrary: bs rule: blocks_of.induct)
  case (1 sz pend)
  then show ?case by simp
next
  case (2 sz pend ke kes)
  have small: "length (block.sealed (pend @ [ke])) < 2 ^ 32"
    using 2(3-) by (intro sealed_small) simp_all
  show ?case
  proof (cases "sz \<le> length (enc_all (pend @ [ke]))")
    case True
    then have "write_entries tmp sz (ke # kes) (writer_of bs pend, world_of tmp w (data_bytes bs)) =
        write_entries tmp sz kes (writer_of (bs @ [pend @ [ke]]) [], world_of tmp w (data_bytes (bs @ [pend @ [ke]])))"
      using small by (simp add: write_entry_eq del: map_append concat_append)
    then show ?thesis
      using 2(1) [OF True, of "bs @ [pend @ [ke]]"] 2(3,4) True
      by (simp del: map_append concat_append split: prod.splits)
  next
    case False
    then show ?thesis
      using 2(2) [OF False] 2(3,4) small by (simp add: write_entry_eq del: map_append concat_append)
  qed
qed

lemma blocks_of_spec:
  assumes "blocks_of sz pend kes = (bs, p)" and "list_all entry_limits kes" and "sz \<le> 2 ^ 31"
    and "length (enc_all pend) \<le> sz"
  shows "concat bs @ p = pend @ kes" and "list_all (\<lambda>b. b \<noteq> [] \<and> length (block.sealed b) < 2 ^ 32) bs"
    and "length (enc_all p) \<le> sz"
  using assms
proof (atomize (full), induction sz pend kes arbitrary: bs p rule: blocks_of.induct)
  case (1 sz pend)
  then show ?case by simp
next
  case (2 sz pend ke kes)
  have small: "length (block.sealed (pend @ [ke])) < 2 ^ 32"
    using 2(4-) by (intro sealed_small) simp_all
  show ?case
  proof (cases "sz \<le> length (enc_all (pend @ [ke]))")
    case True
    then obtain bs' where "blocks_of sz [] kes = (bs', p)" "bs = (pend @ [ke]) # bs'"
      using 2(3) by (auto split: prod.splits)
    then show ?thesis
      using 2(1) [OF True, of bs' p] 2(4,5) small by simp
  next
    case False
    then show ?thesis
      using 2(2) [OF False, of bs p] 2(3-) by simp
  qed
qed

lemma write_blocks_eq:
  assumes "list_all entry_limits es" and "sz \<le> 2 ^ 31"
  shows "write_blocks tmp sz es (world_of tmp w []) =
    (Ok (), writer_of (table_blocks sz es) [], world_of tmp w (data_bytes (table_blocks sz es)))"
proof -
  obtain bs p where r: "blocks_of sz [] es = (bs, p)" by fastforce
  have p: "length (enc_all p) \<le> sz"
    using blocks_of_spec(3) [OF r assms] by simp
  then have count: "length p < 2 ^ 32"
    using length_enc_all [of p] assms(2) by simp
  have "block_count (writer_of bs p) > 0 \<longleftrightarrow> p \<noteq> []"
    using unat_as_u32 [OF count] by (auto simp: word_less_nat_alt writer_of_def)
  moreover have "tw_index (writer_of bs p) = [] \<longleftrightarrow> bs = []"
    by (cases bs) (simp_all add: writer_of_def)
  moreover have "length (block.sealed p) < 2 ^ 32"
    using p assms(2) by (simp add: block.length_sealed)
  moreover have "write_entries tmp sz es (writer_new, world_of tmp w []) =
      (Ok (), writer_of bs p, world_of tmp w (data_bytes bs))"
    using write_entries_eq [OF assms, of "[]" tmp "[]" w] r by (simp add: writer_new_eq)
  ultimately show ?thesis
    using close_block_eq [of p tmp bs w]
    by (auto simp: write_blocks_def table_blocks_def r simp del: map_append concat_append)
qed

section \<open>The blocks of a table\<close>

lemma table_blocks_spec:
  assumes "list_all entry_limits es" and "sz \<le> 2 ^ 31"
  shows "concat (table_blocks sz es) = es"
    and "list_all (\<lambda>b. length (block.sealed b) < 2 ^ 32) (table_blocks sz es)"
    and "if es = [] then table_blocks sz es = [[]] else list_all (\<lambda>b. b \<noteq> []) (table_blocks sz es)"
proof -
  obtain bs p where r: "blocks_of sz [] es = (bs, p)" by fastforce
  note sp = blocks_of_spec [OF r assms]
  have "length (block.sealed p) < 2 ^ 32"
    using sp(3) assms(2) by (simp add: block.length_sealed)
  then show "list_all (\<lambda>b. length (block.sealed b) < 2 ^ 32) (table_blocks sz es)"
    using sp(2) by (auto simp: table_blocks_def r list_all_iff)
  show "concat (table_blocks sz es) = es"
    using sp(1) by (auto simp: table_blocks_def r)
  show "if es = [] then table_blocks sz es = [[]] else list_all (\<lambda>b. b \<noteq> []) (table_blocks sz es)"
    using sp(1,2) by (auto simp: table_blocks_def r list_all_iff)
qed

lemma length_table_blocks:
  assumes "list_all entry_limits es" and "sz \<le> 2 ^ 31"
  shows "length (table_blocks sz es) \<le> max 1 (length es)"
proof -
  have le: "length bs \<le> length (concat bs)" if "list_all (\<lambda>b. b \<noteq> []) bs" for bs :: "(bytes \<times> entry) list list"
    using that
  proof (induction bs)
    case (Cons b bs)
    then show ?case by (cases b) auto
  qed simp
  show ?thesis
    using table_blocks_spec(1,3) [OF assms] le [of "table_blocks sz es"] by (cases "es = []") simp_all
qed

text \<open>A block is read back from the place its row names.\<close>

lemma read_data_block_at:
  assumes "files w path = Some x" and "content x = pre @ block.sealed b @ post"
    and "length pre < 2 ^ 64" and "length (block.sealed b) < 2 ^ 32" and "list_all entry_limits b"
  shows "read_data_block path (as_u64 (length pre)) (as_u32 (length (block.sealed b))) w = Ok b"
proof -
  have "list_all entry_fits b"
    using assms(5) entry_limits_fits by (auto simp: list_all_iff)
  moreover have "length b < 2 ^ 32"
    using assms(4) length_enc_all [of b] by (simp add: block.length_sealed)
  ultimately have "decode_block (block.sealed b) = Ok b"
    by (rule block.unseal_sealed)
  moreover have "read_exact_at path (length pre) (length (block.sealed b)) w = Ok (block.sealed b)"
    using assms(1,2) by (simp add: read_exact_at_def)
  ultimately show ?thesis
    using assms(3,4) by (simp only: read_data_block_def unat_as_u64 unat_as_u32 and_then.simps)
qed

lemma index_rows_hold:
  assumes "files w path = Some x" and "content x = pre @ data_bytes bs @ post"
    and "length (pre @ data_bytes bs) < 2 ^ 64"
    and "list_all (\<lambda>b. length (block.sealed b) < 2 ^ 32) bs" and "list_all entry_limits (concat bs)"
  shows "list_all2 (block_row path w) (index_rows (length pre) bs) bs"
  using assms(2-)
proof (induction bs arbitrary: pre)
  case (Cons b bs)
  have "block_row path w (index_row (length pre) b) b"
    using read_data_block_at [OF assms(1), of pre b "data_bytes bs @ post"] Cons.prems
    by (simp add: block_row_def index_row_def)
  then show ?case
    using Cons.IH [of "pre @ block.sealed b"] Cons.prems by simp
qed simp

lemma index_rows_distinct:
  assumes "off + length (data_bytes bs) < 2 ^ 64"
  shows "distinct (map ie_offset (index_rows off bs))"
  using assms
proof (induction bs arbitrary: off)
  case (Cons b bs)
  have later: "off' \<le> unat (ie_offset e)" if "e \<in> set (index_rows off' bs')" "off' + length (data_bytes bs') < 2 ^ 64"
    for e off' bs'
    using that
  proof (induction bs' arbitrary: off')
    case (Cons c cs)
    have "unat (as_u64 off') = off'"
      using Cons.prems by (intro unat_as_u64) simp
    then show ?case
      using Cons by (fastforce simp: index_row_def)
  qed simp
  have "unat (as_u64 off) = off"
    using Cons.prems by (intro unat_as_u64) simp
  then have "as_u64 off \<noteq> ie_offset e" if "e \<in> set (index_rows (off + length (block.sealed b)) bs)" for e
    using later [OF that] Cons.prems by (auto simp: block.length_sealed)
  then show ?case
    using Cons by (auto simp: index_row_def)
qed simp

section \<open>Sizes\<close>

definition table_fits :: "f64_math \<Rightarrow> rat \<Rightarrow> nat \<Rightarrow> (bytes \<times> entry) list \<Rightarrow> bool" where
  "table_fits fl fp sz es \<longleftrightarrow>
     list_all entry_limits es \<and> length es < 2 ^ 32 \<and> sz \<le> 2 ^ 31 \<and>
     length (bits (bloom_new fl (max (length es) 1) fp)) < 2 ^ 32"

lemma sum_list_bound: "(\<And>x. x \<in> set xs \<Longrightarrow> f x \<le> B) \<Longrightarrow> sum_list (map f xs) \<le> length xs * (B :: nat)"
  by (induction xs) (auto simp: add_mono)

lemma length_data_bytes: "length (data_bytes bs) = 8 * length bs + length (enc_all (concat bs))"
  by (induction bs) (simp_all add: block.length_sealed)

lemma index_rows_keys:
  assumes "e \<in> set (index_rows off bs)" and "list_all entry_limits (concat bs)"
  shows "length (first_key e) \<le> MAX_KEY_SIZE \<and> length (last_key e) \<le> MAX_KEY_SIZE"
  using assms
proof (induction bs arbitrary: off)
  case (Cons b bs)
  have "length (fst (hd b)) \<le> MAX_KEY_SIZE \<and> length (fst (last b)) \<le> MAX_KEY_SIZE" if "b \<noteq> []"
    using that Cons.prems(2) by (simp add: list_all_iff entry_limits_def)
  then show ?case
    using Cons by (auto simp: index_row_def)
qed simp

lemma table_sizes:
  assumes fits: "table_fits fl fp sz es" and bs: "bs = table_blocks sz es"
  shows "length (data_bytes bs) < 2 ^ 60" and "length (encode_index (index_rows 0 bs)) < 2 ^ 52"
    and "length bs < 2 ^ 32" and "concat bs = es"
    and "list_all (\<lambda>b. length (block.sealed b) < 2 ^ 32) bs"
proof -
  have f: "list_all entry_limits es" "sz \<le> 2 ^ 31" "length es < 2 ^ 32"
    using fits by (simp_all add: table_fits_def)
  show c: "concat bs = es" and "list_all (\<lambda>b. length (block.sealed b) < 2 ^ 32) bs"
    using table_blocks_spec [OF f(1,2)] bs by simp_all
  have len: "length bs \<le> length es + 1"
    using length_table_blocks [OF f(1,2)] bs by simp
  show "length bs < 2 ^ 32"
    using length_table_blocks [OF f(1,2)] bs f(3) by simp
  have "sum_list (map (length \<circ> entry_enc) es) \<le> length es * 2 ^ 27"
    using f(1) length_entry_enc_limits by (intro sum_list_bound) (force simp: list_all_iff)
  then have "length (enc_all es) \<le> length es * 2 ^ 27"
    by (simp add: length_concat comp_def)
  then show "length (data_bytes bs) < 2 ^ 60"
    using len f(3) by (simp add: length_data_bytes c)
  have "sum_list (map (length \<circ> encode_index_entry) (index_rows 0 bs)) \<le> length (index_rows 0 bs) * 2 ^ 18"
  proof (rule sum_list_bound)
    fix e
    assume "e \<in> set (index_rows 0 bs)"
    then show "(length \<circ> encode_index_entry) e \<le> 2 ^ 18"
      using index_rows_keys [of e 0 bs] f(1) c by (simp add: encode_index_entry_def MAX_KEY_SIZE_def)
  qed
  then show "length (encode_index (index_rows 0 bs)) < 2 ^ 52"
    using len f(3) by (simp add: encode_index_eq index.length_sealed length_concat comp_def)
qed

section \<open>The file\<close>

definition table_image :: "(bytes \<times> entry) list list \<Rightarrow> bloom \<Rightarrow> bytes" where
  "table_image bs bloom =
     (let data = data_bytes bs; idx = encode_index (index_rows 0 bs); bl = bloom_encode bloom
      in data @ idx @ bl @
         encode_footer (as_u64 (length data)) (as_u64 (length idx)) (as_u64 (length data) + as_u64 (length idx))
           (as_u64 (length bl)))"

definition table_of :: "string \<Rightarrow> u64 \<Rightarrow> (bytes \<times> entry) list list \<Rightarrow> bloom \<Rightarrow> sstable" where
  "table_of path tid bs bloom =
     \<lparr>sst_id = tid, sst_path = path, sst_index = index_rows 0 bs, sst_bloom = bloom,
      smallest = (if concat bs = [] then [] else fst (hd (concat bs))),
      largest = (if concat bs = [] then [] else fst (last (concat bs))),
      size_bytes = as_u64 (length (table_image bs bloom)), sst_level = 0\<rparr>"

lemma length_footer [simp]: "length (encode_footer a b c d) = 48"
  by (simp add: encode_footer_def Let_def)

text \<open>\<^verbatim>\<open>create\<close> on every branch: an armed failpoint stops it with at most the temporary file touched.\<close>

lemma sst_create_cases:
  assumes fits: "table_fits fl fp sz es" and sorted: "ksorted es"
    and bloom: "bloom_insert_all (map fst es) (bloom_new fl (max (length es) 1) fp) = Ok bloom"
  shows "sst_create fl path tid es fp sz w =
    (let bs = table_blocks sz es; tmp = tmp_path path; written = world_of tmp w (table_image bs bloom) in
     if failpoint w = Some SsTableWrite
     then (Err (other_error ''injected SSTable write failure''), w\<lparr>failpoint := None\<rparr>)
     else if failpoint w = Some SsTableSync
     then (Err (other_error ''injected SSTable sync failure''), written\<lparr>failpoint := None\<rparr>)
     else if failpoint w = Some Rename
     then (Err (other_error ''injected rename failure''), (file_sync tmp written)\<lparr>failpoint := None\<rparr>)
     else (Ok (table_of path tid bs bloom), file_rename tmp path (file_sync tmp written)))"
proof -
  let ?bs = "table_blocks sz es" and ?tmp = "tmp_path path"
  have f: "list_all entry_limits es" "sz \<le> 2 ^ 31"
    using fits by (simp_all add: table_fits_def)
  have coll: "sort_key fst es = es"
    using ksorted_sorted [OF sorted] by (rule sort_key_id_if_sorted)
  have c: "concat ?bs = es"
    by (rule table_blocks_spec [OF f])
  have blocks: "write_blocks ?tmp sz es (open_truncate ?tmp w) =
      (Ok (), writer_of ?bs [], world_of ?tmp w (data_bytes ?bs))"
    using write_blocks_eq [OF f, of ?tmp w] by (simp add: world_of_def open_truncate_def empty_file_def)
  have tw: "tw_offset (writer_of ?bs []) = as_u64 (length (data_bytes ?bs))"
    "tw_index (writer_of ?bs []) = index_rows 0 ?bs"
    by (simp_all add: writer_of_def)
  have fp: "failpoint (world_of ?tmp w b) = failpoint w" "failpoint (file_sync ?tmp v) = failpoint v" for b v
    by (simp_all add: world_of_def io_defs Let_def)
  have size: "length (content (file_of path (file_rename ?tmp path (file_sync ?tmp (world_of ?tmp w b))))) = length b" for b
    by (simp add: world_of_def io_defs tmp_path_def Let_def)
  have small: "(case es of [] \<Rightarrow> [] | ke # _ \<Rightarrow> fst ke) = (if es = [] then [] else fst (hd es))"
    by (cases es) simp_all
  show ?thesis
    unfolding sst_create_def Let_def coll bloom andThen.simps should_fail_def
    by (simp add: blocks tw fp size small table_image_def table_of_def c Let_def)
qed

section \<open>What the file holds\<close>

lemma bloom_for_table:
  obtains bloom where "bloom_insert_all (map fst es) (bloom_new fl n fp) = Ok bloom"
    and "list_all (might_contain bloom) (map fst es)" and "bloom_inv bloom"
    and "length (bits bloom) = length (bits (bloom_new fl n fp))"
  using bloom.no_false_negatives [OF bloom_new_inv, of "map fst es" fl n fp]
    bloom_insert_all_length [OF bloom_new_inv] by (auto simp: list_all_iff)

lemma table_image_holds:
  assumes fits: "table_fits fl fp sz es" and sorted: "ksorted es" and ne: "[] \<notin> fst ` set es"
    and filter: "list_all (might_contain bloom) (map fst es)"
    and x: "files w path = Some x" "content x = table_image (table_blocks sz es) bloom"
  shows "sst_holds (table_of path tid (table_blocks sz es) bloom) es w"
proof -
  let ?bs = "table_blocks sz es"
  note sizes = table_sizes [OF fits refl]
  have f: "list_all entry_limits es" "sz \<le> 2 ^ 31"
    using fits by (simp_all add: table_fits_def)
  have "\<exists>post. content x = [] @ data_bytes ?bs @ post"
    using x(2) by (simp add: table_image_def Let_def)
  then have "list_all2 (block_row path w) (index_rows (length ([] :: bytes)) ?bs) ?bs"
    using sizes f by (elim exE, intro index_rows_hold [OF x(1)]) auto
  moreover have "distinct (map ie_offset (index_rows 0 ?bs))"
    using sizes(1) by (intro index_rows_distinct) simp
  moreover have "if es = [] then ?bs = [[]] else list_all (\<lambda>b. b \<noteq> []) ?bs"
    by (rule table_blocks_spec [OF f])
  ultimately have "sst_blocks (table_of path tid ?bs bloom) ?bs w"
    using sizes(4) by (auto simp: sst_blocks_def table_of_def)
  then show ?thesis
    using sorted ne filter sizes(4) unfolding sst_holds_def
    by (intro conjI exI [of _ ?bs]) (simp_all add: table_of_def)
qed

lemma footer_reads:
  fixes a b c d :: u64
  defines "f \<equiv> encode_footer a b c d"
  shows "read_u32_at 44 48 f = Ok MAGIC" "read_u32_at 40 44 f = Ok (crc32 (take 40 f))" "slice 0 40 f = Ok (take 40 f)"
    "read_u32_at 32 36 f = Ok FORMAT_VERSION" "read_u64_at 0 8 f = Ok a" "read_u64_at 8 16 f = Ok b"
    "read_u64_at 16 24 f = Ok c" "read_u64_at 24 32 f = Ok d"
proof -
  let ?h = "u64_le a @ u64_le b @ u64_le c @ u64_le d @ u32_le FORMAT_VERSION @ u32_le 0"
  have f: "f = ?h @ u32_le (crc32 ?h) @ u32_le MAGIC" "take 40 f = ?h"
    by (simp_all add: f_def encode_footer_def Let_def)
  have len: "length f = 48" by (simp add: f_def)
  show "read_u32_at 40 44 f = Ok (crc32 (take 40 f))"
    unfolding f(2) using len by (simp add: result_simps) (simp add: f(1))
  show "read_u32_at 44 48 f = Ok MAGIC" "slice 0 40 f = Ok (take 40 f)"
    "read_u32_at 32 36 f = Ok FORMAT_VERSION" "read_u64_at 0 8 f = Ok a" "read_u64_at 8 16 f = Ok b"
    "read_u64_at 16 24 f = Ok c" "read_u64_at 24 32 f = Ok d"
    using len by (simp_all add: result_simps) (simp_all add: f(1))
qed

lemma last_index_rows: "bs \<noteq> [] \<Longrightarrow> last_key (last (index_rows off bs)) = (if last bs = [] then [] else fst (last (last bs)))"
  by (induction bs arbitrary: off) (auto simp: index_row_def)

lemma last_concat: "bs \<noteq> [] \<Longrightarrow> last bs \<noteq> [] \<Longrightarrow> last (concat bs) = last (last bs)"
  by (induction bs) (auto simp: last_append)

lemma not_add_exceeds:
  assumes "unat a + unat b \<le> unat (bound :: u64)"
  shows "\<not> add_exceeds a b bound"
proof -
  have "unat bound < 2 ^ 64"
    using unsigned_less [of bound] by simp
  then have lt: "unat a + unat b < 2 ^ 64"
    using assms by simp
  then have "unat (a + b) = unat a + unat b"
    by (simp add: unat_word_ariths)
  with assms lt show ?thesis
    by (simp add: add_exceeds_def word_less_nat_alt)
qed

lemma sst_open_image:
  assumes fits: "table_fits fl fp sz es" and bloom: "bloom_inv bloom" "length (bits bloom) < 2 ^ 32"
    and x: "files w path = Some x" "content x = table_image (table_blocks sz es) bloom"
    and path: "\<not> suffix ''.tmp'' path"
  shows "sst_open path tid w = Ok (table_of path tid (table_blocks sz es) bloom)"
proof -
  let ?bs = "table_blocks sz es"
  let ?data = "data_bytes ?bs" and ?idx = "encode_index (index_rows 0 ?bs)" and ?bl = "bloom_encode bloom"
  let ?foot = "encode_footer (as_u64 (length ?data)) (as_u64 (length ?idx))
      (as_u64 (length ?data) + as_u64 (length ?idx)) (as_u64 (length ?bl))"
  have c: "content x = ?data @ ?idx @ ?bl @ ?foot"
    using x(2) by (simp add: table_image_def Let_def)
  note sizes = table_sizes [OF fits refl]
  have bl: "length ?bl < 2 ^ 33"
    using bloom(2) by (simp add: length_bloom_encode)
  have total: "length (content x) < 2 ^ 62"
    using sizes(1,2) bl by (simp add: c)
  have f: "list_all entry_limits es" "sz \<le> 2 ^ 31"
    using fits by (simp_all add: table_fits_def)
  have small: "length (content x) < 2 ^ 64" "length ?data < 2 ^ 64" "length ?idx < 2 ^ 64" "length ?bl < 2 ^ 64"
    "length ?data + length ?idx < 2 ^ 64"
    using sizes(1,2) bl total by simp_all
  have sum: "as_u64 (length ?data) + as_u64 (length ?idx) = as_u64 (length ?data + length ?idx)"
    by (simp only: of_nat_add)
  note u = small [THEN unat_as_u64, folded sum]
  have reads: "read_exact_at path (length (content x) - 48) 48 w = Ok ?foot"
    "read_exact_at path (length ?data) (length ?idx) w = Ok ?idx"
    "read_exact_at path (length ?data + length ?idx) (length ?bl) w = Ok ?bl"
    using x(1) by (simp_all add: read_exact_at_def c)
  have idx: "decode_index ?idx = Ok (index_rows 0 ?bs)"
    unfolding encode_index_eq
  proof (rule index.unseal_sealed)
    show "list_all index_entry_fits (index_rows 0 ?bs)"
      using index_rows_keys [of _ 0 ?bs] f(1) sizes(4)
      by (fastforce simp: list_all_iff index_entry_fits_def MAX_KEY_SIZE_def)
    show "length (index_rows 0 ?bs) < 2 ^ 32"
      using sizes(3) by simp
  qed
  have bloom_ok: "bloom_decode ?bl = Ok bloom"
    by (rule bloom_decode_encode [OF bloom])
  have bnd: "\<not> add_exceeds (as_u64 (length ?data)) (as_u64 (length ?idx)) (as_u64 (length (content x)))"
    "\<not> add_exceeds (as_u64 (length ?data) + as_u64 (length ?idx)) (as_u64 (length ?bl)) (as_u64 (length (content x)))"
    by (rule not_add_exceeds, simp only: u, simp add: c)+
  have size48: "\<not> as_u64 (length (content x)) < as_u64 48"
    unfolding word_less_nat_alt u by (simp add: c)
  have hd_idx: "(case index_rows 0 ?bs of [] \<Rightarrow> [] | e # _ \<Rightarrow> first_key e) = (if es = [] then [] else fst (hd es))"
    using table_blocks_spec(1,3) [OF f] by (cases ?bs) (auto simp: index_row_def split: if_splits)
  have last_idx: "(if index_rows 0 ?bs = [] then [] else last_key (last (index_rows 0 ?bs))) =
      (if es = [] then [] else fst (last es))"
  proof (cases "es = []")
    case True
    then show ?thesis
      using table_blocks_spec(3) [OF f] by (simp add: index_row_def)
  next
    case False
    then have ne: "?bs \<noteq> []"
      using table_blocks_spec(1) [OF f] by (metis concat.simps(1))
    with False have "last ?bs \<noteq> []"
      using table_blocks_spec(3) [OF f] last_in_set [of ?bs] by (simp add: list_all_iff)
    note ne = ne this
    show ?thesis
      using False ne last_concat [OF ne] sizes(4) by (simp add: last_index_rows)
  qed
  have "sst_open path tid w = Ok \<lparr>sst_id = tid, sst_path = path, sst_index = index_rows 0 ?bs, sst_bloom = bloom,
      smallest = (if es = [] then [] else fst (hd es)), largest = (if es = [] then [] else fst (last es)),
      size_bytes = as_u64 (length (content x)), sst_level = 0\<rparr>"
    unfolding sst_open_def Let_def FOOTER_LEN_def
    by (simp only: path x(1) option.case size48 u reads and_then.simps footer_reads bnd idx bloom_ok hd_idx last_idx
        if_False if_True simp_thms)
  then show ?thesis
    by (simp add: table_of_def sizes(4) x(2))
qed

section \<open>Creating a table\<close>

lemma tmp_path_neq [simp]: "tmp_path path \<noteq> path" "path \<noteq> tmp_path path"
  by (simp_all add: tmp_path_def)

lemma sst_create_Ok:
  assumes fits: "table_fits fl fp sz es" and sorted: "ksorted es" and ne: "[] \<notin> fst ` set es"
    and create: "sst_create fl path tid es fp sz w = (Ok t, w')"
  obtains bloom x where "t = table_of path tid (table_blocks sz es) bloom" and "bloom_inv bloom"
    and "length (bits bloom) < 2 ^ 32" and "list_all (might_contain bloom) (map fst es)"
    and "files w' = (files w)(path := Some x, tmp_path path := None)" and "failpoint w' = failpoint w"
    and "content x = table_image (table_blocks sz es) bloom" and "durable x = length (content x)"
proof -
  obtain bloom where bloom: "bloom_insert_all (map fst es) (bloom_new fl (max (length es) 1) fp) = Ok bloom"
    "list_all (might_contain bloom) (map fst es)" "bloom_inv bloom"
    "length (bits bloom) = length (bits (bloom_new fl (max (length es) 1) fp))"
    by (rule bloom_for_table)
  let ?c = "table_image (table_blocks sz es) bloom"
  have "t = table_of path tid (table_blocks sz es) bloom"
    and w': "w' = file_rename (tmp_path path) path (file_sync (tmp_path path) (world_of (tmp_path path) w ?c))"
    using create sst_create_cases [OF fits sorted bloom(1), of path tid w] by (auto simp: Let_def split: if_splits)
  moreover have "files w' = (files w)(path := Some \<lparr>content = ?c, durable = length ?c\<rparr>, tmp_path path := None)"
    "failpoint w' = failpoint w"
    by (auto simp: w' fun_eq_iff world_of_def)
  ultimately show thesis
    using bloom fits by (intro that [where x = "\<lparr>content = ?c, durable = length ?c\<rparr>"]) (simp_all add: table_fits_def)
qed

lemma sst_create_holds:
  assumes fits: "table_fits fl fp sz es" and sorted: "ksorted es" and ne: "[] \<notin> fst ` set es"
    and create: "sst_create fl path tid es fp sz w = (Ok t, w')"
  shows "sst_holds t es w'" and "sst_id t = tid" and "sst_path t = path" and "sst_level t = 0"
    and "failpoint w' = failpoint w"
    and "f \<noteq> path \<Longrightarrow> f \<noteq> tmp_path path \<Longrightarrow> files w' f = files w f"
    and "\<exists>x. files w' path = Some x \<and> durable x = length (content x)"
proof -
  obtain bloom x where t: "t = table_of path tid (table_blocks sz es) bloom" "list_all (might_contain bloom) (map fst es)"
    and x: "files w' = (files w)(path := Some x, tmp_path path := None)" "failpoint w' = failpoint w"
      "content x = table_image (table_blocks sz es) bloom" "durable x = length (content x)"
    by (rule sst_create_Ok [OF assms]) blast
  have "files w' path = Some x"
    by (simp add: x(1))
  then show "sst_holds t es w'" "\<exists>x. files w' path = Some x \<and> durable x = length (content x)"
    using table_image_holds [OF fits sorted ne t(2) _ x(3)] t(1) x(4) by auto
  show "sst_id t = tid" "sst_path t = path" "sst_level t = 0" "failpoint w' = failpoint w"
    using t(1) x(2) by (simp_all add: table_of_def)
  show "f \<noteq> path \<Longrightarrow> f \<noteq> tmp_path path \<Longrightarrow> files w' f = files w f"
    by (simp add: x(1))
qed

lemma sst_create_reopens:
  assumes fits: "table_fits fl fp sz es" and sorted: "ksorted es" and ne: "[] \<notin> fst ` set es"
    and create: "sst_create fl path tid es fp sz w = (Ok t, w')" and path: "\<not> suffix ''.tmp'' path"
    and same: "map_option content (files v path) = map_option content (files w' path)"
  shows "sst_open path tid v = Ok t"
proof -
  obtain bloom x where t: "t = table_of path tid (table_blocks sz es) bloom" "bloom_inv bloom"
      "length (bits bloom) < 2 ^ 32"
    and x: "files w' = (files w)(path := Some x, tmp_path path := None)" "content x = table_image (table_blocks sz es) bloom"
    by (rule sst_create_Ok [OF fits sorted ne create]) blast
  then obtain y where "files v path = Some y" "content y = table_image (table_blocks sz es) bloom"
    using same by (auto simp: map_option_eq_Some)
  then show ?thesis
    using sst_open_image [OF fits t(2,3) _ _ path] t(1) by simp
qed

lemma sst_create_Err:
  assumes fits: "table_fits fl fp sz es" and sorted: "ksorted es"
    and create: "sst_create fl path tid es fp sz w = (Err e, w')"
  shows "failpoint w \<in> {Some SsTableWrite, Some SsTableSync, Some Rename}" and "failpoint w' = None"
    and "f \<noteq> tmp_path path \<Longrightarrow> files w' f = files w f"
proof -
  obtain bloom where "bloom_insert_all (map fst es) (bloom_new fl (max (length es) 1) fp) = Ok bloom"
    by (rule bloom_for_table)
  note cases = sst_create_cases [OF fits sorted this, of path tid w]
  show "failpoint w \<in> {Some SsTableWrite, Some SsTableSync, Some Rename}" "failpoint w' = None"
    "f \<noteq> tmp_path path \<Longrightarrow> files w' f = files w f"
    using create cases by (auto simp: Let_def world_of_def split: if_splits)
qed

lemma sst_create_not_Panic:
  assumes fits: "table_fits fl fp sz es" and sorted: "ksorted es"
  shows "fst (sst_create fl path tid es fp sz w) \<noteq> Panic"
proof -
  obtain bloom where "bloom_insert_all (map fst es) (bloom_new fl (max (length es) 1) fp) = Ok bloom"
    by (rule bloom_for_table)
  from sst_create_cases [OF fits sorted this, of path tid w] show ?thesis
    by (simp add: Let_def)
qed

lemma sst_create_clear:
  assumes fits: "table_fits fl fp sz es" and sorted: "ksorted es"
    and "failpoint w \<notin> {Some SsTableWrite, Some SsTableSync, Some Rename}"
  obtains t w' where "sst_create fl path tid es fp sz w = (Ok t, w')"
  using sst_create_Err(1) [OF fits sorted, of path tid w] sst_create_not_Panic [OF fits sorted, of path tid w] assms(3)
  by (cases "sst_create fl path tid es fp sz w"; cases "fst (sst_create fl path tid es fp sz w)") auto

section \<open>Opening any file\<close>

lemma read_exact_at_length: "read_exact_at f off n w = Ok bs \<Longrightarrow> length bs = n"
  by (auto simp: read_exact_at_def split: option.splits if_splits)

lemma read_exact_at_not_Panic: "read_exact_at f off n w \<noteq> Panic"
  by (auto simp: read_exact_at_def split: option.splits)

lemma read_data_block_not_Panic: "read_data_block path off len w \<noteq> Panic"
  by (auto simp: read_data_block_def and_then_eq_Panic read_exact_at_not_Panic block.unseal_not_Panic)

text \<open>
  C25: opening a table never panics, whatever the file holds: every slice of the footer, of the index and
  of the filter that the parser takes lies inside the bytes it read.
\<close>

theorem sst_open_never_panics: "sst_open path tid w \<noteq> Panic"
proof -
  have foot: "read_u32_at a (a + 4) f \<noteq> Panic" "read_u64_at b (b + 8) f \<noteq> Panic" "slice 0 40 f \<noteq> Panic"
    if "length f = 48" "a + 4 \<le> 48" "b + 8 \<le> 48" for f a b
    using that by (simp_all add: result_simps)
  have "read_u32_at 44 48 f \<noteq> Panic" "read_u32_at 40 44 f \<noteq> Panic" "read_u32_at 32 36 f \<noteq> Panic"
    "slice 0 40 f \<noteq> Panic" "read_u64_at 0 8 f \<noteq> Panic" "read_u64_at 8 16 f \<noteq> Panic"
    "read_u64_at 16 24 f \<noteq> Panic" "read_u64_at 24 32 f \<noteq> Panic" if "length f = 48" for f
    using foot [OF that, of 44 0] foot [OF that, of 40 8] foot [OF that, of 32 16] foot [OF that, of 32 24] by simp_all
  then show ?thesis
    unfolding sst_open_def Let_def FOOTER_LEN_def
    by (auto simp: and_then_eq_Panic read_exact_at_not_Panic index.unseal_not_Panic bloom_decode_not_Panic
        dest: read_exact_at_length split: option.splits if_splits)
qed

text \<open>
  Damage to the index is detected. If any single byte of an encoded index is changed, decoding it
  reports a checksum error.
\<close>

lemma index_detects_corruption:
  assumes "i < length (encode_index idx)" and "b \<noteq> encode_index idx ! i"
  shows "decode_index ((encode_index idx)[i := b]) = Err InvalidChecksum"
  using assms unfolding encode_index_eq by (rule index.unseal_detects)

section \<open>Properties\<close>

text \<open>
  C22: a new table answers every lookup. After \<^verbatim>\<open>create\<close> wrote sorted entries with non-empty keys, \<^verbatim>\<open>get\<close> returns
  for every key exactly the entry that was written, or nothing, both without a cache and through any cache
  that is coherent with the file, and keeps the cache coherent.
\<close>

theorem sst_create_then_get:
  assumes "table_fits fl fp sz es" and "sorted_wrt (<) (map fst es)" and "[] \<notin> fst ` set es"
    and "failpoint w = None"
  shows "\<exists>t w'. sst_create fl path tid es fp sz w = (Ok t, w') \<and>
    (\<forall>key. fst (sst_get t key None w') = Ok (map_of es key)) \<and>
    (\<forall>key c. cache_coherent {t} w' c \<longrightarrow>
       (\<exists>c'. sst_get t key (Some c) w' = (Ok (map_of es key), Some c') \<and> cache_coherent {t} w' c'))"
proof -
  obtain t w' where create: "sst_create fl path tid es fp sz w = (Ok t, w')"
    using sst_create_clear [OF assms(1,2), of w path tid] assms(4) by auto
  note holds = sst_create_holds(1) [OF assms(1-3) create]
  note get = sst_get_holds [OF holds block_store_serves [OF holds, of "{t}"]]
  have "fst (sst_get t key None w') = Ok (map_of es key)" for key
    using get [of None key] by auto
  moreover have "\<exists>c'. sst_get t key (Some c) w' = (Ok (map_of es key), Some c') \<and> cache_coherent {t} w' c'"
    if "cache_coherent {t} w' c" for key c
    using get [of "Some c" key] that by auto
  ultimately show ?thesis
    using create by blast
qed

definition example_entries :: "(bytes \<times> entry) list" where
  "example_entries = [([97], Value [1]), ([98], Tombstone)]"

lemma example_fits: "table_fits f64_example (1 / 100) 256 example_entries"
  by (simp add: table_fits_def example_entries_def entry_limits_def record_consts bloom_new_def f64_example_def)

lemma example_sorted: "sorted_wrt (<) (map fst example_entries)" "[] \<notin> fst ` set example_entries"
  by (simp_all add: example_entries_def)

theorem sst_create_then_get_witness:
  "\<exists>t w'. sst_create f64_example ''000001.sst'' 1 example_entries (1 / 100) 256 empty_world = (Ok t, w') \<and>
     fst (sst_get t [97] None w') = Ok (Some (Value [1])) \<and> fst (sst_get t [99] None w') = Ok None"
proof -
  have "map_of example_entries [97] = Some (Value [1])" "map_of example_entries [99] = None"
    by (simp_all add: example_entries_def)
  moreover have "failpoint empty_world = None"
    by (simp add: empty_world_def)
  ultimately show ?thesis
    using sst_create_then_get [OF example_fits example_sorted, of empty_world "''000001.sst''" 1] by metis
qed

text \<open>
  C23: a finished table survives a crash. Once \<^verbatim>\<open>create\<close> returned, the file reopens after any crash to the
  very same table, and iterating over it gives back the entries in key order.
\<close>

theorem sst_crash_reopen:
  assumes "table_fits fl fp sz es" and "sorted_wrt (<) (map fst es)" and "[] \<notin> fst ` set es"
    and "sst_create fl path tid es fp sz w = (Ok t, w')" and "\<not> suffix ''.tmp'' path"
    and "crash_keeps keep w'"
  shows "sst_open path tid (crash keep w') = Ok t \<and>
    and_then (sst_iter (crash keep w') t) (sst_collect (crash keep w')) = Ok es"
proof -
  obtain x where x: "files w' path = Some x" "durable x = length (content x)"
    using sst_create_holds(7) [OF assms(1-4)] by blast
  then have same: "files (crash keep w') path = Some x"
    by (intro crash_durable [OF assms(6)])
  have "sst_holds t es (crash keep w')"
    using sst_holds_cong [of w' t "crash keep w'" es] sst_create_holds(1,3) [OF assms(1-4)] same x(1)
    by (simp del: files_crash)
  then obtain it where "sst_iter (crash keep w') t = Ok it" "it_yields (crash keep w') it es"
    by (rule sst_iter_yields)
  then show ?thesis
    using sst_create_reopens [OF assms(1-5), of "crash keep w'"] same x(1)
    by (simp add: sst_collect_yields del: files_crash)
qed

theorem sst_crash_reopen_witness:
  "\<exists>t w'. sst_create f64_example ''000001.sst'' 1 example_entries (1 / 100) 256 empty_world = (Ok t, w') \<and>
     sst_open ''000001.sst'' 1 (crash (keep_synced w') w') = Ok t"
proof -
  obtain t w' where create: "sst_create f64_example ''000001.sst'' 1 example_entries (1 / 100) 256 empty_world = (Ok t, w')"
    using sst_create_clear [OF example_fits example_sorted(1), of empty_world "''000001.sst''" 1]
    by (auto simp: empty_world_def)
  have "\<not> suffix ''.tmp'' ''000001.sst''"
    by (simp add: suffix_to_prefix)
  from sst_crash_reopen [OF example_fits example_sorted create this crash_keeps_synced] create show ?thesis
    by blast
qed

text \<open>
  C24: a table that could not be finished leaves no trace. When \<^verbatim>\<open>create\<close> fails, at any of its failpoints, no
  file but the temporary one has changed, and the temporary file is never accepted as a table.
\<close>

theorem sst_create_failure_atomic:
  assumes "table_fits fl fp sz es" and "sorted_wrt (<) (map fst es)"
    and "sst_create fl path tid es fp sz w = (Err e, w')"
  shows "(\<forall>f. f \<noteq> tmp_path path \<longrightarrow> files w' f = files w f) \<and>
    sst_open (tmp_path path) tid w' = Err CorruptedRecord"
proof -
  have "suffix ''.tmp'' (tmp_path path)"
    by (simp add: tmp_path_def suffix_def)
  then show ?thesis
    using sst_create_Err(3) [OF assms] by (simp add: sst_open_def)
qed

theorem sst_create_failure_atomic_witness:
  "\<exists>e w'. sst_create f64_example ''000001.sst'' 1 example_entries (1 / 100) 256 (inject Rename empty_world) = (Err e, w') \<and>
     files w' ''000001.sst'' = None"
proof -
  obtain bloom where b: "bloom_insert_all (map fst example_entries)
      (bloom_new f64_example (max (length example_entries) 1) (1 / 100)) = Ok bloom"
    by (rule bloom_for_table)
  let ?w = "inject Rename empty_world"
  obtain e w' where create: "sst_create f64_example ''000001.sst'' 1 example_entries (1 / 100) 256 ?w = (Err e, w')"
    using sst_create_cases [OF example_fits example_sorted(1) b, of "''000001.sst''" 1 ?w]
    by (simp add: inject_def Let_def)
  have "files ?w ''000001.sst'' = None"
    by (simp add: inject_def empty_world_def)
  then show ?thesis
    using sst_create_failure_atomic [OF example_fits example_sorted(1) create] create by auto
qed

end
