(* ===== verification/Layers.thy ===== *)
theory Layers
  imports Prelude
begin

text \<open>
  Reading through layers, newest first: the first layer that has the key decides. Two loops of the
  program merge sorted layers under this rule, the compaction merge and the range scan; both are shown
  to compute the reference function \<open>merge_ref\<close>, whose result is the one sorted list with the lookups of the
  layers.
\<close>

section \<open>Lookup\<close>

primrec look :: "('k \<Rightarrow> 'v option) list \<Rightarrow> 'k \<Rightarrow> 'v option" where
  "look [] k = None"
| "look (m # ms) k = (case m k of Some v \<Rightarrow> Some v | None \<Rightarrow> look ms k)"

lemma look_append: "look (ms @ ns) k = (case look ms k of Some v \<Rightarrow> Some v | None \<Rightarrow> look ns k)"
  by (induction ms) (auto split: option.splits)

lemma look_None_iff: "look ms k = None \<longleftrightarrow> (\<forall>m \<in> set ms. m k = None)"
  by (induction ms) (auto split: option.splits)

lemma look_SomeD: "look ms k = Some v \<Longrightarrow> \<exists>m \<in> set ms. m k = Some v"
  by (induction ms) (auto split: option.splits)

lemma look_cong: "(\<And>m. m \<in> set ms \<Longrightarrow> f m k = g m k) \<Longrightarrow> look (map f ms) k = look (map g ms) k"
  by (induction ms) (auto split: option.splits)

text \<open>When at most one layer has the key, the order of the layers does not matter.\<close>

lemma look_unique:
  assumes "m \<in> set ms" and "m k = Some v" and "\<And>n. n \<in> set ms \<Longrightarrow> n k \<noteq> None \<Longrightarrow> n k = Some v"
  shows "look ms k = Some v"
proof -
  have "look ms k \<noteq> None"
    using assms(1,2) unfolding look_None_iff by (intro notI) auto
  then obtain u where u: "look ms k = Some u" by auto
  then obtain n where "n \<in> set ms" "n k = Some u"
    using look_SomeD [of ms k u] by auto
  with u assms(3) [of n] show ?thesis by simp
qed

section \<open>The reference merge\<close>

definition head_keys :: "('k \<times> 'v) list list \<Rightarrow> 'k set" where
  "head_keys rs = {fst (hd r) | r. r \<in> set rs \<and> r \<noteq> []}"

definition advance_src :: "'k \<Rightarrow> ('k \<times> 'v) list \<Rightarrow> ('k \<times> 'v) list" where
  "advance_src key r = (if r \<noteq> [] \<and> fst (hd r) = key then tl r else r)"

lemma finite_head_keys [simp]: "finite (head_keys rs)"
proof -
  have "head_keys rs \<subseteq> (\<lambda>r. fst (hd r)) ` set rs"
    by (auto simp: head_keys_def)
  then show ?thesis by (rule finite_subset) simp
qed

lemma head_keys_empty: "head_keys rs = {} \<longleftrightarrow> (\<forall>r \<in> set rs. r = [])"
  by (auto simp: head_keys_def)

lemma advance_src_length: "length (advance_src key r) \<le> length r"
  by (simp add: advance_src_def)

lemma advance_shrinks:
  assumes "key \<in> head_keys rs"
  shows "sum_list (map length (map (advance_src key) rs)) < sum_list (map length rs)"
  using assms
proof (induction rs)
  case Nil
  then show ?case by (simp add: head_keys_def)
next
  case (Cons r rs)
  have le: "sum_list (map length (map (advance_src key) rs)) \<le> sum_list (map length rs)"
    by (induction rs) (auto simp: add_mono advance_src_length)
  show ?case
  proof (cases "r \<noteq> [] \<and> fst (hd r) = key")
    case True
    then have "length (advance_src key r) < length r"
      by (cases r) (simp_all add: advance_src_def)
    with le show ?thesis by simp
  next
    case False
    then have "key \<in> head_keys rs"
      using Cons.prems by (auto simp: head_keys_def)
    then show ?thesis
      using Cons.IH advance_src_length [of key r] by auto
  qed
qed

function merge_ref :: "('k::linorder \<times> 'v) list list \<Rightarrow> ('k \<times> 'v) list" where
  "merge_ref rs =
     (if head_keys rs = {} then []
      else let key = Min (head_keys rs) in
        (key, the (look (map map_of rs) key)) # merge_ref (map (advance_src key) rs))"
  by pat_completeness auto

termination
  by (relation "measure (\<lambda>rs. sum_list (map length rs))") (auto simp: comp_def dest!: advance_shrinks [OF Min_in [OF finite_head_keys]])

declare merge_ref.simps [simp del]

lemma ksorted_hd_least: "ksorted r \<Longrightarrow> (k, v) \<in> set r \<Longrightarrow> fst (hd r) \<le> k"
  by (cases r) auto

lemma ksorted_advance: "ksorted r \<Longrightarrow> ksorted (advance_src key r)"
  by (cases r) (auto simp: advance_src_def)

text \<open>Taking the least key off every layer that starts with it removes that key and nothing else.\<close>

lemma map_of_advance:
  assumes "ksorted r" and "\<forall>x \<in> head_keys rs. key \<le> x" and "r \<in> set rs"
  shows "map_of (advance_src key r) = (map_of r)(key := None)"
proof (cases r)
  case Nil
  then show ?thesis by (simp add: advance_src_def fun_eq_iff)
next
  case (Cons x xs)
  obtain k v where x: "x = (k, v)" by fastforce
  have "k \<in> head_keys rs"
    using assms(3) Cons x by (auto simp: head_keys_def intro!: exI [of _ r])
  then have le: "key \<le> k" using assms(2) by simp
  have "a \<notin> fst ` set xs" if "a \<le> k" for a
    using assms(1) Cons x that by force
  then have "map_of xs key = None"
    using le by (simp add: map_of_eq_None_iff)
  then show ?thesis
    using Cons x le by (auto simp: advance_src_def fun_eq_iff)
qed

lemma look_advance:
  assumes "list_all ksorted rs" and "\<forall>x \<in> head_keys rs. key \<le> x"
  shows "look (map map_of (map (advance_src key) rs)) = (look (map map_of rs))(key := None)"
proof
  fix k
  have "look (map (\<lambda>r. map_of (advance_src key r)) rs) k = look (map (\<lambda>r. (map_of r)(key := None)) rs) k"
  proof (rule look_cong)
    fix r
    assume "r \<in> set rs"
    then show "map_of (advance_src key r) k = ((map_of r)(key := None)) k"
      using map_of_advance [OF _ assms(2)] assms(1) by (simp add: list_all_iff)
  qed
  also have "\<dots> = ((look (map map_of rs))(key := None)) k"
    by (induction rs) (auto split: option.splits)
  finally show "look (map map_of (map (advance_src key) rs)) k = ((look (map map_of rs))(key := None)) k"
    by (simp add: comp_def)
qed

lemma look_head:
  assumes "key \<in> head_keys rs"
  shows "look (map map_of rs) key \<noteq> None"
proof -
  obtain r where "r \<in> set rs" "r \<noteq> []" "fst (hd r) = key"
    using assms by (auto simp: head_keys_def)
  then have "map_of r key \<noteq> None"
    by (cases r) (auto simp: map_of_eq_None_iff)
  then show ?thesis
    using \<open>r \<in> set rs\<close> by (auto simp: look_None_iff)
qed

lemma merge_ref_spec:
  assumes "list_all ksorted rs"
  shows "ksorted (merge_ref rs) \<and> map_of (merge_ref rs) = look (map map_of rs)"
  using assms
proof (induction rs rule: merge_ref.induct)
  case (1 rs)
  show ?case
  proof (cases "head_keys rs = {}")
    case True
    then have "look (map map_of rs) k = None" for k
      by (auto simp: head_keys_empty look_None_iff)
    then show ?thesis
      using True by (simp add: merge_ref.simps [of rs] fun_eq_iff)
  next
    case False
    define key where "key = Min (head_keys rs)"
    let ?rs' = "map (advance_src key) rs"
    have least: "key \<in> head_keys rs" "\<forall>x \<in> head_keys rs. key \<le> x"
      using False by (simp_all add: key_def)
    have "list_all ksorted ?rs'"
      using 1(2) by (simp add: list_all_iff ksorted_advance)
    then have IH: "ksorted (merge_ref ?rs')" "map_of (merge_ref ?rs') = look (map map_of ?rs')"
      using 1(1) [OF False key_def] by simp_all
    have look': "look (map map_of ?rs') = (look (map map_of rs))(key := None)"
      by (rule look_advance [OF 1(2) least(2)])
    have later: "key < k" if "k \<in> fst ` set (merge_ref ?rs')" for k
    proof -
      have "look (map map_of ?rs') k \<noteq> None"
        using that IH(2) by (metis map_of_eq_None_iff)
      then have "k \<noteq> key" "look (map map_of rs) k \<noteq> None"
        using look' by (auto split: if_splits)
      then obtain r v where r: "r \<in> set rs" "map_of r k = Some v"
        by (fastforce dest: look_SomeD)
      then have kv: "(k, v) \<in> set r" by (auto dest: map_of_SomeD)
      then have "fst (hd r) \<in> head_keys rs"
        using r(1) by (auto simp: head_keys_def)
      then have "key \<le> fst (hd r)"
        using least(2) by simp
      also have "\<dots> \<le> k"
        using ksorted_hd_least [OF _ kv] r(1) 1(2) by (simp add: list_all_iff)
      finally show ?thesis using \<open>k \<noteq> key\<close> by simp
    qed
    have "merge_ref rs = (key, the (look (map map_of rs) key)) # merge_ref ?rs'"
      using False by (simp add: merge_ref.simps [of rs] key_def Let_def)
    then show ?thesis
      using IH later look_head [OF least(1)] look' by (auto simp: fun_eq_iff)
  qed
qed

lemma merge_ref_unique:
  assumes "list_all ksorted rs" and "ksorted ms" and "map_of ms = look (map map_of rs)"
  shows "merge_ref rs = ms"
  using merge_ref_spec [OF assms(1)] assms(2,3) by (intro ksorted_map_of_eqI) auto

end
