(* ===== verification/Compaction.thy ===== *)
theory Compaction
  imports SsTable_Create Layers "HOL-Library.Product_Lexorder"
begin

text \<open>
  The compaction merge and its worker (\<^verbatim>\<open>src/src/compaction.rs\<close>). The \<^verbatim>\<open>BinaryHeap\<close> of \<^verbatim>\<open>Reverse((key, index))\<close> is
  the sorted list of its elements: \<open>insort\<close> is \<^verbatim>\<open>push\<close>, the first element is what \<^verbatim>\<open>peek\<close> and \<^verbatim>\<open>pop\<close> give. The parallel
  vectors \<^verbatim>\<open>heads\<close> and \<^verbatim>\<open>iters\<close> are one list of pairs.

  The merge loop is shown to compute the reference merge of the tables' entries, with the tombstones
  filtered out when they may be dropped.
\<close>

section \<open>The merge\<close>

type_synonym merge_head = "(bytes \<times> entry) option \<times> sst_iterator"

fun open_iters :: "world \<Rightarrow> sstable list \<Rightarrow> sst_iterator list result" where
  "open_iters w [] = Ok []"
| "open_iters w (t # ts) =
     and_then (sst_iter w t) (\<lambda>it. and_then (open_iters w ts) (\<lambda>its. Ok (it # its)))"

fun first_heads :: "world \<Rightarrow> sst_iterator list \<Rightarrow> merge_head list result" where
  "first_heads w [] = Ok []"
| "first_heads w (it # its) =
     (case sst_next w it of
        (Some (Ok item), it) \<Rightarrow> and_then (first_heads w its) (\<lambda>hs. Ok ((Some item, it) # hs))
      | (Some (Err e), it) \<Rightarrow> Err e
      | (Some Panic, it) \<Rightarrow> Panic
      | (None, it) \<Rightarrow> and_then (first_heads w its) (\<lambda>hs. Ok ((None, it) # hs)))"

fun head_key :: "merge_head \<Rightarrow> bytes option" where
  "head_key (Some (k, _), _) = Some k"
| "head_key (None, _) = None"

text \<open>\<^verbatim>\<open>for (idx, head) in heads.iter().enumerate() \<close> pushing \<^verbatim>\<open>Reverse((key, idx))\<close>.\<close>

fun push_heads :: "nat \<Rightarrow> merge_head list \<Rightarrow> (bytes \<times> nat) list \<Rightarrow> (bytes \<times> nat) list" where
  "push_heads idx [] heap = heap"
| "push_heads idx (h # hs) heap =
     push_heads (Suc idx) hs (case head_key h of Some k \<Rightarrow> insort (k, idx) heap | None \<Rightarrow> heap)"

fun winner :: "bytes \<Rightarrow> merge_head list \<Rightarrow> entry option" where
  "winner key [] = None"
| "winner key ((Some (k, e), _) # hs) = (if k = key then Some e else winner key hs)"
| "winner key ((None, _) # hs) = winner key hs"

text \<open>Advancing every iterator that contributed the key.\<close>

fun advance_heads ::
  "world \<Rightarrow> bytes \<Rightarrow> nat \<Rightarrow> merge_head list \<Rightarrow> (bytes \<times> nat) list \<Rightarrow> (merge_head list \<times> (bytes \<times> nat) list) result" where
  "advance_heads w key idx [] heap = Ok ([], heap)"
| "advance_heads w key idx ((head, it) # hs) heap =
     (if head_key (head, it) = Some key then
        (case sst_next w it of
           (Some (Ok item), it) \<Rightarrow>
             and_then (advance_heads w key (Suc idx) hs (insort (fst item, idx) heap)) (\<lambda>(hs, heap).
               Ok ((Some item, it) # hs, heap))
         | (Some (Err e), it) \<Rightarrow> Err e
         | (Some Panic, it) \<Rightarrow> Panic
         | (None, it) \<Rightarrow>
             and_then (advance_heads w key (Suc idx) hs heap) (\<lambda>(hs, heap). Ok ((None, it) # hs, heap)))
      else and_then (advance_heads w key (Suc idx) hs heap) (\<lambda>(hs, heap). Ok ((head, it) # hs, heap)))"

definition heads_count :: "world \<Rightarrow> merge_head list \<Rightarrow> nat" where
  "heads_count w hs = sum_list (map (it_count w \<circ> snd) hs)"

lemma sst_next_None_count: "sst_next w it = (None, it') \<Longrightarrow> it_count w it' \<le> it_count w it"
proof (induction w it arbitrary: it' rule: sst_next.induct)
  case (1 w it)
  show ?case
  proof (cases "entry_idx it < length (current it) \<or> length (it_index it) \<le> block_idx it")
    case True
    then show ?thesis
      using 1(2) by (auto simp: sst_next.simps [of w it] split: if_splits)
  next
    case False
    obtain r it1 where load: "load_next_block w it = (r, it1)" by fastforce
    with 1(2) False obtain u where r: "r = Ok u" and rest: "sst_next w it1 = (None, it')"
      by (cases r) (simp_all add: sst_next.simps [of w it])
    show ?thesis
      using 1(1) [OF _ _ _ _ rest] load r load_next_block_count [of w it u it1] False by simp
  qed
qed

lemma advance_heads_count:
  "advance_heads w key idx hs heap = Ok (hs', heap') \<Longrightarrow>
     heads_count w hs' + length heap' \<le> heads_count w hs + length heap"
proof (induction w key idx hs heap arbitrary: hs' heap' rule: advance_heads.induct)
  case (1 w key idx heap)
  then show ?case by simp
next
  case (2 w key idx head it hs heap)
  show ?case
  proof (cases "head_key (head, it) = Some key")
    case True
    obtain r it1 where n: "sst_next w it = (r, it1)" by fastforce
    show ?thesis
    proof (cases r)
      case None
      then obtain hs1 where "advance_heads w key (Suc idx) hs heap = Ok (hs1, heap')" "hs' = (None, it1) # hs1"
        using 2(4) True n by (auto simp: and_then_eq_Ok)
      then show ?thesis
        using 2(1) [OF True n [symmetric] None] sst_next_None_count [of w it it1] n None
        by (fastforce simp: heads_count_def)
    next
      case (Some x)
      then obtain item hs1 where x: "x = Ok item"
          and "advance_heads w key (Suc idx) hs (insort (fst item, idx) heap) = Ok (hs1, heap')" "hs' = (Some item, it1) # hs1"
        using 2(4) True n by (cases x) (auto simp: and_then_eq_Ok)
      then show ?thesis
        using 2(2) [OF True n [symmetric] Some x] sst_next_count [of w it item it1] n Some
        by (fastforce simp: heads_count_def)
    qed
  next
    case False
    then obtain hs1 where "advance_heads w key (Suc idx) hs heap = Ok (hs1, heap')" "hs' = (head, it) # hs1"
      using 2(4) by (auto simp: and_then_eq_Ok)
    then show ?thesis
      using 2(3) [OF False] by (fastforce simp: heads_count_def)
  qed
qed

function merge_loop ::
  "world \<Rightarrow> bool \<Rightarrow> merge_head list \<Rightarrow> (bytes \<times> nat) list \<Rightarrow> (bytes \<times> entry) list \<Rightarrow> (bytes \<times> entry) list result" where
  "merge_loop w drop_tombstones hs heap out =
     (case heap of
        [] \<Rightarrow> Ok out
      | (key, _) # heap \<Rightarrow>
          let heap = dropWhile (\<lambda>(k, _). k = key) heap;
              win = winner key hs
          in and_then (advance_heads w key 0 hs heap) (\<lambda>(hs, heap).
               merge_loop w drop_tombstones hs heap
                 (case win of
                    Some e \<Rightarrow> if e = Tombstone \<and> drop_tombstones then out else out @ [(key, e)]
                  | None \<Rightarrow> out)))"
  by pat_completeness auto

termination
proof (relation "measure (\<lambda>(w, d, hs, heap, out). heads_count w hs + length heap)", goal_cases)
  case 1
  then show ?case by simp
next
  case (2 w d hs heap out x heap1 key i heap2 win y hs' heap')
  then have "heads_count w hs' + length heap' \<le> heads_count w hs + length heap2"
    using advance_heads_count [of w key 0 hs heap2 hs' heap'] by simp
  moreover have "length heap2 \<le> length heap1"
    using 2 by (simp add: length_dropWhile_le)
  ultimately show ?case
    using 2 by simp
qed

declare merge_loop.simps [simp del]

definition merge_tables :: "world \<Rightarrow> sstable list \<Rightarrow> bool \<Rightarrow> (bytes \<times> entry) list result" where
  "merge_tables w input_tables drop_tombstones =
     and_then (open_iters w input_tables) (\<lambda>its.
     and_then (first_heads w its) (\<lambda>hs.
     merge_loop w drop_tombstones hs (push_heads 0 hs []) []))"

definition compact ::
  "f64_math \<Rightarrow> sstable list \<Rightarrow> string \<Rightarrow> u64 \<Rightarrow> rat \<Rightarrow> nat \<Rightarrow> bool \<Rightarrow> world \<Rightarrow> sstable result \<times> world" where
  "compact fl input_tables output_path output_id bloom_fp block_sz drop_tombstones w =
     andThen (merge_tables w input_tables drop_tombstones, w) (\<lambda>merged w.
       sst_create fl output_path output_id merged bloom_fp block_sz w)"

section \<open>The worker\<close>

datatype compaction_message = Compact | Shutdown

text \<open>
  The handle: the messages not yet received, whether the thread still runs, whether it panicked, and
  whether it was joined.
\<close>

record compaction_worker =
  pending :: "compaction_message list"
  alive :: bool
  panicked :: bool
  handle_taken :: bool

definition worker_start :: compaction_worker where
  "worker_start = \<lparr>pending = [], alive = True, panicked = False, handle_taken = False\<rparr>"

text \<open>\<^verbatim>\<open>send\<close> fails when the receiving thread is gone.\<close>

definition request_compaction :: "compaction_worker \<Rightarrow> unit result \<times> compaction_worker" where
  "request_compaction c =
     (if alive c then (Ok (), c\<lparr>pending := pending c @ [Compact]\<rparr>)
      else (Err (error.Compaction ''sending on a closed channel''), c))"

text \<open>
  One round of the loop of the thread, with the callback as a function on the state \<open>s\<close> it changes; the last component is
  \<^verbatim>\<open>last_error\<close>. A panic of the callback ends the thread. The channel goes with the thread, and the messages in it are lost.
\<close>

definition worker_step ::
  "('s \<Rightarrow> unit result \<times> 's) \<Rightarrow> compaction_worker \<times> 's \<times> string option \<Rightarrow> compaction_worker \<times> 's \<times> string option" where
  "worker_step on_compact = (\<lambda>(c, s, last_error).
     if \<not> alive c then (c, s, last_error)
     else case pending c of
       [] \<Rightarrow> (c, s, last_error)
     | Shutdown # msgs \<Rightarrow> (c\<lparr>pending := [], alive := False\<rparr>, s, last_error)
     | Compact # msgs \<Rightarrow>
         (case on_compact s of
            (Ok _, s) \<Rightarrow> (c\<lparr>pending := msgs\<rparr>, s, last_error)
          | (Err e, s) \<Rightarrow> (c\<lparr>pending := msgs\<rparr>, s, Some (error_display e))
          | (Panic, s) \<Rightarrow> (c\<lparr>pending := [], alive := False, panicked := True\<rparr>, s, last_error)))"

text \<open>The loop until it waits for a message or has ended: every round takes a message.\<close>

definition worker_loop ::
  "('s \<Rightarrow> unit result \<times> 's) \<Rightarrow> compaction_worker \<times> 's \<times> string option \<Rightarrow> compaction_worker \<times> 's \<times> string option" where
  "worker_loop on_compact s = (worker_step on_compact ^^ length (pending (fst s))) s"

text \<open>\<^verbatim>\<open>shutdown\<close> sends the message, if somebody listens, takes the handle and joins the thread.\<close>

definition worker_shutdown ::
  "('s \<Rightarrow> unit result \<times> 's) \<Rightarrow> compaction_worker \<times> 's \<times> string option \<Rightarrow>
     unit result \<times> compaction_worker \<times> 's \<times> string option" where
  "worker_shutdown on_compact = (\<lambda>(c, st).
     let c = (if alive c then c\<lparr>pending := pending c @ [Shutdown]\<rparr> else c) in
     if handle_taken c then (Ok (), c, st)
     else
       (case worker_loop on_compact (c\<lparr>handle_taken := True\<rparr>, st) of (c, st) \<Rightarrow>
          (if panicked c then Err (error.Compaction ''compaction worker panicked'') else Ok (), c, st)))"

text \<open>\<^verbatim>\<open>impl Drop for CompactionWorker\<close>.\<close>

definition worker_drop ::
  "('s \<Rightarrow> unit result \<times> 's) \<Rightarrow> compaction_worker \<times> 's \<times> string option \<Rightarrow> compaction_worker \<times> 's \<times> string option" where
  "worker_drop on_compact s = snd (worker_shutdown on_compact s)"

section \<open>The merge computes the reference merge\<close>

text \<open>What a head and its iterator still have to give.\<close>

definition head_ok :: "world \<Rightarrow> merge_head \<Rightarrow> (bytes \<times> entry) list \<Rightarrow> bool" where
  "head_ok w h r \<longleftrightarrow>
     (case fst h of None \<Rightarrow> r = [] | Some x \<Rightarrow> \<exists>rest. it_yields w (snd h) rest \<and> r = x # rest)"

lemma head_ok_simps [simp]:
  "head_ok w (None, it) r \<longleftrightarrow> r = []"
  "head_ok w (Some x, it) r \<longleftrightarrow> (\<exists>rest. it_yields w it rest \<and> r = x # rest)"
  by (simp_all add: head_ok_def)

lemma head_key_ok: "head_ok w h r \<Longrightarrow> head_key h = (if r = [] then None else Some (fst (hd r)))"
  by (cases h rule: head_key.cases) (auto simp: head_ok_def)

lemma head_keys_Cons:
  "head_keys (r # rs) = (if r = [] then {} else {fst (hd r)}) \<union> head_keys rs"
  by (auto simp: head_keys_def)

lemma head_keys_Nil [simp]: "head_keys [] = {}"
  by (simp add: head_keys_def)

text \<open>The first keys behind the given one, in the layers that start with it.\<close>

definition next_keys :: "bytes \<Rightarrow> (bytes \<times> entry) list list \<Rightarrow> bytes set" where
  "next_keys key rs = {fst (hd (tl r)) | r. r \<in> set rs \<and> r \<noteq> [] \<and> fst (hd r) = key \<and> tl r \<noteq> []}"

lemma head_keys_advance:
  assumes "list_all ksorted rs"
  shows "head_keys (map (advance_src key) rs) = (head_keys rs - {key}) \<union> next_keys key rs"
proof -
  have "fst (hd (tl r)) \<noteq> key" if "r \<in> set rs" "r \<noteq> []" "fst (hd r) = key" "tl r \<noteq> []" for r
  proof -
    note asm = that
    obtain x y ys where "r = x # y # ys"
      using asm(2,4) by (metis list.exhaust_sel)
    moreover have "ksorted r"
      using that(1) assms by (simp add: list_all_iff)
    ultimately show ?thesis
      using that(3) by auto
  qed
  then show ?thesis
    by (force simp: head_keys_def next_keys_def advance_src_def)
qed

lemma next_keys_Cons:
  "next_keys key (r # rs) =
     (if r \<noteq> [] \<and> fst (hd r) = key \<and> tl r \<noteq> [] then {fst (hd (tl r))} else {}) \<union> next_keys key rs"
  by (auto simp: next_keys_def)

lemma advance_heads_ok:
  assumes "list_all2 (head_ok w) hs rs"
  shows "\<exists>hs' heap'. advance_heads w key idx hs heap = Ok (hs', heap') \<and>
    list_all2 (head_ok w) hs' (map (advance_src key) rs) \<and>
    fst ` set heap' = fst ` set heap \<union> next_keys key rs \<and> (sorted heap \<longrightarrow> sorted heap')"
  using assms
proof (induction hs rs arbitrary: idx heap rule: list_all2_induct)
  case Nil
  then show ?case by (simp add: next_keys_def)
next
  case (Cons h hs r rs)
  obtain head it where h: "h = (head, it)" by fastforce
  show ?case
  proof (cases "head_key h = Some key")
    case False
    then have same: "advance_src key r = r" "\<not> (r \<noteq> [] \<and> fst (hd r) = key)"
      using head_key_ok [OF Cons.hyps(1)] by (auto simp: advance_src_def)
    show ?thesis
      using Cons.IH [of "Suc idx" heap] False Cons.hyps(1) same
      by (fastforce simp: h next_keys_Cons)
  next
    case True
    then obtain x rest where r: "r = x # rest" "head = Some x" "it_yields w it rest" "fst x = key"
      using Cons.hyps(1) head_key_ok [OF Cons.hyps(1)] by (auto simp: head_ok_def h split: option.splits if_splits)
    show ?thesis
    proof (cases rest)
      case Nil
      then obtain it' where "sst_next w it = (None, it')"
        using sst_next_Nil [of w it] r(3) by (metis prod.collapse)
      then show ?thesis
        using Cons.IH [of "Suc idx" heap] True r Nil
        by (fastforce simp: h next_keys_Cons advance_src_def)
    next
      case (Cons y ys)
      then obtain it' where "sst_next w it = (Some (Ok y), it')" "it_yields w it' ys"
        using sst_next_Cons r(3) by blast
      then show ?thesis
        using Cons.IH [of "Suc idx" "insort (fst y, idx) heap"] True r Cons
        by (fastforce simp: h next_keys_Cons advance_src_def set_insort_key sorted_insort)
    qed
  qed
qed

lemma push_heads_ok:
  assumes "list_all2 (head_ok w) hs rs"
  shows "fst ` set (push_heads idx hs heap) = fst ` set heap \<union> head_keys rs \<and>
    (sorted heap \<longrightarrow> sorted (push_heads idx hs heap))"
  using assms
proof (induction hs rs arbitrary: idx heap rule: list_all2_induct)
  case (Cons h hs r rs)
  show ?case
    using Cons.IH [of "Suc idx" heap] Cons.IH [of "Suc idx" "insort (fst (hd r), idx) heap"]
      head_key_ok [OF Cons.hyps(1)]
    by (auto simp: head_keys_Cons set_insort_key sorted_insort)
qed simp

lemma winner_ok:
  assumes "list_all2 (head_ok w) hs rs" and "list_all ksorted rs" and "\<forall>x \<in> head_keys rs. key \<le> x"
  shows "winner key hs = look (map map_of rs) key"
  using assms
proof (induction hs rs rule: list_all2_induct)
  case (Cons h hs r rs)
  then have IH: "winner key hs = look (map map_of rs) key"
    by (simp add: head_keys_Cons)
  show ?case
  proof (cases "fst h")
    case None
    then show ?thesis
      using Cons.hyps(1) IH by (cases h) (simp add: head_ok_def)
  next
    case (Some x)
    then obtain k e rest where r: "r = (k, e) # rest" "h = (Some (k, e), snd h)" "x = (k, e)"
      using Cons.hyps(1) by (cases x; cases h) (auto simp: head_ok_def)
    have "key \<le> k"
      using Cons.prems(2) r(1) by (simp add: head_keys_Cons)
    moreover have "map_of rest key = None" if "key \<le> k"
      using Cons.prems(1) r(1) that by (force simp: map_of_eq_None_iff)
    ultimately have "map_of r key = (if k = key then Some e else None)"
      using r(1) by auto
    then show ?thesis
      using IH by (subst r(2)) simp
  qed
qed simp

lemma sorted_dropWhile_keys:
  assumes "sorted ((key, i) # heap)"
  shows "fst ` set (dropWhile (\<lambda>(k, _). k = key) heap) = fst ` set heap - {key}"
proof -
  have ge: "key \<le> fst p" if "p \<in> set heap" for p
    using assms that by (cases p) (auto simp: less_eq_prod_def)
  have no_key: "k \<noteq> key" if "(k, j) \<in> set (dropWhile (\<lambda>(k, _). k = key) heap)" for k j
  proof -
    let ?d = "dropWhile (\<lambda>(k, _). k = key) heap"
    have sorted: "sorted ?d"
      using assms sorted_dropWhile by fastforce
    have "?d \<noteq> []"
      using that by (metis empty_iff list.set(1))
    then obtain a as where d: "?d = a # as"
      by (metis neq_Nil_conv)
    then have "fst a \<noteq> key"
      using hd_dropWhile [of "\<lambda>(k, _). k = key" heap] by (auto simp: split_def)
    moreover have "a \<in> set heap"
      using d set_dropWhileD [of a "\<lambda>(k, _). k = key" heap] by simp
    ultimately show ?thesis
      using ge [of a] that sorted unfolding d by (cases a) (auto simp: less_eq_prod_def)
  qed
  have others: "p \<in> set (dropWhile (\<lambda>(k, _). k = key) heap)" if "p \<in> set heap" "fst p \<noteq> key" for p
    using that by (induction heap) auto
  show ?thesis
  proof (intro equalityI subsetI)
    fix k
    assume "k \<in> fst ` set (dropWhile (\<lambda>(k, _). k = key) heap)"
    then obtain j where j: "(k, j) \<in> set (dropWhile (\<lambda>(k, _). k = key) heap)" by auto
    then show "k \<in> fst ` set heap - {key}"
      using no_key [OF j] set_dropWhileD [OF j] by (auto intro!: image_eqI [of _ _ "(k, j)"])
  next
    fix k
    assume "k \<in> fst ` set heap - {key}"
    then obtain p where "p \<in> set heap" "fst p = k" "k \<noteq> key" by auto
    then show "k \<in> fst ` set (dropWhile (\<lambda>(k, _). k = key) heap)"
      using others [of p] by (intro image_eqI [of _ _ p]) simp_all
  qed
qed

definition keep_entry :: "bool \<Rightarrow> bytes \<times> entry \<Rightarrow> bool" where
  "keep_entry drop_tombstones ke \<longleftrightarrow> \<not> (snd ke = Tombstone \<and> drop_tombstones)"

lemma keep_entry_pair: "keep_entry d (k, e) \<longleftrightarrow> \<not> (e = Tombstone \<and> d)"
  by (simp add: keep_entry_def)

lemma merge_loop_ok:
  assumes "list_all2 (head_ok w) hs rs" and "list_all ksorted rs" and "sorted heap"
    and "fst ` set heap = head_keys rs"
  shows "merge_loop w d hs heap out = Ok (out @ filter (keep_entry d) (merge_ref rs))"
  using assms
proof (induction rs arbitrary: hs heap out rule: merge_ref.induct)
  case (1 rs)
  show ?case
  proof (cases "head_keys rs = {}")
    case True
    then have "heap = []" using 1(5) by simp
    then show ?thesis
      using True by (simp add: merge_loop.simps merge_ref.simps [of rs])
  next
    case False
    then obtain key i heap1 where heap: "heap = (key, i) # heap1"
      using 1(5) by (cases heap) auto
    have least: "key \<in> head_keys rs" "\<forall>x \<in> head_keys rs. key \<le> x"
      using 1(4,5) heap by (auto simp: less_eq_prod_def simp flip: 1(5))
    then have key: "key = Min (head_keys rs)"
      by (intro Min_eqI [symmetric]) simp_all
    let ?heap2 = "dropWhile (\<lambda>(k, _). k = key) heap1" and ?rs' = "map (advance_src key) rs"
    have heap2: "fst ` set ?heap2 = head_keys rs - {key}" "sorted ?heap2"
      using sorted_dropWhile_keys [of key i heap1] 1(4,5) heap sorted_dropWhile by (auto simp flip: 1(5))
    obtain hs' heap' where adv: "advance_heads w key 0 hs ?heap2 = Ok (hs', heap')"
        "list_all2 (head_ok w) hs' ?rs'" "fst ` set heap' = fst ` set ?heap2 \<union> next_keys key rs" "sorted heap'"
      using advance_heads_ok [OF 1(2), of key 0 ?heap2] heap2(2) by auto
    have "fst ` set heap' = head_keys ?rs'"
      using adv(3) heap2(1) head_keys_advance [OF 1(3)] by simp
    then have IH: "merge_loop w d hs' heap' out' = Ok (out' @ filter (keep_entry d) (merge_ref ?rs'))" for out'
      using 1(1) [OF False key adv(2)] 1(3) adv(4) by (simp add: list_all_iff ksorted_advance)
    obtain e where e: "look (map map_of rs) key = Some e"
      using look_head [OF least(1)] by auto
    have win: "winner key hs = Some e"
      using winner_ok [OF 1(2,3) least(2)] e by simp
    have "merge_ref rs = (key, e) # merge_ref ?rs'"
      using False e by (simp add: merge_ref.simps [of rs] key [symmetric] Let_def)
    then show ?thesis
      using adv(1) win IH
      by (simp add: merge_loop.simps [of w d hs "(key, i) # heap1" out] heap keep_entry_pair Let_def)
  qed
qed

lemma first_heads_ok:
  assumes "list_all2 (it_yields w) its rs"
  shows "\<exists>hs. first_heads w its = Ok hs \<and> list_all2 (head_ok w) hs rs"
  using assms
proof (induction its rs rule: list_all2_induct)
  case (Cons it its r rs)
  then obtain hs where hs: "first_heads w its = Ok hs" "list_all2 (head_ok w) hs rs" by auto
  show ?case
  proof (cases r)
    case Nil
    then obtain it' where "sst_next w it = (None, it')"
      using sst_next_Nil [of w it] Cons.hyps(1) by (metis prod.collapse)
    then show ?thesis
      using hs Nil by simp
  next
    case (Cons x xs)
    then obtain it' where "sst_next w it = (Some (Ok x), it')" "it_yields w it' xs"
      using sst_next_Cons \<open>it_yields w it r\<close> by blast
    then show ?thesis
      using hs Cons by simp
  qed
qed simp

lemma open_iters_ok:
  assumes "list_all2 (\<lambda>t es. sst_holds t es w) ts ess"
  shows "\<exists>its. open_iters w ts = Ok its \<and> list_all2 (it_yields w) its ess"
  using assms
proof (induction ts ess rule: list_all2_induct)
  case (Cons t ts es ess)
  then show ?case
    using sst_iter_yields [OF Cons.hyps(1)] by fastforce
qed simp

lemma merge_tables_ok:
  assumes "list_all2 (\<lambda>t es. sst_holds t es w) ts ess"
  shows "merge_tables w ts d = Ok (filter (keep_entry d) (merge_ref ess))"
proof -
  obtain its where its: "open_iters w ts = Ok its" "list_all2 (it_yields w) its ess"
    using open_iters_ok [OF assms] by blast
  obtain hs where hs: "first_heads w its = Ok hs" "list_all2 (head_ok w) hs ess"
    using first_heads_ok [OF its(2)] by blast
  have "list_all ksorted ess"
    using assms by (auto simp: list_all_length list_all2_conv_all_nth sst_holds_def)
  then have "merge_loop w d hs (push_heads 0 hs []) [] = Ok ([] @ filter (keep_entry d) (merge_ref ess))"
    using push_heads_ok [OF hs(2), of 0 "[]"] by (intro merge_loop_ok [OF hs(2)]) auto
  then show ?thesis
    using its hs by (simp add: merge_tables_def)
qed

lemma merged_sorted:
  assumes "list_all ksorted ess"
  shows "ksorted (filter (keep_entry d) (merge_ref ess))"
  using merge_ref_spec [OF assms] ksorted_filter by blast

lemma merged_lookup:
  assumes "list_all ksorted ess"
  shows "map_of (filter (keep_entry d) (merge_ref ess)) k =
    (case look (map map_of ess) k of
       Some e \<Rightarrow> if e = Tombstone \<and> d then None else Some e
     | None \<Rightarrow> None)"
proof -
  let ?m = "merge_ref ess"
  have s: "ksorted ?m" and l: "map_of ?m k = look (map map_of ess) k"
    using merge_ref_spec [OF assms] by simp_all
  have iff: "map_of (filter (keep_entry d) ?m) k = Some v \<longleftrightarrow> map_of ?m k = Some v \<and> \<not> (v = Tombstone \<and> d)" for v
    using ksorted_map_of [OF s] ksorted_map_of [OF ksorted_filter [OF s]] by (auto simp: keep_entry_pair)
  show ?thesis
  proof (cases "map_of (filter (keep_entry d) ?m) k")
    case None
    then have "map_of ?m k = Some v \<longrightarrow> v = Tombstone \<and> d" for v
      using iff [of v] by simp
    then show ?thesis
      unfolding None l by (simp split: option.splits)
  next
    case (Some v)
    then show ?thesis
      using iff [of v] l by simp
  qed
qed

section \<open>Shutting the worker down\<close>

lemma worker_step_dead [simp]: "\<not> alive c \<Longrightarrow> worker_step f (c, st) = (c, st)"
  by (cases st) (simp add: worker_step_def)

lemma worker_steps_dead [simp]: "\<not> alive c \<Longrightarrow> (worker_step f ^^ n) (c, st) = (c, st)"
  by (induction n) simp_all

lemma worker_loop_dead [simp]: "\<not> alive c \<Longrightarrow> worker_loop f (c, st) = (c, st)"
  by (simp add: worker_loop_def)

lemma worker_loop_Nil [simp]: "pending c = [] \<Longrightarrow> worker_loop f (c, st) = (c, st)"
  by (simp add: worker_loop_def)

text \<open>A round takes one message, or is the last one.\<close>

lemma worker_loop_step:
  assumes "alive c" and "pending c \<noteq> []"
  shows "worker_loop f (c, st) = worker_loop f (worker_step f (c, st))"
proof -
  obtain m ms where p: "pending c = m # ms"
    using assms(2) by (cases "pending c") auto
  obtain c1 st1 where step: "worker_step f (c, st) = (c1, st1)"
    by (cases "worker_step f (c, st)")
  then have "pending c1 = ms \<or> \<not> alive c1"
    using assms(1) p by (cases m) (auto simp: worker_step_def split: prod.splits result.splits)
  then show ?thesis
    using p step by (auto simp: worker_loop_def funpow_swap1)
qed

text \<open>The rounds the thread runs before it is asked to stop do not change what it is found to have done.\<close>

lemma worker_step_shutdown:
  assumes "\<not> handle_taken c" and "Shutdown \<notin> set (pending c)"
  shows "worker_shutdown f (worker_step f (c, s, le)) = worker_shutdown f (c, s, le)"
proof (cases "alive c \<and> pending c \<noteq> []")
  case True
  then obtain msgs where p: "pending c = Compact # msgs"
    using assms(2) by (cases "pending c") (auto intro: compaction_message.exhaust)
  obtain r s' where r: "f s = (r, s')" by fastforce
  show ?thesis
    using True assms p r worker_loop_step [of "c\<lparr>pending := Compact # msgs @ [Shutdown], handle_taken := True\<rparr>" f "(s, le)"]
    by (cases r; cases c) (simp_all add: worker_step_def worker_shutdown_def Let_def)
next
  case False
  then show ?thesis
    by (auto simp: worker_step_def split: list.splits)
qed

lemma worker_step_open:
  assumes "\<not> handle_taken c" and "Shutdown \<notin> set (pending c)" and "worker_step f (c, s, le) = (c', s', le')"
  shows "\<not> handle_taken c'" and "Shutdown \<notin> set (pending c')"
  using assms by (auto simp: worker_step_def split: if_splits list.splits compaction_message.splits prod.splits result.splits)

lemma worker_steps_shutdown:
  assumes "\<not> handle_taken c" and "Shutdown \<notin> set (pending c)"
  shows "worker_shutdown f ((worker_step f ^^ k) (c, s, le)) = worker_shutdown f (c, s, le)"
  using assms
proof (induction k arbitrary: c s le)
  case (Suc k)
  obtain c' s' le' where step: "worker_step f (c, s, le) = (c', s', le')"
    by (cases "worker_step f (c, s, le)")
  have "worker_shutdown f ((worker_step f ^^ k) (c', s', le')) = worker_shutdown f (c', s', le')"
    using Suc.IH worker_step_open [OF Suc.prems step] by blast
  then show ?case
    using worker_step_shutdown [OF Suc.prems, of f s le] by (simp add: funpow_swap1 step)
qed simp

text \<open>What \<open>n\<close> calls of the callback in a row do: the state, the results, and the last error.\<close>

definition pass_state :: "('s \<Rightarrow> unit result \<times> 's) \<Rightarrow> 's \<Rightarrow> nat \<Rightarrow> 's" where
  "pass_state f s n = ((\<lambda>s. snd (f s)) ^^ n) s"

definition pass_result :: "('s \<Rightarrow> unit result \<times> 's) \<Rightarrow> 's \<Rightarrow> nat \<Rightarrow> unit result" where
  "pass_result f s n = fst (f (pass_state f s n))"

fun pass_error :: "('s \<Rightarrow> unit result \<times> 's) \<Rightarrow> 's \<Rightarrow> string option \<Rightarrow> nat \<Rightarrow> string option" where
  "pass_error f s le 0 = le"
| "pass_error f s le (Suc n) =
     (case pass_result f s n of Err e \<Rightarrow> Some (error_display e) | _ \<Rightarrow> pass_error f s le n)"

lemma pass_state_simps [simp]: "pass_state f s 0 = s" "pass_state f s (Suc n) = pass_state f (snd (f s)) n"
  by (simp_all add: pass_state_def funpow_Suc_right del: funpow.simps(2))

lemma pass_result_simps [simp]: "pass_result f s 0 = fst (f s)" "pass_result f s (Suc n) = pass_result f (snd (f s)) n"
  by (simp_all add: pass_result_def)

lemma pass_error_Suc:
  "pass_error f s le (Suc n) =
     pass_error f (snd (f s)) (case fst (f s) of Err e \<Rightarrow> Some (error_display e) | _ \<Rightarrow> le) n"
  by (induction n) (simp_all split: result.split)

lemma worker_loop_done:
  assumes "alive c" and "pending c = replicate n Compact @ [Shutdown]" and "\<forall>i < n. pass_result f s i \<noteq> Panic"
  shows "worker_loop f (c, s, le) = (c\<lparr>pending := [], alive := False\<rparr>, pass_state f s n, pass_error f s le n)"
  using assms
proof (induction n arbitrary: c s le)
  case 0
  then show ?case
    using worker_loop_step [of c f "(s, le)"] by (simp add: worker_step_def)
next
  case (Suc n)
  obtain r s' where r: "f s = (r, s')" by fastforce
  have "r \<noteq> Panic" and later: "\<forall>i < n. pass_result f s' i \<noteq> Panic"
    using Suc.prems(3) r by (auto simp: less_Suc_eq_0_disj)
  then show ?case
    using worker_loop_step [of c f "(s, le)"] Suc.prems(1,2) Suc.IH [of "c\<lparr>pending := replicate n Compact @ [Shutdown]\<rparr>" s'] r
    by (cases r) (simp_all add: worker_step_def pass_error_Suc del: pass_error.simps(2))
qed

lemma worker_loop_panics:
  assumes "alive c" and "pending c = replicate n Compact @ [Shutdown]" and "i < n"
    and "pass_result f s i = Panic" and "\<forall>j < i. pass_result f s j \<noteq> Panic"
  shows "worker_loop f (c, s, le) =
    (c\<lparr>pending := [], alive := False, panicked := True\<rparr>, pass_state f s (Suc i), pass_error f s le i)"
  using assms
proof (induction i arbitrary: c s le n)
  case 0
  then obtain m s' where n: "n = Suc m" and r: "f s = (Panic, s')"
    by (cases n; cases "f s") auto
  then show ?case
    using worker_loop_step [of c f "(s, le)"] 0 by (simp add: worker_step_def)
next
  case (Suc i)
  obtain m where n: "n = Suc m" using Suc.prems(3) by (cases n) auto
  obtain r s' where r: "f s = (r, s')" by fastforce
  have "r \<noteq> Panic" and later: "\<forall>j < i. pass_result f s' j \<noteq> Panic" "pass_result f s' i = Panic"
    using Suc.prems(4,5) r by (auto simp: less_Suc_eq_0_disj)
  then show ?case
    using worker_loop_step [of c f "(s, le)"] Suc.prems(1-3) n Suc.IH [of "c\<lparr>pending := replicate m Compact @ [Shutdown]\<rparr>" m s'] r
    by (cases r) (simp_all add: worker_step_def pass_error_Suc del: pass_error.simps(2))
qed

text \<open>
  C19: closing the worker waits for its work. With \<open>n\<close> requests in the channel, and however many rounds the thread has run
  before, \<^verbatim>\<open>shutdown\<close> returns when the callback was called once for every request, in turn, also after a call that failed;
  \<^verbatim>\<open>last_error\<close> is the last error, the thread is gone and joined. If a call panics, the calls after it do not
  happen and \<^verbatim>\<open>shutdown\<close> reports the panic.
\<close>

theorem worker_shutdown_works_off:
  assumes "alive c" and "\<not> handle_taken c" and "\<not> panicked c" and "pending c = replicate n Compact"
  shows "((\<forall>i < n. pass_result f s i \<noteq> Panic) \<longrightarrow>
      worker_shutdown f ((worker_step f ^^ k) (c, s, le)) =
        (Ok (), \<lparr>pending = [], alive = False, panicked = False, handle_taken = True\<rparr>, pass_state f s n, pass_error f s le n)) \<and>
    (\<forall>i < n. pass_result f s i = Panic \<and> (\<forall>j < i. pass_result f s j \<noteq> Panic) \<longrightarrow>
      worker_shutdown f ((worker_step f ^^ k) (c, s, le)) =
        (Err (error.Compaction ''compaction worker panicked''),
         \<lparr>pending = [], alive = False, panicked = True, handle_taken = True\<rparr>, pass_state f s (Suc i), pass_error f s le i))"
proof -
  let ?c = "c\<lparr>pending := pending c @ [Shutdown], handle_taken := True\<rparr>"
  have early: "worker_shutdown f ((worker_step f ^^ k) (c, s, le)) = worker_shutdown f (c, s, le)"
    using assms(2,4) by (intro worker_steps_shutdown) auto
  have down: "worker_shutdown f (c, s, le) =
      (case worker_loop f (?c, s, le) of (c, st) \<Rightarrow>
         (if panicked c then Err (error.Compaction ''compaction worker panicked'') else Ok (), c, st))"
    using assms(1,2) by (simp add: worker_shutdown_def Let_def)
  have c: "alive ?c" "pending ?c = replicate n Compact @ [Shutdown]"
    using assms(1,4) by simp_all
  have all: "c = \<lparr>pending = replicate n Compact, alive = True, panicked = False, handle_taken = False\<rparr>"
    using assms by (cases c) simp
  show ?thesis
  proof (intro conjI allI impI; (elim conjE)?)
    assume "\<forall>i < n. pass_result f s i \<noteq> Panic"
    from worker_loop_done [OF c this] show "worker_shutdown f ((worker_step f ^^ k) (c, s, le)) =
        (Ok (), \<lparr>pending = [], alive = False, panicked = False, handle_taken = True\<rparr>, pass_state f s n, pass_error f s le n)"
      unfolding early down by (simp add: all)
  next
    fix i
    assume "i < n" "pass_result f s i = Panic" "\<forall>j < i. pass_result f s j \<noteq> Panic"
    from worker_loop_panics [OF c this] show "worker_shutdown f ((worker_step f ^^ k) (c, s, le)) =
        (Err (error.Compaction ''compaction worker panicked''),
         \<lparr>pending = [], alive = False, panicked = True, handle_taken = True\<rparr>, pass_state f s (Suc i), pass_error f s le i)"
      unfolding early down by (simp add: all del: pass_state_simps)
  qed
qed

theorem worker_shutdown_works_off_witness:
  "worker_shutdown (\<lambda>s :: nat. (if s = 0 then Err EmptyKey else Ok (), s + 1))
      ((worker_step (\<lambda>s. (if s = 0 then Err EmptyKey else Ok (), s + 1)) ^^ 1) (worker_start\<lparr>pending := [Compact, Compact]\<rparr>, 0, None)) =
     (Ok (), \<lparr>pending = [], alive = False, panicked = False, handle_taken = True\<rparr>, 2, Some (error_display EmptyKey))"
proof -
  let ?f = "\<lambda>s :: nat. (if s = 0 then Err EmptyKey else Ok (), s + 1) :: unit result \<times> nat"
  let ?c = "worker_start\<lparr>pending := [Compact, Compact]\<rparr>"
  have c: "alive ?c" "\<not> handle_taken ?c" "\<not> panicked ?c" "pending ?c = replicate 2 Compact"
    by (simp_all add: worker_start_def numeral_2_eq_2)
  have "\<forall>i < 2. pass_result ?f 0 i \<noteq> Panic" "pass_state ?f 0 2 = 2" "pass_error ?f 0 None 2 = Some (error_display EmptyKey)"
    by (simp_all add: numeral_2_eq_2 less_Suc_eq)
  then show ?thesis
    using worker_shutdown_works_off [OF c, of ?f 0 1 None] by simp
qed

text \<open>The drop that follows a shutdown finds the thread joined and does nothing.\<close>

lemma worker_drop_joined: "\<not> alive c \<Longrightarrow> handle_taken c \<Longrightarrow> worker_drop f (c, st) = (c, st)"
  by (simp add: worker_drop_def worker_shutdown_def)

end
