(* ===== verification/Levels.thy ===== *)
theory Levels
  imports Compaction
begin

text \<open>
  The live tables by level, and how compaction picks and replaces them (\<^verbatim>\<open>Version\<close>, \<^verbatim>\<open>overlaps\<close>, \<^verbatim>\<open>span\<close>,
  \<^verbatim>\<open>pick_compaction\<close> and \<^verbatim>\<open>apply_compaction\<close> of \<^verbatim>\<open>src/src/engine.rs\<close>, with \<^verbatim>\<open>src/src/options.rs\<close>). A shared
  table is the table itself.

  The invariant is the one the comment of \<^verbatim>\<open>Version\<close> states: the tables of every level above L0 have disjoint
  key ranges. Picking a job and applying its output keep it, and no lookup changes.
\<close>

section \<open>Options\<close>

record options =
  memtable_size_bytes :: nat
  l0_compaction_trigger :: nat
  level_size_multiplier :: nat
  max_levels :: nat
  bloom_false_positive_rate :: rat
  opt_block_size :: nat
  cache_size_bytes :: nat

definition options_default :: options where
  "options_default = \<lparr>memtable_size_bytes = 4 * 1024 * 1024, l0_compaction_trigger = 4,
     level_size_multiplier = 10, max_levels = 7, bloom_false_positive_rate = 1 / 100,
     opt_block_size = 4 * 1024, cache_size_bytes = 8 * 1024 * 1024\<rparr>"

definition options_for_test :: options where
  "options_for_test = \<lparr>memtable_size_bytes = 2 * 1024, l0_compaction_trigger = 2,
     level_size_multiplier = 2, max_levels = 4, bloom_false_positive_rate = 1 / 100,
     opt_block_size = 256, cache_size_bytes = 16 * 1024\<rparr>"

section \<open>Versions\<close>

record version =
  levels :: "sstable list list"

definition with_max_levels :: "nat \<Rightarrow> version" where
  "with_max_levels n = \<lparr>levels = replicate n []\<rparr>"

definition tables_newest_first :: "version \<Rightarrow> sstable list" where
  "tables_newest_first v =
     (case levels v of [] \<Rightarrow> [] | l0 # _ \<Rightarrow> l0) @ concat (drop 1 (levels v))"

lemma tables_newest_first_concat [simp]: "tables_newest_first v = concat (levels v)"
  by (cases "levels v") (simp_all add: tables_newest_first_def)

section \<open>Picking a compaction\<close>

definition overlaps :: "sstable \<Rightarrow> bytes \<Rightarrow> bytes \<Rightarrow> bool" where
  "overlaps a b_small b_large =
     (if smallest a = [] \<and> largest a = [] then False
      else smallest a \<le> b_large \<and> b_small \<le> largest a)"

fun span_loop :: "sstable list \<Rightarrow> bytes \<times> bytes \<Rightarrow> bytes \<times> bytes" where
  "span_loop [] sl = sl"
| "span_loop (t # ts) (small, large) =
     span_loop ts (if smallest t < small then smallest t else small,
                   if largest t > large then largest t else large)"

definition span :: "sstable list \<Rightarrow> bytes \<times> bytes" where
  "span tables =
     (case tables of
        [] \<Rightarrow> ([], [])
      | t # ts \<Rightarrow> span_loop ts (smallest t, largest t))"

record compaction_job =
  inputs :: "sstable list"
  output_level :: nat

text \<open>\<^verbatim>\<open>u64::saturating_mul\<close>.\<close>

definition saturating_mul :: "u64 \<Rightarrow> u64 \<Rightarrow> u64" where
  "saturating_mul a b = (if unat a * unat b < 2 ^ 64 then a * b else - 1)"

text \<open>The loop over the levels from L1 to the one before the last.\<close>

fun pick_level :: "version \<Rightarrow> options \<Rightarrow> nat list \<Rightarrow> u64 \<Rightarrow> compaction_job option" where
  "pick_level v opts [] limit = None"
| "pick_level v opts (level # ls) limit =
     (if level \<ge> length (levels v) then None else
      let tables = levels v ! level;
          size = sum_list (map size_bytes tables)
      in if size > limit then
           (case tables of
              [] \<Rightarrow> None
            | victim # _ \<Rightarrow>
                Some \<lparr>inputs = victim #
                        (if level + 1 < length (levels v)
                         then filter (\<lambda>t. overlaps t (smallest victim) (largest victim)) (levels v ! (level + 1))
                         else []),
                      output_level = level + 1\<rparr>)
         else pick_level v opts ls (saturating_mul limit (as_u64 (level_size_multiplier opts))))"

definition pick_compaction :: "version \<Rightarrow> options \<Rightarrow> compaction_job option" where
  "pick_compaction v opts =
     (case levels v of
        [] \<Rightarrow> None
      | l0 # _ \<Rightarrow>
          if length l0 \<ge> l0_compaction_trigger opts then
            (let (small, large) = span l0 in
             Some \<lparr>inputs = l0 @
                     (if 1 < length (levels v) then filter (\<lambda>t. overlaps t small large) (levels v ! 1) else []),
                   output_level = min 1 (max_levels opts - 1)\<rparr>)
          else pick_level v opts [1..<max_levels opts - 1]
                 (as_u64 (memtable_size_bytes opts) * as_u64 (l0_compaction_trigger opts)))"

text \<open>\<^verbatim>\<open>lower_overlap\<close> and \<^verbatim>\<open>drop_tombstones\<close> of \<^verbatim>\<open>compact_once\<close>.\<close>

definition lower_overlap :: "version \<Rightarrow> compaction_job \<Rightarrow> bool" where
  "lower_overlap v job \<longleftrightarrow>
     list_ex (\<lambda>tables. list_ex (\<lambda>t. list_ex (\<lambda>i. overlaps t (smallest i) (largest i)) (inputs job)) tables)
       (drop (output_level job + 1) (levels v))"

definition may_drop_tombstones :: "version \<Rightarrow> options \<Rightarrow> compaction_job \<Rightarrow> bool" where
  "may_drop_tombstones v opts job \<longleftrightarrow>
     output_level job + 1 \<ge> max_levels opts \<or> \<not> lower_overlap v job"

section \<open>Applying its output\<close>

definition apply_compaction :: "compaction_job \<Rightarrow> sstable \<Rightarrow> version \<Rightarrow> version result" where
  "apply_compaction job output v =
     (let remove = set (map sst_id (inputs job));
          ls = map (filter (\<lambda>t. sst_id t \<notin> remove)) (levels v);
          dest = min (output_level job) (length ls - 1)
      in and_then (index ls dest) (\<lambda>tables.
           let tables = tables @ [output];
               tables = (if dest > 0 then sort_key smallest tables else tables)
           in Ok (v\<lparr>levels := ls[dest := tables]\<rparr>)))"

section \<open>Lookup in a version\<close>

abbreviation entries_map :: "world \<Rightarrow> sstable \<Rightarrow> bytes \<Rightarrow> entry option" where
  "entries_map w t \<equiv> map_of (sst_entries w t)"

definition tlook :: "world \<Rightarrow> sstable list \<Rightarrow> bytes \<Rightarrow> entry option" where
  "tlook w ts k = look (map (entries_map w) ts) k"

lemma tlook_simps [simp]:
  "tlook w [] k = None"
  "tlook w (t # ts) k = (case entries_map w t k of Some e \<Rightarrow> Some e | None \<Rightarrow> tlook w ts k)"
  unfolding tlook_def by simp_all

lemma tlook_append: "tlook w (ts @ us) k = (case tlook w ts k of Some e \<Rightarrow> Some e | None \<Rightarrow> tlook w us k)"
  unfolding tlook_def by (simp add: look_append)

lemma tlook_None_iff: "tlook w ts k = None \<longleftrightarrow> (\<forall>t \<in> set ts. entries_map w t k = None)"
  by (simp add: tlook_def look_None_iff)

lemma tlook_SomeD: "tlook w ts k = Some e \<Longrightarrow> \<exists>t \<in> set ts. entries_map w t k = Some e"
  using look_SomeD by (fastforce simp: tlook_def)

lemma tlook_unique:
  assumes "t \<in> set ts" and "entries_map w t k = Some e"
    and "\<And>u. u \<in> set ts \<Longrightarrow> entries_map w u k \<noteq> None \<Longrightarrow> u = t"
  shows "tlook w ts k = Some e"
  unfolding tlook_def
proof (rule look_unique)
  show "entries_map w t \<in> set (map (entries_map w) ts)"
    using assms(1) by simp
  show "entries_map w t k = Some e"
    by (rule assms(2))
  fix n
  assume "n \<in> set (map (entries_map w) ts)" and nk: "n k \<noteq> None"
  then obtain u where "u \<in> set ts" and n: "n = entries_map w u" by auto
  then show "n k = Some e"
    using assms(3) [of u] nk assms(2) by metis
qed

lemma tlook_cong:
  "(\<And>t. t \<in> set ts \<Longrightarrow> sst_entries w t = sst_entries w' t) \<Longrightarrow> tlook w ts k = tlook w' ts k"
  by (induction ts) (simp_all split: option.splits)

text \<open>A filter that keeps every table with the key changes nothing.\<close>

lemma tlook_filter:
  assumes "\<And>t. t \<in> set ts \<Longrightarrow> \<not> P t \<Longrightarrow> entries_map w t k = None"
  shows "tlook w (filter P ts) k = tlook w ts k"
  using assms by (induction ts) (auto split: option.splits)

text \<open>What a reader sees of an entry: a tombstone looks like nothing.\<close>

fun visible :: "entry option \<Rightarrow> bytes option" where
  "visible (Some (Value v)) = Some v"
| "visible _ = None"

section \<open>Disjoint levels\<close>

definition disjoint_tables :: "sstable \<Rightarrow> sstable \<Rightarrow> bool" where
  "disjoint_tables a b \<longleftrightarrow>
     table_empty a \<or> table_empty b \<or> largest a < smallest b \<or> largest b < smallest a"

lemma disjoint_tables_sym: "disjoint_tables a b \<Longrightarrow> disjoint_tables b a"
  by (auto simp: disjoint_tables_def)

lemma overlaps_iff: "overlaps a s l \<longleftrightarrow> \<not> table_empty a \<and> smallest a \<le> l \<and> s \<le> largest a"
  by (auto simp: overlaps_def table_empty_def)

lemma disjoint_keys:
  assumes "disjoint_tables a b" and "sst_ok w a" and "sst_ok w b" and "entries_map w a k = Some e"
  shows "entries_map w b k = None"
proof (rule ccontr)
  assume "entries_map w b k \<noteq> None"
  then obtain e' where b: "entries_map w b k = Some e'" by auto
  show False
    using assms(1) sst_ok_range [OF assms(2,4)] sst_ok_range [OF assms(3) b] by (auto simp: disjoint_tables_def)
qed

lemma sorted_wrt_sym_insort:
  assumes "\<And>a b. R a b \<Longrightarrow> R b a" and "sorted_wrt R xs" and "\<And>y. y \<in> set xs \<Longrightarrow> R x y"
  shows "sorted_wrt R (insort_key f x xs)"
  using assms(2,3)
proof (induction xs)
  case (Cons y ys)
  then show ?case
    using assms(1) by (auto simp: set_insort_key)
qed simp

lemma sorted_wrt_sym_sort:
  assumes "\<And>a b. R a b \<Longrightarrow> R b a" and "sorted_wrt R xs"
  shows "sorted_wrt R (sort_key f xs)"
  using assms(2)
proof (induction xs)
  case (Cons x xs)
  then show ?case
    using sorted_wrt_sym_insort [of R "sort_key f xs" x f] assms(1) by simp
qed simp

lemma sorted_wrt_pair:
  assumes "sorted_wrt R xs" and "\<And>a b. R a b \<Longrightarrow> R b a" and "a \<in> set xs" and "b \<in> set xs" and "a \<noteq> b"
  shows "R a b"
proof -
  obtain i j where ij: "i < length xs" "j < length xs" "xs ! i = a" "xs ! j = b"
    using assms(3,4) by (auto simp: in_set_conv_nth)
  with assms(5) have "i < j \<or> j < i" by (metis linorder_neqE_nat)
  then show ?thesis
    using sorted_wrt_nth_less [OF assms(1)] assms(2) ij by metis
qed

definition version_ok :: "world \<Rightarrow> version \<Rightarrow> bool" where
  "version_ok w v \<longleftrightarrow>
     list_all (sst_ok w) (concat (levels v)) \<and> distinct (map sst_id (concat (levels v))) \<and>
     list_all (sorted_wrt disjoint_tables) (drop 1 (levels v))"

text \<open>In a disjoint level at most one table has a key.\<close>

lemma level_unique:
  assumes "sorted_wrt disjoint_tables ts" and "list_all (sst_ok w) ts"
    and "t \<in> set ts" and "u \<in> set ts" and "entries_map w t k = Some e" and "entries_map w u k \<noteq> None"
  shows "u = t"
proof (rule ccontr)
  assume "u \<noteq> t"
  then have "disjoint_tables t u"
    using sorted_wrt_pair [OF assms(1) disjoint_tables_sym assms(3,4)] by metis
  then show False
    using disjoint_keys [of t u w k e] assms(2-) by (auto simp: list_all_iff)
qed

section \<open>Replacing inputs by their merge changes no lookup\<close>

text \<open>
  \<open>X\<close> and \<open>Y\<close> are the two levels of a job, \<open>I\<close> marks its inputs, \<open>ot\<close> is its output, and \<open>Y'\<close> the second level
  after it.
\<close>

lemma swap_lookup:
  assumes out: "entries_map w ot k =
      (case tlook w (filter I X @ filter I Y) k of
         Some e \<Rightarrow> if e = Tombstone \<and> d then None else Some e | None \<Rightarrow> None)"
    and first: "\<And>t u. t \<in> set X \<Longrightarrow> I t \<Longrightarrow> u \<in> set X \<Longrightarrow> \<not> I u \<Longrightarrow> entries_map w t k \<noteq> None \<Longrightarrow> entries_map w u k = None"
    and second: "\<And>t u. t \<in> set (X @ Y) \<Longrightarrow> I t \<Longrightarrow> u \<in> set Y \<Longrightarrow> \<not> I u \<Longrightarrow> entries_map w t k \<noteq> None \<Longrightarrow> entries_map w u k = None"
    and below: "\<And>t u. d \<Longrightarrow> t \<in> set (X @ Y) \<Longrightarrow> I t \<Longrightarrow> u \<in> set rest \<Longrightarrow> entries_map w t k \<noteq> None \<Longrightarrow> entries_map w u k = None"
    and Y': "set Y' = {t \<in> set Y. \<not> I t} \<union> {ot}"
    and unique: "\<And>t u. t \<in> set Y \<Longrightarrow> u \<in> set Y \<Longrightarrow> entries_map w t k \<noteq> None \<Longrightarrow> entries_map w u k \<noteq> None \<Longrightarrow> u = t"
  shows "visible (tlook w (pre @ filter (\<lambda>t. \<not> I t) X @ Y' @ rest) k) = visible (tlook w (pre @ X @ Y @ rest) k)"
proof -
  let ?N = "\<lambda>t. \<not> I t"
  have "visible (tlook w (filter ?N X @ Y' @ rest) k) = visible (tlook w (X @ Y @ rest) k)"
  proof (cases "\<exists>t \<in> set (X @ Y). I t \<and> entries_map w t k \<noteq> None")
    case False
    then have "tlook w (filter I X @ filter I Y) k = None"
      by (auto simp: tlook_None_iff)
    then have noO: "entries_map w ot k = None"
      using out by simp
    have X: "tlook w (filter ?N X) k = tlook w X k"
      using False by (intro tlook_filter) auto
    have Y: "tlook w Y' k = tlook w Y k"
    proof (cases "tlook w Y k")
      case None
      then have "tlook w Y' k = None"
        using Y' noO by (auto simp: tlook_None_iff)
      with None show ?thesis by simp
    next
      case (Some e)
      then obtain t where t: "t \<in> set Y" "entries_map w t k = Some e"
        by (auto dest: tlook_SomeD)
      have "tlook w Y' k = Some e"
      proof (rule tlook_unique)
        show "t \<in> set Y'"
          using t False Y' by auto
        show "entries_map w t k = Some e" by (rule t)
        show "u = t" if "u \<in> set Y'" "entries_map w u k \<noteq> None" for u
          using that Y' noO unique [of t u] t by auto
      qed
      with Some show ?thesis by simp
    qed
    show ?thesis
      unfolding tlook_append X Y by (rule refl)
  next
    case True
    then obtain t where t: "t \<in> set (X @ Y)" "I t" "entries_map w t k \<noteq> None" by auto
    have noY: "tlook w (filter ?N Y) k = None"
      using second [OF t(1,2) _ _ t(3)] by (auto simp: tlook_None_iff)
    have Yin: "tlook w (filter I Y) k = tlook w Y k"
      using second [OF t(1,2) _ _ t(3)] by (intro tlook_filter) auto
    have Y'only: "tlook w Y' k = entries_map w ot k"
    proof (cases "entries_map w ot k")
      case None
      then have "tlook w Y' k = None"
        using Y' noY by (auto simp: tlook_None_iff)
      with None show ?thesis by simp
    next
      case (Some e)
      have "tlook w Y' k = Some e"
      proof (rule tlook_unique [OF _ Some])
        show "ot \<in> set Y'" using Y' by simp
        show "u = ot" if "u \<in> set Y'" "entries_map w u k \<noteq> None" for u
          using that Y' noY by (auto simp: tlook_None_iff)
      qed
      with Some show ?thesis by simp
    qed
    show ?thesis
    proof (cases "tlook w (filter ?N X) k")
      case (Some e)
      then obtain u where u: "u \<in> set X" "\<not> I u" "entries_map w u k \<noteq> None"
        using tlook_SomeD [OF Some] by auto
      have "entries_map w t k = None" if "t \<in> set X" "I t" for t
        using first [OF that u(1,2)] u(3) by blast
      then have "tlook w (filter ?N X) k = tlook w X k"
        by (intro tlook_filter) simp
      with Some show ?thesis
        unfolding tlook_append by simp
    next
      case None
      then have Xin: "tlook w (filter I X) k = tlook w X k"
        by (intro tlook_filter) (auto simp: tlook_None_iff)
      have both: "tlook w (filter I X @ filter I Y) k = tlook w (X @ Y) k"
        unfolding tlook_append Xin Yin by (rule refl)
      obtain e where e: "tlook w (X @ Y) k = Some e"
        using t(1,3) by (cases "tlook w (X @ Y) k") (auto simp: tlook_None_iff)
      have "tlook w rest k = None" if "d"
        using below [OF that t(1,2) _ t(3)] by (auto simp: tlook_None_iff)
      then have "visible (case entries_map w ot k of Some e \<Rightarrow> Some e | None \<Rightarrow> tlook w rest k) = visible (Some e)"
        using out both e by auto
      moreover have "tlook w (X @ Y @ rest) k = Some e"
        using e by (simp add: tlook_append split: option.splits)
      ultimately show ?thesis
        unfolding tlook_append using None Y'only by simp
    qed
  qed
  then show ?thesis
    unfolding tlook_append [of w pre] by (cases "tlook w pre k") simp_all
qed

section \<open>The shape of a job\<close>

lemma span_loop_bounds:
  assumes "span_loop ts (s, l) = (s', l')"
  shows "s' \<le> s \<and> l \<le> l' \<and> (\<forall>t \<in> set ts. s' \<le> smallest t \<and> largest t \<le> l')"
  using assms
proof (induction ts arbitrary: s l)
  case (Cons t ts)
  then have "s' \<le> (if smallest t < s then smallest t else s) \<and>
      (if largest t > l then largest t else l) \<le> l' \<and>
      (\<forall>t \<in> set ts. s' \<le> smallest t \<and> largest t \<le> l')"
    using Cons.IH [of "if smallest t < s then smallest t else s" "if largest t > l then largest t else l"] by simp
  then show ?case
    by (auto split: if_splits)
qed simp

lemma span_bounds: "span ts = (s, l) \<Longrightarrow> t \<in> set ts \<Longrightarrow> s \<le> smallest t \<and> largest t \<le> l"
proof (cases ts)
  case (Cons u us)
  assume "span ts = (s, l)" and "t \<in> set ts"
  then show ?thesis
    using span_loop_bounds [of us "smallest u" "largest u" s l] Cons by (auto simp: span_def)
qed simp

text \<open>
  A job takes tables of one level, all of them from L0, and from the next level the tables that overlap
  their span; with a single level it takes everything.
\<close>

definition two_level_job ::
  "version \<Rightarrow> compaction_job \<Rightarrow> sstable list list \<Rightarrow> sstable list \<Rightarrow> sstable list \<Rightarrow> sstable list list \<Rightarrow>
     sstable list \<Rightarrow> sstable list \<Rightarrow> bytes \<Rightarrow> bytes \<Rightarrow> bool" where
  "two_level_job v job pre X Y rest XI YI s l \<longleftrightarrow>
     levels v = pre @ X # Y # rest \<and> inputs job = XI @ YI \<and> output_level job = Suc (length pre) \<and>
     YI = filter (\<lambda>t. overlaps t s l) Y \<and> (XI = X \<or> (pre \<noteq> [] \<and> (\<exists>x xs. X = x # xs \<and> XI = [x]))) \<and>
     (\<forall>t \<in> set XI. s \<le> smallest t \<and> largest t \<le> l)"

lemma levels_split: "Suc n < length ls \<Longrightarrow> \<exists>pre rest. ls = pre @ ls ! n # ls ! Suc n # rest \<and> length pre = n"
  by (metis Cons_nth_drop_Suc Suc_lessD id_take_nth_drop length_take min.absorb4)

lemma pick_level_shape:
  assumes "pick_level v opts ls limit = Some job" and "\<forall>l \<in> set ls. 0 < l \<and> Suc l < length (levels v)"
  shows "\<exists>pre X Y rest XI YI s l. two_level_job v job pre X Y rest XI YI s l"
  using assms
proof (induction v opts ls limit rule: pick_level.induct)
  case (2 v opts level ls limit)
  have level: "0 < level" "Suc level < length (levels v)"
    using 2(3) by simp_all
  show ?case
  proof (cases "sum_list (map size_bytes (levels v ! level)) > limit")
    case False
    then show ?thesis
      using 2 level by (simp add: Let_def)
  next
    case True
    then obtain victim others where X: "levels v ! level = victim # others"
        and job: "job = \<lparr>inputs = victim # filter (\<lambda>t. overlaps t (smallest victim) (largest victim)) (levels v ! Suc level),
          output_level = Suc level\<rparr>"
      using 2(2) level by (auto simp: Let_def split: list.splits)
    obtain pre rest where "levels v = pre @ levels v ! level # levels v ! Suc level # rest" "length pre = level"
      using levels_split [OF level(2)] by blast
    then have "two_level_job v job pre (levels v ! level) (levels v ! Suc level) rest [victim]
        (filter (\<lambda>t. overlaps t (smallest victim) (largest victim)) (levels v ! Suc level)) (smallest victim) (largest victim)"
      using level X by (auto simp: two_level_job_def job)
    then show ?thesis by blast
  qed
qed simp

lemma pick_compaction_shape:
  assumes pick: "pick_compaction v opts = Some job" and len: "length (levels v) = max_levels opts"
  obtains (one) X where "levels v = [X]" and "inputs job = X" and "output_level job = 0"
  | (two) pre X Y rest XI YI s l where "two_level_job v job pre X Y rest XI YI s l"
proof (cases "levels v")
  case Nil
  then show thesis using pick by (simp add: pick_compaction_def)
next
  case (Cons l0 ls)
  show thesis
  proof (cases "length l0 \<ge> l0_compaction_trigger opts")
    case False
    then have "pick_level v opts [1..<max_levels opts - 1]
        (as_u64 (memtable_size_bytes opts) * as_u64 (l0_compaction_trigger opts)) = Some job"
      using pick Cons by (simp add: pick_compaction_def)
    then show thesis
      using pick_level_shape [of v opts "[1..<max_levels opts - 1]"] len two by fastforce
  next
    case True
    obtain s l where span: "span l0 = (s, l)" by fastforce
    show thesis
    proof (cases ls)
      case Nil
      then show thesis
        using pick True Cons span len by (intro one [of l0]) (auto simp: pick_compaction_def)
    next
      case Y: (Cons l1 rest)
      have "two_level_job v job [] l0 l1 rest l0 (filter (\<lambda>t. overlaps t s l) l1) s l"
        using pick True Cons Y span len span_bounds [OF span]
        by (auto simp: pick_compaction_def two_level_job_def)
      then show thesis by (rule two)
    qed
  qed
qed

section \<open>The levels after a job\<close>

definition is_input :: "compaction_job \<Rightarrow> sstable \<Rightarrow> bool" where
  "is_input job t \<longleftrightarrow> sst_id t \<in> set (map sst_id (inputs job))"

lemma distinct_id_eq:
  "distinct (map sst_id ts) \<Longrightarrow> t \<in> set ts \<Longrightarrow> u \<in> set ts \<Longrightarrow> sst_id t = sst_id u \<Longrightarrow> t = u"
  by (auto simp: distinct_map dest: inj_onD)

lemma two_level_inputs:
  assumes job: "two_level_job v job pre X Y rest XI YI s l" and dist: "distinct (map sst_id (concat (levels v)))"
  shows "filter (is_input job) X = XI" and "filter (is_input job) Y = YI"
    and "\<And>t. t \<in> set (concat pre) \<union> set (concat rest) \<Longrightarrow> \<not> is_input job t"
    and "set XI \<subseteq> set X" and "set YI \<subseteq> set Y"
proof -
  have lv: "levels v = pre @ X # Y # rest" "inputs job = XI @ YI" and YI: "YI = filter (\<lambda>t. overlaps t s l) Y"
    using job by (simp_all add: two_level_job_def)
  show XI: "set XI \<subseteq> set X" and "set YI \<subseteq> set Y"
    using job by (auto simp: two_level_job_def)
  have inp: "is_input job t \<longleftrightarrow> t \<in> set XI \<union> set YI" if "t \<in> set (concat (levels v))" for t
    using distinct_id_eq [OF dist that] XI YI lv by (auto simp: is_input_def)
  have d: "distinct (concat pre @ X @ Y @ concat rest)"
    using dist unfolding distinct_map lv(1) by simp
  then have dX: "distinct X" by simp
  have disj: "set X \<inter> set Y = {}" "set (concat pre) \<inter> (set X \<union> set Y) = {}" "set (concat rest) \<inter> (set X \<union> set Y) = {}"
    using d by auto
  show "\<not> is_input job t" if "t \<in> set (concat pre) \<union> set (concat rest)" for t
  proof -
    have "t \<in> set (concat (levels v))"
      using that lv(1) by auto
    from inp [OF this] show ?thesis
      using that disj XI \<open>set YI \<subseteq> set Y\<close> by blast
  qed
  have "filter (is_input job) Y = filter (\<lambda>t. overlaps t s l) Y"
    using inp disj XI YI lv by (intro filter_cong) auto
  then show "filter (is_input job) Y = YI" by (simp add: YI)
  have XX: "filter (is_input job) X = filter (\<lambda>t. t \<in> set XI) X"
    using inp disj XI YI lv by (intro filter_cong) auto
  consider "XI = X" | x xs where "X = x # xs" "XI = [x]"
    using job by (auto simp: two_level_job_def)
  then show "filter (is_input job) X = XI"
  proof cases
    case 1
    then show ?thesis using XX by simp
  next
    case 2
    then show ?thesis using XX dX by (auto simp: filter_empty_conv)
  qed
qed

lemma apply_two_level:
  assumes job: "two_level_job v job pre X Y rest XI YI s l" and dist: "distinct (map sst_id (concat (levels v)))"
  shows "apply_compaction job output v =
    Ok (v\<lparr>levels := pre @ filter (\<lambda>t. \<not> is_input job t) X #
      sort_key smallest (filter (\<lambda>t. \<not> is_input job t) Y @ [output]) # rest\<rparr>)"
proof -
  note inp = two_level_inputs [OF assms]
  let ?N = "\<lambda>t. \<not> is_input job t"
  have lv: "levels v = pre @ X # Y # rest" and lvl: "output_level job = Suc (length pre)"
    using job by (simp_all add: two_level_job_def)
  have "map (filter ?N) pre = pre" "map (filter ?N) rest = rest"
    using inp(3) by (fastforce intro!: map_idI simp: filter_id_conv)+
  then have ls: "map (filter ?N) (levels v) = pre @ filter ?N X # filter ?N Y # rest"
    by (simp add: lv)
  have fold: "(\<lambda>t. sst_id t \<notin> set (map sst_id (inputs job))) = ?N"
    by (simp add: is_input_def fun_eq_iff)
  show ?thesis
    unfolding apply_compaction_def Let_def fold ls
    by (simp add: lvl index_def nth_append list_update_append)
qed

lemma apply_one_level:
  assumes "levels v = [X]" and "inputs job = X" and "output_level job = 0"
  shows "apply_compaction job output v = Ok (v\<lparr>levels := [[output]]\<rparr>)"
  using assms by (simp add: apply_compaction_def Let_def index_def filter_empty_conv)

section \<open>Compaction is sound\<close>

text \<open>What the output of a job has to be.\<close>

definition job_output :: "world \<Rightarrow> version \<Rightarrow> options \<Rightarrow> compaction_job \<Rightarrow> sstable \<Rightarrow> bool" where
  "job_output w v opts job ot \<longleftrightarrow>
     sst_ok w ot \<and> sst_id ot \<notin> sst_id ` set (concat (levels v)) \<and>
     sst_entries w ot =
       filter (keep_entry (may_drop_tombstones v opts job)) (merge_ref (map (sst_entries w) (inputs job)))"

lemma job_output_lookup:
  assumes "job_output w v opts job ot" and "list_all (sst_ok w) (inputs job)"
  shows "entries_map w ot k =
    (case tlook w (inputs job) k of
       Some e \<Rightarrow> if e = Tombstone \<and> may_drop_tombstones v opts job then None else Some e
     | None \<Rightarrow> None)"
proof -
  have "list_all ksorted (map (sst_entries w) (inputs job))"
    using assms(2) by (auto simp: list_all_iff sst_ok_ksorted)
  from merged_lookup [OF this] assms(1) show ?thesis
    by (simp add: job_output_def tlook_def comp_def)
qed

lemma job_output_keys:
  assumes "job_output w v opts job ot" and "list_all (sst_ok w) (inputs job)"
    and "k \<in> fst ` set (sst_entries w ot)"
  obtains t e where "t \<in> set (inputs job)" and "entries_map w t k = Some e"
proof -
  have "entries_map w ot k \<noteq> None"
    using assms(3) by (simp add: map_of_eq_None_iff)
  then obtain e where "tlook w (inputs job) k = Some e"
    using job_output_lookup [OF assms(1,2), of k] by (auto split: option.splits)
  then show thesis
    using that by (auto dest: tlook_SomeD)
qed

text \<open>
  A table of the second level that is not an input lies wholly on one side of all inputs, so it stays
  disjoint from the output.
\<close>

lemma output_disjoint:
  assumes job: "two_level_job v job pre X Y rest XI YI s l" and vok: "version_ok w v"
    and out: "job_output w v opts job ot" and inp: "list_all (sst_ok w) (inputs job)"
    and T: "T \<in> set Y" "T \<notin> set YI"
  shows "disjoint_tables T ot"
proof (cases "table_empty T \<or> table_empty ot")
  case True
  then show ?thesis by (auto simp: disjoint_tables_def)
next
  case False
  have YI: "YI = filter (\<lambda>t. overlaps t s l) Y" and inputs: "inputs job = XI @ YI"
    and X: "\<forall>t \<in> set XI. s \<le> smallest t \<and> largest t \<le> l" and lv: "levels v = pre @ X # Y # rest"
    using job by (simp_all add: two_level_job_def)
  have Y: "sorted_wrt disjoint_tables Y"
    using vok lv by (cases pre) (simp_all add: version_ok_def)
  have okT: "sst_ok w T"
    using vok lv T(1) by (auto simp: version_ok_def list_all_iff)
  note endsT = sst_ok_ends(3) [OF okT]
  have side: "l < smallest T \<or> largest T < s"
    using T False by (auto simp: YI overlaps_iff)
  have dis: "disjoint_tables T y" if "y \<in> set YI" for y
    using that T sorted_wrt_pair [OF Y disjoint_tables_sym T(1), of y] by (auto simp: YI)
  have okot: "sst_ok w ot"
    using out by (simp add: job_output_def)
  note ends = sst_ok_ends [OF okot]
  obtain a ea where a: "a \<in> set (inputs job)" "entries_map w a (smallest ot) = Some ea"
    using job_output_keys [OF out inp ends(1)] False by blast
  obtain b eb where b: "b \<in> set (inputs job)" "entries_map w b (largest ot) = Some eb"
    using job_output_keys [OF out inp ends(2)] False by blast
  have ra: "\<not> table_empty a" "smallest a \<le> smallest ot" "smallest ot \<le> largest a"
    and rb: "\<not> table_empty b" "smallest b \<le> largest ot" "largest ot \<le> largest b"
    using sst_ok_range [OF _ a(2)] sst_ok_range [OF _ b(2)] a(1) b(1) inp by (auto simp: list_all_iff)
  from side show ?thesis
  proof
    assume left: "l < smallest T"
    have "largest b < smallest T"
    proof (cases "b \<in> set XI")
      case True
      then show ?thesis using X left by (auto intro: le_less_trans)
    next
      case notX: False
      then have y: "b \<in> set YI" using b(1) inputs by simp
      then have "smallest b \<le> l" by (simp add: YI overlaps_iff)
      then have "smallest b < smallest T" using left by simp
      then show ?thesis
        using dis [OF y] rb(1) False endsT by (auto simp: disjoint_tables_def)
    qed
    then show ?thesis
      using rb(3) by (auto simp: disjoint_tables_def)
  next
    assume right: "largest T < s"
    have "largest T < smallest a"
    proof (cases "a \<in> set XI")
      case True
      then show ?thesis using X right by (auto intro: less_le_trans)
    next
      case notX: False
      then have y: "a \<in> set YI" using a(1) inputs by simp
      then have "s \<le> largest a" by (simp add: YI overlaps_iff)
      then have "largest T < largest a" using right by simp
      then show ?thesis
        using dis [OF y] ra(1) False endsT by (auto simp: disjoint_tables_def)
    qed
    then show ?thesis
      using ra(2) by (auto simp: disjoint_tables_def)
  qed
qed

lemma below_untouched:
  assumes "may_drop_tombstones v opts job" and len: "length (levels v) = max_levels opts"
    and rest: "rest = drop (Suc (output_level job)) (levels v)" and ok: "list_all (sst_ok w) (concat rest)"
    and t: "t \<in> set (inputs job)" "sst_ok w t" "entries_map w t k \<noteq> None" and u: "u \<in> set (concat rest)"
  shows "entries_map w u k = None"
proof (rule ccontr)
  assume "entries_map w u k \<noteq> None"
  then obtain e e' where e: "entries_map w t k = Some e" "entries_map w u k = Some e'"
    using t(3) by auto
  have "sst_ok w u"
    using ok u by (auto simp: list_all_iff)
  then have "overlaps u (smallest t) (largest t)"
    using sst_ok_range [OF _ e(2)] sst_ok_range [OF t(2) e(1)] by (auto simp: overlaps_iff)
  then have "lower_overlap v job"
    using t(1) u by (auto simp: lower_overlap_def rest list_ex_iff)
  moreover have "rest \<noteq> []" using u by auto
  then have "Suc (output_level job) < max_levels opts"
    using len rest by (metis drop_eq_Nil2 not_less)
  ultimately show False
    using assms(1) by (simp add: may_drop_tombstones_def)
qed

lemma two_level_second:
  assumes job: "two_level_job v job pre X Y rest XI YI s l" and dist: "distinct (map sst_id (concat (levels v)))"
    and ok: "list_all (sst_ok w) (concat (levels v))" and Ydis: "sorted_wrt disjoint_tables Y"
    and t: "t \<in> set (X @ Y)" "is_input job t" and u: "u \<in> set Y" "\<not> is_input job u"
    and k: "entries_map w t k \<noteq> None"
  shows "entries_map w u k = None"
proof (rule ccontr)
  assume uk: "entries_map w u k \<noteq> None"
  note inp = two_level_inputs [OF job dist]
  have lv: "levels v = pre @ X # Y # rest" and YI: "YI = filter (\<lambda>t. overlaps t s l) Y"
    and XI: "\<forall>t \<in> set XI. s \<le> smallest t \<and> largest t \<le> l"
    using job by (simp_all add: two_level_job_def)
  have okX: "list_all (sst_ok w) X" and okY: "list_all (sst_ok w) Y"
    using ok by (simp_all add: lv)
  show False
  proof (cases "t \<in> set Y")
    case True
    then have "u = t"
      using level_unique [OF Ydis okY True u(1)] k uk by blast
    then show False using t(2) u(2) by simp
  next
    case False
    then have "t \<in> set (filter (is_input job) X)" using t by auto
    then have tX: "t \<in> set XI" "t \<in> set X" using inp(1) by auto
    obtain e e' where e: "entries_map w t k = Some e" "entries_map w u k = Some e'"
      using k uk by auto
    have "s \<le> k" "k \<le> l" "\<not> table_empty u" "smallest u \<le> k" "k \<le> largest u"
      using sst_ok_range [OF _ e(1)] sst_ok_range [OF _ e(2)] XI tX u(1) okX okY by (force simp: list_all_iff)+
    then have "u \<in> set YI"
      using u(1) by (auto simp: YI overlaps_iff)
    then show False
      using u inp(2) by auto
  qed
qed

lemma two_level_version_ok:
  assumes job: "two_level_job v job pre X Y rest XI YI s l" and vok: "version_ok w v"
    and out: "job_output w v opts job ot" and okI: "list_all (sst_ok w) (inputs job)"
  shows "version_ok w (v\<lparr>levels := pre @ filter (\<lambda>t. \<not> is_input job t) X #
    sort_key smallest (filter (\<lambda>t. \<not> is_input job t) Y @ [ot]) # rest\<rparr>)"
proof -
  let ?N = "\<lambda>t. \<not> is_input job t"
  let ?Y' = "sort_key smallest (filter ?N Y @ [ot])"
  have lv: "levels v = pre @ X # Y # rest"
    using job by (simp add: two_level_job_def)
  have ok: "list_all (sst_ok w) (concat (levels v))" and dist: "distinct (map sst_id (concat (levels v)))"
    and dis: "list_all (sorted_wrt disjoint_tables) (drop 1 (levels v))"
    using vok by (simp_all add: version_ok_def)
  have ot: "sst_ok w ot" "sst_id ot \<notin> sst_id ` set (concat (levels v))"
    using out by (simp_all add: job_output_def)
  let ?new = "concat pre @ filter ?N X @ ?Y' @ concat rest" and ?old = "concat pre @ X @ Y @ concat rest"
  have old: "concat (levels v) = ?old" by (simp add: lv)
  have sub: "set ?new \<subseteq> insert ot (set ?old)" by auto
  have d: "distinct ?old" "inj_on sst_id (set ?old)"
    using dist unfolding distinct_map old by simp_all
  have "ot \<notin> set ?old"
    using ot(2) unfolding old by blast
  then have "distinct ?new"
    using d(1) by auto
  moreover have "inj_on sst_id (insert ot (set ?old))"
    using d(2) ot(2) unfolding old by (auto simp: inj_on_insert)
  then have "inj_on sst_id (set ?new)"
    using sub by (rule inj_on_subset)
  ultimately have ids: "distinct (map sst_id ?new)"
    unfolding distinct_map by blast
  have oks: "list_all (sst_ok w) ?new"
    using ok ot(1) by (auto simp: old list_all_iff)
  have Ydis: "sorted_wrt disjoint_tables Y"
    using dis by (cases pre) (simp_all add: lv)
  have out_dis: "disjoint_tables t ot" if "t \<in> set Y" "?N t" for t
    using output_disjoint [OF job vok out okI that(1)] two_level_inputs(2) [OF job dist] that by auto
  have "sorted_wrt disjoint_tables (filter ?N Y)"
    using Ydis by (rule sorted_wrt_filter)
  then have "sorted_wrt disjoint_tables (filter ?N Y @ [ot])"
    using out_dis by (simp add: sorted_wrt_append)
  then have "sorted_wrt disjoint_tables ?Y'"
    using sorted_wrt_sym_sort [of disjoint_tables] disjoint_tables_sym by blast
  moreover have "pre \<noteq> [] \<Longrightarrow> sorted_wrt disjoint_tables (filter ?N X)"
    using dis by (cases pre) (simp_all add: lv sorted_wrt_filter)
  ultimately have "list_all (sorted_wrt disjoint_tables) (drop 1 (pre @ filter ?N X # ?Y' # rest))"
    using dis by (cases pre) (simp_all add: lv)
  with ids oks show ?thesis
    by (simp add: version_ok_def)
qed

lemma compaction_two_level:
  assumes job: "two_level_job v job pre X Y rest XI YI s l" and vok: "version_ok w v"
    and len: "length (levels v) = max_levels opts" and out: "job_output w v opts job ot"
  shows "\<exists>v'. apply_compaction job ot v = Ok v' \<and> version_ok w v' \<and> length (levels v') = length (levels v) \<and>
    (\<forall>k. visible (tlook w (concat (levels v')) k) = visible (tlook w (concat (levels v)) k)) \<and>
    set (concat (levels v')) \<subseteq> insert ot (set (concat (levels v)))"
proof -
  let ?I = "is_input job" and ?N = "\<lambda>t. \<not> is_input job t"
  have lv: "levels v = pre @ X # Y # rest" and inputs: "inputs job = XI @ YI" and lvl: "output_level job = Suc (length pre)"
    using job by (simp_all add: two_level_job_def)
  have ok: "list_all (sst_ok w) (concat (levels v))" and dist: "distinct (map sst_id (concat (levels v)))"
    and dis: "list_all (sorted_wrt disjoint_tables) (drop 1 (levels v))"
    using vok by (simp_all add: version_ok_def)
  have Ydis: "sorted_wrt disjoint_tables Y"
    using dis by (cases pre) (simp_all add: lv)
  note inp = two_level_inputs [OF job dist]
  have okX: "list_all (sst_ok w) X" and okY: "list_all (sst_ok w) Y" and okrest: "list_all (sst_ok w) (concat rest)"
    using ok by (simp_all add: lv)
  have okI: "list_all (sst_ok w) (inputs job)"
    using okX okY inp(4,5) by (auto simp: inputs list_all_iff)
  let ?Y' = "sort_key smallest (filter ?N Y @ [ot])"
  let ?v' = "v\<lparr>levels := pre @ filter ?N X # ?Y' # rest\<rparr>"
  have applied: "apply_compaction job ot v = Ok ?v'"
    by (rule apply_two_level [OF job dist])
  have Y'set: "set ?Y' = {t \<in> set Y. \<not> ?I t} \<union> {ot}"
    by auto
  have uniqY: "u = t" if "t \<in> set Y" "u \<in> set Y" "entries_map w t k \<noteq> None" "entries_map w u k \<noteq> None" for t u k
    using level_unique [OF Ydis okY that(1,2)] that(3,4) by blast
  have inXY: "?I t \<longleftrightarrow> t \<in> set (inputs job)" if "t \<in> set (X @ Y)" for t
    using that inp(1,2) by (auto simp: inputs)
  have vis: "visible (tlook w (concat pre @ filter ?N X @ ?Y' @ concat rest) k) =
      visible (tlook w (concat pre @ X @ Y @ concat rest) k)" for k
  proof (rule swap_lookup [where d = "may_drop_tombstones v opts job", OF _ _ _ _ Y'set uniqY])
    show "entries_map w ot k = (case tlook w (filter ?I X @ filter ?I Y) k of
        Some e \<Rightarrow> if e = Tombstone \<and> may_drop_tombstones v opts job then None else Some e | None \<Rightarrow> None)"
      using job_output_lookup [OF out okI, of k] by (simp add: inp(1,2) inputs)
    show "entries_map w u k = None" if "t \<in> set X" "?I t" "u \<in> set X" "\<not> ?I u" "entries_map w t k \<noteq> None" for t u
    proof (cases "XI = X")
      case True
      then show ?thesis using that inXY by (auto simp: inputs)
    next
      case False
      then have "sorted_wrt disjoint_tables X"
        using job vok lv by (cases pre) (auto simp: two_level_job_def version_ok_def)
      then show ?thesis
        using level_unique [OF _ okX that(1,3)] that by blast
    qed
    show "entries_map w u k = None"
      if "t \<in> set (X @ Y)" "?I t" "u \<in> set Y" "\<not> ?I u" "entries_map w t k \<noteq> None" for t u
      using two_level_second [OF job dist ok Ydis that] .
    show "entries_map w u k = None"
      if "may_drop_tombstones v opts job" "t \<in> set (X @ Y)" "?I t" "u \<in> set (concat rest)" "entries_map w t k \<noteq> None" for t u
    proof (rule below_untouched [OF that(1) len _ okrest])
      show "rest = drop (Suc (output_level job)) (levels v)"
        by (simp add: lv lvl)
      show "t \<in> set (inputs job)" using that(2,3) inXY by blast
      then show "sst_ok w t" using okI by (simp add: list_all_iff)
    qed (use that in simp_all)
  qed assumption+
  have "version_ok w ?v'"
    by (rule two_level_version_ok [OF job vok out okI])
  then show ?thesis
    using applied vis by (auto simp: lv)
qed

lemma compaction_one_level:
  assumes lv: "levels v = [X]" and inp: "inputs job = X" "output_level job = 0" and vok: "version_ok w v"
    and out: "job_output w v opts job ot"
  shows "\<exists>v'. apply_compaction job ot v = Ok v' \<and> version_ok w v' \<and> length (levels v') = length (levels v) \<and>
    (\<forall>k. visible (tlook w (concat (levels v')) k) = visible (tlook w (concat (levels v)) k)) \<and>
    set (concat (levels v')) \<subseteq> insert ot (set (concat (levels v)))"
proof -
  have okI: "list_all (sst_ok w) (inputs job)"
    using vok lv inp by (simp add: version_ok_def)
  have "visible (entries_map w ot k) = visible (tlook w X k)" for k
    using job_output_lookup [OF out okI, of k] inp by (auto split: option.splits)
  then have "visible (tlook w [ot] k) = visible (tlook w X k)" for k
    by (cases "entries_map w ot k") (metis tlook_simps option.simps(4,5))+
  then show ?thesis
    using apply_one_level [OF lv inp, of ot] out lv
    by (auto simp: version_ok_def job_output_def)
qed

lemma compaction_sound:
  assumes "version_ok w v" and "length (levels v) = max_levels opts"
    and "pick_compaction v opts = Some job" and "job_output w v opts job ot"
  obtains v' where "apply_compaction job ot v = Ok v'" and "version_ok w v'" and "length (levels v') = length (levels v)"
    and "\<And>k. visible (tlook w (concat (levels v')) k) = visible (tlook w (concat (levels v)) k)"
    and "set (concat (levels v')) \<subseteq> insert ot (set (concat (levels v)))"
  using assms(3,2)
proof (cases rule: pick_compaction_shape)
  case (one X)
  then show thesis
    using compaction_one_level [OF one assms(1,4)] that by blast
next
  case (two pre X Y rest XI YI s l)
  then show thesis
    using compaction_two_level [OF two assms(1,2,4)] that by blast
qed

lemma pick_inputs_subset:
  assumes "version_ok w v" and "length (levels v) = max_levels opts" and "pick_compaction v opts = Some job"
  shows "set (inputs job) \<subseteq> set (concat (levels v))"
  using assms(3,2)
proof (cases rule: pick_compaction_shape)
  case (two pre X Y rest XI YI s l)
  then have "levels v = pre @ X # Y # rest" "inputs job = XI @ YI"
    by (simp_all add: two_level_job_def)
  moreover have "distinct (map sst_id (concat (levels v)))"
    using assms(1) by (simp add: version_ok_def)
  ultimately show ?thesis
    using two_level_inputs(4,5) [OF two] by auto
qed simp

lemma version_ok_cong:
  assumes "version_ok w v" and "\<And>t. t \<in> set (concat (levels v)) \<Longrightarrow> sst_ok w' t"
  shows "version_ok w' v"
  using assms by (simp add: version_ok_def list_all_iff)

text \<open>In a level with disjoint tables their order does not matter.\<close>

lemma level_same_lookup:
  assumes dis: "sorted_wrt disjoint_tables xs" and ok: "list_all (sst_ok w) xs" and same: "set ys = set xs"
  shows "tlook w ys k = tlook w xs k"
proof (cases "tlook w xs k")
  case None
  then have "tlook w ys k = None"
    using same by (simp add: tlook_None_iff)
  with None show ?thesis by simp
next
  case (Some e)
  then obtain t where t: "t \<in> set xs" "entries_map w t k = Some e"
    using tlook_SomeD by blast
  have "tlook w ys k = Some e"
  proof (rule tlook_unique)
    show "t \<in> set ys" using t(1) same by simp
    show "entries_map w t k = Some e" by (rule t(2))
  next
    fix u
    assume "u \<in> set ys" and "entries_map w u k \<noteq> None"
    then show "u = t"
      by (intro level_unique [OF dis ok t(1) _ t(2)]) (simp only: same)
  qed
  with Some show ?thesis by simp
qed

lemma levels_same_lookup:
  assumes "list_all (\<lambda>ts. sorted_wrt disjoint_tables ts \<and> list_all (sst_ok w) ts) ls"
    and "list_all2 (\<lambda>xs ys. set ys = set xs) ls ls'"
  shows "tlook w (concat ls') k = tlook w (concat ls) k"
  using assms(2,1)
proof (induction rule: list_all2_induct)
  case (Cons xs ls ys ls')
  have eq: "tlook w ys k = tlook w xs k" "tlook w (concat ls') k = tlook w (concat ls) k"
    using level_same_lookup [of xs w ys k] Cons by simp_all
  show ?case
    unfolding concat.simps tlook_append eq by (rule refl)
qed simp

lemma disjoint_same_set:
  assumes "sorted_wrt disjoint_tables xs" and "set ys = set xs" and "distinct ys"
  shows "sorted_wrt disjoint_tables ys"
proof -
  have "disjoint_tables t u" if "t \<in> set xs" "u \<in> set xs" "t \<noteq> u" for t u
    using sorted_wrt_pair [OF assms(1) disjoint_tables_sym that(1,2)] that(3) by blast
  then have "disjoint_tables (ys ! i) (ys ! j)" if "i < j" "j < length ys" for i j
    using that assms(2,3) nth_mem [of i ys] nth_mem [of j ys] by (simp add: nth_eq_iff_index_eq)
  then show ?thesis
    by (simp add: sorted_wrt_iff_nth_less)
qed

text \<open>The levels after a compaction.\<close>

lemma apply_compaction_nth:
  assumes "output_level job < length (levels v)" and "apply_compaction job ot v = Ok v'" and "l < length (levels v)"
  shows "levels v' ! l =
    (let ts = filter (\<lambda>t. \<not> is_input job t) (levels v ! l) in
     if l = output_level job then (if 0 < l then sort_key smallest (ts @ [ot]) else ts @ [ot]) else ts)"
  using assms by (auto simp: apply_compaction_def is_input_def Let_def index_def nth_list_update)

lemma pick_output_level:
  assumes "pick_compaction v opts = Some job" and "length (levels v) = max_levels opts"
  shows "output_level job < length (levels v)"
    and "output_level job = 0 \<Longrightarrow> t \<in> set (levels v ! 0) \<Longrightarrow> is_input job t"
  using assms
proof (atomize (full), cases rule: pick_compaction_shape)
  case (one X)
  then show "output_level job < length (levels v) \<and>
      (output_level job = 0 \<longrightarrow> t \<in> set (levels v ! 0) \<longrightarrow> is_input job t)"
    by (auto simp: is_input_def)
next
  case (two pre X Y rest XI YI s l)
  then show "output_level job < length (levels v) \<and>
      (output_level job = 0 \<longrightarrow> t \<in> set (levels v ! 0) \<longrightarrow> is_input job t)"
    by (auto simp: two_level_job_def)
qed

end
