(* ===== verification/Engine.thy ===== *)
theory Engine
  imports Wal Manifest Levels
begin

text \<open>
  The engine (\<^verbatim>\<open>src/src/engine.rs\<close>): its state, opening a database, reads, writes, the flush of the memtable into a
  level-0 table, one pass of compaction, and shutting down. A method that changes the engine and the files is a
  function on the pair of the engine and the world; a lock is taken and released within one step, so
  \<^verbatim>\<open>expect("... lock")\<close> never fires. The directory is the world, so a path is a file name.

  The background thread runs \<open>compact_once\<close> between the steps of the engine (\<open>engine_background\<close>).
\<close>

section \<open>State\<close>

definition WAL_FILE_NAME :: string where
  "WAL_FILE_NAME = ''wal.log''"

record shared_state =
  sh_options :: options
  sh_version :: version
  sh_manifest :: manifest
  sh_cache :: block_cache
  last_error :: "string option"
  bloom_skips :: u64
  sstable_reads :: u64

record engine =
  eng_options :: options
  eng_wal :: wal
  eng_memtable :: memtable
  eng_immutable :: "memtable option"
  eng_shared :: shared_state
  eng_worker :: compaction_worker

text \<open>A call that changes only the files, only the manifest and the files, or only the shared part and the files.\<close>

definition on_world :: "'s \<Rightarrow> 'a result \<times> world \<Rightarrow> 'a result \<times> 's \<times> world" where
  "on_world s rw = (fst rw, s, snd rw)"

definition on_manifest ::
  "(manifest \<times> world \<Rightarrow> 'a result \<times> manifest \<times> world) \<Rightarrow> shared_state \<times> world \<Rightarrow> 'a result \<times> shared_state \<times> world" where
  "on_manifest f = (\<lambda>(sh, w). case f (sh_manifest sh, w) of (r, m, w) \<Rightarrow> (r, sh\<lparr>sh_manifest := m\<rparr>, w))"

definition on_shared ::
  "(shared_state \<times> world \<Rightarrow> 'a result \<times> shared_state \<times> world) \<Rightarrow> engine \<times> world \<Rightarrow> 'a result \<times> engine \<times> world" where
  "on_shared f = (\<lambda>(e, w). case f (eng_shared e, w) of (r, sh, w) \<Rightarrow> (r, e\<lparr>eng_shared := sh\<rparr>, w))"

section \<open>Validation and the memtable\<close>

definition validate_key :: "bytes \<Rightarrow> unit result" where
  "validate_key key =
     (if key = [] then Err EmptyKey else if length key > MAX_KEY_SIZE then Err KeyTooLarge else Ok ())"

definition validate_value :: "bytes \<Rightarrow> unit result" where
  "validate_value v = (if length v > MAX_VALUE_SIZE then Err ValueTooLarge else Ok ())"

datatype lookup = LookupValue bytes | LookupTombstone | LookupMiss

definition lookup_memtable :: "memtable \<Rightarrow> bytes \<Rightarrow> lookup" where
  "lookup_memtable t key =
     (case mem_get t key of
        Some (Value v) \<Rightarrow> LookupValue v
      | Some Tombstone \<Rightarrow> LookupTombstone
      | None \<Rightarrow> LookupMiss)"

fun apply_operation :: "operation \<Rightarrow> memtable \<Rightarrow> memtable" where
  "apply_operation (Put key v) t = mem_put key v t"
| "apply_operation (Delete key) t = mem_delete key t"

section \<open>Opening\<close>

fun load_tables :: "options \<Rightarrow> world \<Rightarrow> (u64 \<times> u32) list \<Rightarrow> version \<Rightarrow> version result" where
  "load_tables opts w [] v = Ok v"
| "load_tables opts w ((tid, level) # rest) v =
     (if \<not> file_exists (table_file_name tid) w then Err InvalidManifest
      else and_then (sst_open (table_file_name tid) tid w) (\<lambda>table.
        let table = set_level (unat level) table;
            level = min (unat level) (max_levels opts - 1)
        in and_then (index (levels v) level) (\<lambda>tables.
             load_tables opts w rest (v\<lparr>levels := (levels v)[level := tables @ [table]]\<rparr>))))"

text \<open>L0 newest first, the other levels by smallest key.\<close>

definition order_levels :: "version \<Rightarrow> version" where
  "order_levels v =
     v\<lparr>levels := (case levels v of [] \<Rightarrow> [] | l0 # ls \<Rightarrow> rev l0 # map (sort_key smallest) ls)\<rparr>"

definition engine_open_with :: "options \<Rightarrow> world \<Rightarrow> engine result \<times> world" where
  "engine_open_with opts w =
     andThen (man_open w) (\<lambda>man w.
     andThen (load_tables opts w (man_active_tables man) (with_max_levels (max_levels opts)), w) (\<lambda>v w.
     let v = order_levels v in
     andThen (wal_open WAL_FILE_NAME w) (\<lambda>wal w.
     andThen (wal_iter wal w) (\<lambda>it w.
     andThen (wal_collect it, w) (\<lambda>ops w.
     let mem = fold apply_operation ops mem_new;
         sh = \<lparr>sh_options = opts, sh_version = v, sh_manifest = man,
               sh_cache = cache_new (cache_size_bytes opts), last_error = None,
               bloom_skips = 0, sstable_reads = 0\<rparr>
     in (Ok \<lparr>eng_options = opts, eng_wal = wal, eng_memtable = mem, eng_immutable = None,
             eng_shared = sh, eng_worker = worker_start\<rparr>, w))))))"

definition engine_open :: "world \<Rightarrow> engine result \<times> world" where
  "engine_open w = engine_open_with options_default w"

section \<open>Reading\<close>

fun search_tables ::
  "world \<Rightarrow> bytes \<Rightarrow> sstable list \<Rightarrow> shared_state \<Rightarrow> bytes option result \<times> shared_state" where
  "search_tables w key [] sh = (Ok None, sh)"
| "search_tables w key (table # ts) sh =
     (if \<not> contains_range table key then search_tables w key ts sh
      else if \<not> bloom_might_contain table key then
        search_tables w key ts (sh\<lparr>bloom_skips := bloom_skips sh + 1\<rparr>)
      else
        let sh = sh\<lparr>sstable_reads := sstable_reads sh + 1\<rparr> in
        case sst_get table key (Some (sh_cache sh)) w of (r, c) \<Rightarrow>
        let sh = (case c of Some c \<Rightarrow> sh\<lparr>sh_cache := c\<rparr> | None \<Rightarrow> sh) in
        case r of
          Ok (Some (Value v)) \<Rightarrow> (Ok (Some v), sh)
        | Ok (Some Tombstone) \<Rightarrow> (Ok None, sh)
        | Ok None \<Rightarrow> search_tables w key ts sh
        | Err err \<Rightarrow> (Err err, sh)
        | Panic \<Rightarrow> (Panic, sh))"

definition get_from_tables :: "bytes \<Rightarrow> engine \<times> world \<Rightarrow> bytes option result \<times> engine \<times> world" where
  "get_from_tables key = (\<lambda>(e, w).
     case search_tables w key (tables_newest_first (sh_version (eng_shared e))) (eng_shared e) of
       (r, sh) \<Rightarrow> (r, e\<lparr>eng_shared := sh\<rparr>, w))"

definition engine_get :: "bytes \<Rightarrow> engine \<times> world \<Rightarrow> bytes option result \<times> engine \<times> world" where
  "engine_get key = (\<lambda>(e, w).
     andThen (validate_key key, e, w) (\<lambda>_ (e, w).
     case lookup_memtable (eng_memtable e) key of
       LookupValue v \<Rightarrow> (Ok (Some v), e, w)
     | LookupTombstone \<Rightarrow> (Ok None, e, w)
     | LookupMiss \<Rightarrow>
         (case eng_immutable e of
            None \<Rightarrow> get_from_tables key (e, w)
          | Some imm \<Rightarrow>
              (case lookup_memtable imm key of
                 LookupValue v \<Rightarrow> (Ok (Some v), e, w)
               | LookupTombstone \<Rightarrow> (Ok None, e, w)
               | LookupMiss \<Rightarrow> get_from_tables key (e, w)))))"

section \<open>Flushing\<close>

text \<open>The memtable becomes the immutable one, copied entry by entry, and the entries to write out are returned.\<close>

definition freeze_memtable :: "engine \<Rightarrow> (bytes \<times> entry) list \<times> engine" where
  "freeze_memtable e =
     (let frozen = eng_memtable e;
          e = e\<lparr>eng_memtable := mem_new, eng_immutable := Some mem_new\<rparr>;
          snapshot = mem_iter frozen;
          imm = fold mem_write snapshot mem_new
      in (snapshot, e\<lparr>eng_immutable := Some imm\<rparr>))"

text \<open>Writing the entries as a table and recording it in the manifest.\<close>

definition flush_table ::
  "f64_math \<Rightarrow> (bytes \<times> entry) list \<Rightarrow> engine \<times> world \<Rightarrow> sstable result \<times> engine \<times> world" where
  "flush_table fl snapshot s =
     andThen (on_shared (on_manifest man_next_table_id) s) (\<lambda>tid (e, w).
     andThen (on_world e (sst_create fl (table_file_name tid) tid snapshot
                (bloom_false_positive_rate (eng_options e)) (opt_block_size (eng_options e)) w)) (\<lambda>table s.
     andThen (on_shared (on_manifest (man_add_table tid 0)) s) (\<lambda>_ s.
     (Ok table, s))))"

text \<open>Making the table the newest one of L0, then dropping the log and the immutable memtable.\<close>

definition flush_install :: "sstable \<Rightarrow> engine \<times> world \<Rightarrow> unit result \<times> engine \<times> world" where
  "flush_install table = (\<lambda>(e, w).
     case levels (sh_version (eng_shared e)) of
       [] \<Rightarrow> (Panic, e, w)
     | l0 # ls \<Rightarrow>
         let v = (sh_version (eng_shared e))\<lparr>levels := (table # l0) # ls\<rparr>;
             e = e\<lparr>eng_shared := (eng_shared e)\<lparr>sh_version := v\<rparr>\<rparr>
         in andThen (on_world e (wal_truncate (eng_wal e) w)) (\<lambda>_ (e, w).
              (Ok (), e\<lparr>eng_immutable := None\<rparr>, w)))"

definition flush_memtable :: "f64_math \<Rightarrow> engine \<times> world \<Rightarrow> unit result \<times> engine \<times> world" where
  "flush_memtable fl = (\<lambda>(e, w).
     if mem_is_empty (eng_memtable e) then on_world e (wal_sync (eng_wal e) w)
     else case freeze_memtable e of (snapshot, e) \<Rightarrow>
       andThen (flush_table fl snapshot (e, w)) (\<lambda>table s. flush_install table s))"

definition maybe_request_compaction :: "engine \<Rightarrow> engine" where
  "maybe_request_compaction e =
     (let l0_len = (case levels (sh_version (eng_shared e)) of [] \<Rightarrow> 0 | l0 # _ \<Rightarrow> length l0) in
      if l0_len \<ge> l0_compaction_trigger (eng_options e)
      then e\<lparr>eng_worker := snd (request_compaction (eng_worker e))\<rparr> else e)"

definition engine_flush :: "f64_math \<Rightarrow> engine \<times> world \<Rightarrow> unit result \<times> engine \<times> world" where
  "engine_flush fl s =
     andThen (flush_memtable fl s) (\<lambda>_ (e, w). (Ok (), maybe_request_compaction e, w))"

section \<open>Writing\<close>

definition engine_write :: "f64_math \<Rightarrow> operation \<Rightarrow> engine \<times> world \<Rightarrow> unit result \<times> engine \<times> world" where
  "engine_write fl op = (\<lambda>(e, w).
     andThen (on_world e (wal_append (eng_wal e) op w)) (\<lambda>_ (e, w).
     andThen (on_world e (wal_sync (eng_wal e) w)) (\<lambda>_ (e, w).
     let e = e\<lparr>eng_memtable := apply_operation op (eng_memtable e)\<rparr> in
     if approximate_size (eng_memtable e) \<ge> memtable_size_bytes (eng_options e)
     then engine_flush fl (e, w) else (Ok (), e, w))))"

definition engine_put :: "f64_math \<Rightarrow> bytes \<Rightarrow> bytes \<Rightarrow> engine \<times> world \<Rightarrow> unit result \<times> engine \<times> world" where
  "engine_put fl key v s =
     andThen (validate_key key, s) (\<lambda>_ s.
     andThen (validate_value v, s) (\<lambda>_ s.
     engine_write fl (Put key v) s))"

definition engine_delete :: "f64_math \<Rightarrow> bytes \<Rightarrow> engine \<times> world \<Rightarrow> unit result \<times> engine \<times> world" where
  "engine_delete fl key s =
     andThen (validate_key key, s) (\<lambda>_ s. engine_write fl (Delete key) s)"

section \<open>Compaction\<close>

text \<open>The output table of a job: a new id, the merged file, its level.\<close>

definition compact_output ::
  "f64_math \<Rightarrow> version \<Rightarrow> compaction_job \<Rightarrow> shared_state \<times> world \<Rightarrow> sstable result \<times> shared_state \<times> world" where
  "compact_output fl v job s =
     andThen (on_manifest man_next_table_id s) (\<lambda>output_id (sh, w).
     andThen (on_world sh (compact fl (inputs job) (table_file_name output_id) output_id
                (bloom_false_positive_rate (sh_options sh)) (opt_block_size (sh_options sh))
                (may_drop_tombstones v (sh_options sh) job) w)) (\<lambda>output s.
     (Ok (set_level (output_level job) output), s)))"

definition compact_record ::
  "compaction_job \<Rightarrow> sstable \<Rightarrow> shared_state \<times> world \<Rightarrow> unit result \<times> shared_state \<times> world" where
  "compact_record job output s =
     (let remove_ids = map sst_id (inputs job) in
      andThen (on_manifest (man_add_table (sst_id output) (as_u32 (output_level job))) s) (\<lambda>_ s.
        on_manifest (man_remove_tables remove_ids) s))"

text \<open>
  \<^verbatim>\<open>Arc::strong_count\<close> of an input: the handle in the loop, and one for each place of a version that still
  lists the table. Both the version in the engine and the snapshot the job was picked from are alive at that point.
\<close>

definition strong_count :: "version list \<Rightarrow> sstable \<Rightarrow> nat" where
  "strong_count vs t = 1 + sum_list (map (\<lambda>v. count_list (map sst_id (concat (levels v))) (sst_id t)) vs)"

fun remove_files :: "version list \<Rightarrow> sstable list \<Rightarrow> world \<Rightarrow> world" where
  "remove_files vs [] w = w"
| "remove_files vs (t # ts) w =
     remove_files vs ts (if strong_count vs t = 1 then file_remove (sst_path t) w else w)"

definition compact_install ::
  "version \<Rightarrow> compaction_job \<Rightarrow> sstable \<Rightarrow> shared_state \<times> world \<Rightarrow> unit result \<times> shared_state \<times> world" where
  "compact_install snapshot job output = (\<lambda>(sh, w).
     andThen (apply_compaction job output (sh_version sh), sh, w) (\<lambda>v (sh, w).
       let sh = sh\<lparr>sh_version := v\<rparr> in
       (Ok (), sh, remove_files [snapshot, v] (inputs job) w)))"

definition compact_once :: "f64_math \<Rightarrow> shared_state \<times> world \<Rightarrow> unit result \<times> shared_state \<times> world" where
  "compact_once fl = (\<lambda>(sh, w).
     let v = sh_version sh in
     case pick_compaction v (sh_options sh) of
       None \<Rightarrow> (Ok (), sh, w)
     | Some job \<Rightarrow>
         andThen (compact_output fl v job (sh, w)) (\<lambda>output s.
         andThen (compact_record job output s) (\<lambda>_ s.
         compact_install v job output s)))"

definition engine_compact :: "f64_math \<Rightarrow> engine \<times> world \<Rightarrow> unit result \<times> engine \<times> world" where
  "engine_compact fl = on_shared (compact_once fl)"

section \<open>The worker and shutting down\<close>

text \<open>
  A failpoint is thread-local (\<^verbatim>\<open>thread_local!\<close> in \<^verbatim>\<open>wal.rs\<close>): the one the caller set is not seen by the
  worker's thread, which has none, and is still set when the worker is done.
\<close>

definition off_thread ::
  "(shared_state \<times> world \<Rightarrow> 'a \<times> shared_state \<times> world) \<Rightarrow> shared_state \<times> world \<Rightarrow> 'a \<times> shared_state \<times> world" where
  "off_thread f = (\<lambda>(sh, w).
     case f (sh, w\<lparr>failpoint := None\<rparr>) of (r, sh, w') \<Rightarrow> (r, sh, w'\<lparr>failpoint := failpoint w\<rparr>))"

text \<open>One round of the background thread, whose callback is \<open>compact_once\<close> on the shared state.\<close>

definition engine_background :: "f64_math \<Rightarrow> engine \<times> world \<Rightarrow> engine \<times> world" where
  "engine_background fl = (\<lambda>(e, w).
     case worker_step (off_thread (compact_once fl)) (eng_worker e, (eng_shared e, w), last_error (eng_shared e)) of
       (c, (sh, w), err) \<Rightarrow> (e\<lparr>eng_worker := c, eng_shared := sh\<lparr>last_error := err\<rparr>\<rparr>, w))"

definition engine_shutdown :: "f64_math \<Rightarrow> engine \<times> world \<Rightarrow> unit result \<times> engine \<times> world" where
  "engine_shutdown fl = (\<lambda>(e, w).
     case worker_shutdown (off_thread (compact_once fl)) (eng_worker e, (eng_shared e, w), last_error (eng_shared e)) of
       (r, c, (sh, w), err) \<Rightarrow> (r, e\<lparr>eng_worker := c, eng_shared := sh\<lparr>last_error := err\<rparr>\<rparr>, w))"

text \<open>\<^verbatim>\<open>close\<close> takes the engine, which is dropped when it returns, with an error or not; \<open>engine_drop\<close> is that step.
  The drop of its worker comes next and finds the thread joined (\<open>worker_drop_joined\<close>).\<close>

definition engine_drop :: "f64_math \<Rightarrow> engine \<times> world \<Rightarrow> engine \<times> world" where
  "engine_drop fl s = snd (engine_shutdown fl s)"

definition engine_close :: "f64_math \<Rightarrow> engine \<times> world \<Rightarrow> unit result \<times> engine \<times> world" where
  "engine_close fl s =
     andThen (engine_shutdown fl s) (\<lambda>_ (e, w). on_world e (wal_sync (eng_wal e) w))"

end
