(* ===== verification/Engine_Inv.thy ===== *)
theory Engine_Inv
  imports Engine
begin

text \<open>
  What the engine keeps true of its state and of the files, and what each operation does to the map the
  user sees. The abstract state of an engine is the map \<open>engine_map\<close>: the memtable over the immutable memtable over
  the tables, newest first, with tombstones read as absent.

  The invariant ties the layers together: the log replays to the memtables, the manifest lists exactly the
  tables of the levels, every table's file is durable and reopens to the same table, the levels above L0 are disjoint,
  and the cache agrees with the files.
\<close>

section \<open>The map a user sees\<close>

definition buffer_look :: "engine \<Rightarrow> bytes \<Rightarrow> entry option" where
  "buffer_look e k =
     (case mem_get (eng_memtable e) k of
        Some x \<Rightarrow> Some x
      | None \<Rightarrow> (case eng_immutable e of Some imm \<Rightarrow> mem_get imm k | None \<Rightarrow> None))"

abbreviation engine_tables :: "engine \<Rightarrow> sstable list" where
  "engine_tables e \<equiv> concat (levels (sh_version (eng_shared e)))"

definition engine_look :: "engine \<Rightarrow> world \<Rightarrow> bytes \<Rightarrow> entry option" where
  "engine_look e w k =
     (case buffer_look e k of Some x \<Rightarrow> Some x | None \<Rightarrow> tlook w (engine_tables e) k)"

definition engine_map :: "engine \<Rightarrow> world \<Rightarrow> bytes \<Rightarrow> bytes option" where
  "engine_map e w k = visible (engine_look e w k)"

lemma buffer_look_update [simp]:
  "buffer_look (e\<lparr>eng_shared := sh\<rparr>) = buffer_look e" "buffer_look (e\<lparr>eng_worker := c\<rparr>) = buffer_look e"
  by (simp_all add: buffer_look_def fun_eq_iff cong: option.case_cong)

lemma engine_map_cong:
  "buffer_look e' = buffer_look e \<Longrightarrow> (\<And>k. visible (tlook w' (engine_tables e') k) = visible (tlook w (engine_tables e) k)) \<Longrightarrow>
     engine_map e' w' = engine_map e w"
  unfolding engine_map_def engine_look_def by (intro ext) (simp split: option.split)

section \<open>Sizes\<close>

text \<open>
  The keys in use are in \<open>K\<close>, and a filter for that many keys has a length that fits its 32-bit field.
\<close>

definition capacity :: "f64_math \<Rightarrow> options \<Rightarrow> bytes set \<Rightarrow> bool" where
  "capacity fl opts K \<longleftrightarrow>
     finite K \<and> [] \<notin> K \<and> card K < 2 ^ 32 \<and> opt_block_size opts \<le> 2 ^ 31 \<and>
     (\<forall>n \<le> card K. length (bits (bloom_new fl (max n 1) (bloom_false_positive_rate opts))) < 2 ^ 32)"

definition layer_ok :: "bytes set \<Rightarrow> (bytes \<Rightarrow> entry option) \<Rightarrow> bool" where
  "layer_ok K m \<longleftrightarrow> (\<forall>k e. m k = Some e \<longrightarrow> k \<in> K \<and> entry_limits (k, e))"

lemma layer_okD: "layer_ok K m \<Longrightarrow> m k = Some e \<Longrightarrow> k \<in> K \<and> entry_limits (k, e)"
  by (simp add: layer_ok_def)

lemma layer_fits:
  assumes "capacity fl opts K" and sorted: "ksorted es" and "layer_ok K (map_of es)"
  shows "table_fits fl (bloom_false_positive_rate opts) (opt_block_size opts) es" and "[] \<notin> fst ` set es"
proof -
  have mem: "k \<in> K \<and> entry_limits (k, e)" if "(k, e) \<in> set es" for k e
    using layer_okD [OF assms(3)] that ksorted_map_of [OF sorted] by simp
  then have keys: "fst ` set es \<subseteq> K" by auto
  then show "[] \<notin> fst ` set es"
    using assms(1) by (auto simp: capacity_def)
  have "length es = card (fst ` set es)"
    using distinct_card [OF ksorted_distinct [OF sorted]] by simp
  also have "\<dots> \<le> card K"
    using keys assms(1) by (intro card_mono) (simp_all add: capacity_def)
  finally show "table_fits fl (bloom_false_positive_rate opts) (opt_block_size opts) es"
    using assms(1) mem by (auto simp: table_fits_def capacity_def list_all_iff)
qed

section \<open>Operations and the memtable\<close>

fun op_entry :: "operation \<Rightarrow> bytes \<times> entry" where
  "op_entry (Put k v) = (k, Value v)"
| "op_entry (Delete k) = (k, Tombstone)"

lemma apply_operation_insert: "apply_operation op t = mem_insert (fst (op_entry op)) (snd (op_entry op)) t"
  by (cases op) (simp_all add: mem_put_def mem_delete_def)

lemma apply_operation_inv [simp]: "mem_inv t \<Longrightarrow> mem_inv (apply_operation op t)"
  by (simp add: apply_operation_insert)

lemma apply_operation_get [simp]:
  "mem_get (apply_operation op t) = (mem_get t)(fst (op_entry op) \<mapsto> snd (op_entry op))"
  by (simp add: apply_operation_insert)

lemma replay_inv [simp]: "mem_inv t \<Longrightarrow> mem_inv (fold apply_operation ops t)"
  by (induction ops arbitrary: t) simp_all

lemma op_entry_limits: "op_fits op \<Longrightarrow> entry_limits (op_entry op)"
  by (cases op) (simp_all add: op_fits_def entry_limits_def)

lemma replay_layer:
  assumes "list_all op_fits ops" and "fst ` op_entry ` set ops \<subseteq> K" and "layer_ok K (mem_get t)"
  shows "layer_ok K (mem_get (fold apply_operation ops t))"
  using assms
proof (induction ops arbitrary: t)
  case (Cons op ops)
  have "layer_ok K (mem_get (apply_operation op t))"
    using Cons.prems op_entry_limits [of op] by (auto simp: layer_ok_def)
  then show ?case
    using Cons by simp
qed simp

section \<open>The invariant\<close>

text \<open>A live table of level \<open>l\<close>: its file is durable and reopens to it.\<close>

definition table_at :: "bytes set \<Rightarrow> world \<Rightarrow> nat \<Rightarrow> sstable \<Rightarrow> bool" where
  "table_at K w l t \<longleftrightarrow>
     sst_level t = l \<and> sst_path t = table_file_name (sst_id t) \<and>
     (\<exists>x. files w (table_file_name (sst_id t)) = Some x \<and> durable x = length (content x)) \<and>
     sst_open (table_file_name (sst_id t)) (sst_id t) w = Ok (set_level 0 t) \<and> layer_ok K (entries_map w t)"

definition levels_at :: "bytes set \<Rightarrow> world \<Rightarrow> version \<Rightarrow> bool" where
  "levels_at K w v \<longleftrightarrow> (\<forall>l < length (levels v). \<forall>t \<in> set (levels v ! l). table_at K w l t)"

text \<open>The manifest lists the tables of the levels, those of L0 in the order they were added.\<close>

definition man_matches :: "manifest \<Rightarrow> version \<Rightarrow> bool" where
  "man_matches m v \<longleftrightarrow>
     filter (\<lambda>(_, l). l = 0) (man_tables m) = map (\<lambda>t. (sst_id t, 0)) (rev (levels v ! 0)) \<and>
     set (man_tables m) = (\<Union>l < length (levels v). (\<lambda>t. (sst_id t, as_u32 l)) ` set (levels v ! l))"

text \<open>What the cache may hold: blocks of live tables as the files have them, and no block of a table to come.\<close>

definition shared_store :: "shared_state \<Rightarrow> world \<Rightarrow> block_key \<Rightarrow> block_data \<Rightarrow> bool" where
  "shared_store sh w k b \<longleftrightarrow>
     block_store (set (concat (levels (sh_version sh)))) w k b \<and> key_table_id k < next_table_id (sh_manifest sh)"

text \<open>The tables and the manifest on disk, as the version \<open>v\<close> and the manifest \<open>m\<close> describe them.\<close>

definition disk_inv :: "bytes set \<Rightarrow> u64 \<Rightarrow> manifest \<Rightarrow> version \<Rightarrow> world \<Rightarrow> bool" where
  "disk_inv K n0 m v w \<longleftrightarrow>
     version_ok w v \<and> levels v \<noteq> [] \<and> length (levels v) \<le> 2 ^ 32 \<and>
     levels_at K w v \<and> man_at n0 m w \<and> man_matches m v"

definition shared_inv :: "bytes set \<Rightarrow> u64 \<Rightarrow> shared_state \<Rightarrow> world \<Rightarrow> bool" where
  "shared_inv K n0 sh w \<longleftrightarrow>
     disk_inv K n0 (sh_manifest sh) (sh_version sh) w \<and>
     length (levels (sh_version sh)) = max_levels (sh_options sh) \<and>
     block_cache.coherent (shared_store sh w) (sh_cache sh)"

lemmas shared_inv_defs = shared_inv_def disk_inv_def

text \<open>The log holds operations that replay to what the memtables hold, and all of it is durable.\<close>

definition log_inv :: "bytes set \<Rightarrow> engine \<Rightarrow> world \<Rightarrow> bool" where
  "log_inv K e w \<longleftrightarrow>
     wal_path (eng_wal e) = WAL_FILE_NAME \<and>
     (\<exists>ops. wal_holds (eng_wal e) ops w \<and> fst ` op_entry ` set ops \<subseteq> K \<and>
        mem_get (fold apply_operation ops mem_new) = buffer_look e) \<and>
     wal_synced (eng_wal e) w"

definition engine_inv :: "bytes set \<Rightarrow> u64 \<Rightarrow> engine \<Rightarrow> world \<Rightarrow> bool" where
  "engine_inv K n0 e w \<longleftrightarrow>
     shared_inv K n0 (eng_shared e) w \<and> log_inv K e w \<and> eng_options e = sh_options (eng_shared e) \<and>
     mem_inv (eng_memtable e) \<and> pred_option mem_inv (eng_immutable e) \<and> layer_ok K (buffer_look e)"

lemma in_concat_nth:
  assumes "t \<in> set (concat ls)"
  obtains l where "l < length ls" and "t \<in> set (ls ! l)"
  using assms by (metis concat_eq_concat_iff in_set_conv_nth set_concat UN_E)

lemma live_ok: "shared_inv K n0 sh w \<Longrightarrow> t \<in> set (concat (levels (sh_version sh))) \<Longrightarrow> sst_ok w t"
  unfolding shared_inv_defs version_ok_def list_all_iff by blast

lemma live_id_bound:
  assumes "shared_inv K n0 sh w" and "t \<in> set (concat (levels (sh_version sh)))"
  shows "sst_id t < n0" and "sst_id t < next_table_id (sh_manifest sh)" and "sst_id t \<in> fst ` set (man_tables (sh_manifest sh))"
proof -
  let ?ls = "levels (sh_version sh)"
  obtain l where l: "l < length ?ls" "t \<in> set (?ls ! l)"
    using assms(2) by (rule in_concat_nth)
  have "set (man_tables (sh_manifest sh)) = (\<Union>l < length ?ls. (\<lambda>t. (sst_id t, as_u32 l)) ` set (?ls ! l))"
    using assms(1) by (simp add: shared_inv_defs man_matches_def)
  then have "(sst_id t, as_u32 l) \<in> set (man_tables (sh_manifest sh))"
    using l by blast
  then show "sst_id t \<in> fst ` set (man_tables (sh_manifest sh))"
    by force
  then show "sst_id t < n0" "sst_id t < next_table_id (sh_manifest sh)"
    using assms(1) unfolding shared_inv_defs man_at_def by (meson less_le_trans)+
qed

lemma live_inj: "shared_inv K n0 sh w \<Longrightarrow> inj_on sst_id (set (concat (levels (sh_version sh))))"
  by (simp add: shared_inv_defs version_ok_def distinct_map)

lemma live_serves:
  assumes "shared_inv K n0 sh w" and t: "t \<in> set (concat (levels (sh_version sh)))"
  shows "serves (shared_store sh w) t w"
proof -
  have "sst_ok w t"
    using assms by (rule live_ok)
  then have "serves (block_store (set (concat (levels (sh_version sh)))) w) t w"
    unfolding sst_ok_def by (rule block_store_serves [OF _ t live_inj [OF assms(1)]])
  then show ?thesis
    using live_id_bound(2) [OF assms] by (auto simp: serves_def shared_store_def)
qed

section \<open>Reading\<close>

lemma search_tables_ok:
  assumes "\<And>t. t \<in> set ts \<Longrightarrow> sst_ok w t \<and> serves P t w" and "block_cache.coherent P (sh_cache sh)"
  shows "\<exists>c a b. search_tables w key ts sh =
      (Ok (visible (tlook w ts key)), sh\<lparr>sh_cache := c, bloom_skips := a, sstable_reads := b\<rparr>) \<and>
    block_cache.coherent P c"
  using assms
proof (induction ts arbitrary: sh)
  case Nil
  then show ?case
    by (intro exI [of _ "sh_cache sh"] exI [of _ "bloom_skips sh"] exI [of _ "sstable_reads sh"]) simp
next
  case (Cons t ts)
  have holds: "sst_holds t (sst_entries w t) w" and serves: "serves P t w"
    using Cons.prems(1) [of t] by (simp_all add: sst_ok_def)
  obtain c where get: "sst_get t key (Some (sh_cache sh)) w = (Ok (entries_map w t key), Some c)"
      and c: "block_cache.coherent P c"
    using sst_get_holds [OF holds serves, of "Some (sh_cache sh)" key] Cons.prems(2) by auto
  have rec: "\<exists>c a b. search_tables w key ts sh' =
      (Ok (visible (tlook w ts key)), sh\<lparr>sh_cache := c, bloom_skips := a, sstable_reads := b\<rparr>) \<and> block_cache.coherent P c"
    if "sh' = sh\<lparr>sh_cache := c', bloom_skips := a', sstable_reads := b'\<rparr>" "block_cache.coherent P c'" for sh' c' a' b'
    using Cons.IH [of sh'] Cons.prems(1) that by fastforce
  show ?case
  proof (cases "contains_range t key \<and> bloom_might_contain t key")
    case False
    then have miss: "entries_map w t key = None"
      using get by (auto simp: sst_get_def bloom_might_contain_def split: if_splits)
    show ?thesis
      using False rec [where sh' = sh and c' = "sh_cache sh" and a' = "bloom_skips sh" and b' = "sstable_reads sh"]
        rec [where sh' = "sh\<lparr>bloom_skips := bloom_skips sh + 1\<rparr>" and c' = "sh_cache sh"
          and a' = "bloom_skips sh + 1" and b' = "sstable_reads sh"]
        Cons.prems(2) by (simp add: miss)
  next
    case True
    show ?thesis
    proof (cases "entries_map w t key")
      case None
      have "search_tables w key (t # ts) sh =
          search_tables w key ts (sh\<lparr>sstable_reads := sstable_reads sh + 1, sh_cache := c\<rparr>)"
        using True get None by simp
      also have "sh\<lparr>sstable_reads := sstable_reads sh + 1, sh_cache := c\<rparr> =
          sh\<lparr>sh_cache := c, bloom_skips := bloom_skips sh, sstable_reads := sstable_reads sh + 1\<rparr>"
        by (cases sh) simp
      finally have step: "search_tables w key (t # ts) sh = search_tables w key ts
          (sh\<lparr>sh_cache := c, bloom_skips := bloom_skips sh, sstable_reads := sstable_reads sh + 1\<rparr>)" .
      have look: "tlook w (t # ts) key = tlook w ts key"
        using None by simp
      show ?thesis
        unfolding step look by (rule rec [OF refl c])
    next
      case (Some x)
      then have "search_tables w key (t # ts) sh =
          (Ok (visible (Some x)), sh\<lparr>sstable_reads := sstable_reads sh + 1, sh_cache := c\<rparr>)"
        using True get by (cases x) simp_all
      also have "sh\<lparr>sstable_reads := sstable_reads sh + 1, sh_cache := c\<rparr> =
          sh\<lparr>sh_cache := c, bloom_skips := bloom_skips sh, sstable_reads := sstable_reads sh + 1\<rparr>"
        by (cases sh) simp
      finally have step: "search_tables w key (t # ts) sh =
        (Ok (visible (Some x)), sh\<lparr>sh_cache := c, bloom_skips := bloom_skips sh, sstable_reads := sstable_reads sh + 1\<rparr>)" .
      have look: "tlook w (t # ts) key = Some x"
        using Some by simp
      show ?thesis
        unfolding step look using c by blast
    qed
  qed
qed

lemma shared_inv_cache:
  assumes "shared_inv K n0 sh w" and "block_cache.coherent (shared_store sh w) c"
  shows "shared_inv K n0 (sh\<lparr>sh_cache := c, bloom_skips := a, sstable_reads := b\<rparr>) w"
proof -
  have "shared_store (sh\<lparr>sh_cache := c, bloom_skips := a, sstable_reads := b\<rparr>) w = shared_store sh w"
    by (simp add: shared_store_def fun_eq_iff)
  then show ?thesis
    using assms by (simp add: shared_inv_defs)
qed

lemma validate_key_Ok: "validate_key k = Ok () \<longleftrightarrow> k \<noteq> [] \<and> length k \<le> MAX_KEY_SIZE"
  by (auto simp: validate_key_def)

lemma validate_key_not_Panic: "validate_key k \<noteq> Panic"
  by (simp add: validate_key_def)

text \<open>What a read relies on: the memtables are maps and the tables in memory are readable.\<close>

definition readable :: "engine \<Rightarrow> world \<Rightarrow> bool" where
  "readable e w \<longleftrightarrow>
     mem_inv (eng_memtable e) \<and> pred_option mem_inv (eng_immutable e) \<and> (\<forall>t \<in> set (engine_tables e). sst_ok w t)"

lemma engine_inv_readable: "engine_inv K n0 e w \<Longrightarrow> readable e w"
  using live_ok unfolding engine_inv_def readable_def by blast

text \<open>A read changes nothing but the cache and the counters, and returns what the map has.\<close>

lemma engine_get_reads:
  assumes read: "readable e w" and serve: "\<And>t. t \<in> set (engine_tables e) \<Longrightarrow> serves P t w"
    and coh: "block_cache.coherent P (sh_cache (eng_shared e))" and key: "validate_key key = Ok ()"
  obtains c a b where
    "engine_get key (e, w) = (Ok (engine_map e w key),
       e\<lparr>eng_shared := (eng_shared e)\<lparr>sh_cache := c, bloom_skips := a, sstable_reads := b\<rparr>\<rparr>, w)"
    and "block_cache.coherent P c"
proof -
  let ?sh = "eng_shared e"
  obtain c a b where search: "search_tables w key (engine_tables e) ?sh =
      (Ok (visible (tlook w (engine_tables e) key)), ?sh\<lparr>sh_cache := c, bloom_skips := a, sstable_reads := b\<rparr>)"
      and c: "block_cache.coherent P c"
    using search_tables_ok [of "engine_tables e" w P ?sh key] read serve coh unfolding readable_def by blast
  show ?thesis
  proof (cases "buffer_look e key")
    case None
    then have "engine_get key (e, w) = (Ok (engine_map e w key),
        e\<lparr>eng_shared := ?sh\<lparr>sh_cache := c, bloom_skips := a, sstable_reads := b\<rparr>\<rparr>, w)"
      using key search
      by (auto simp: engine_get_def buffer_look_def lookup_memtable_def get_from_tables_def engine_map_def
          engine_look_def split: option.splits)
    then show ?thesis using that c by blast
  next
    case (Some x)
    have same: "e\<lparr>eng_shared := ?sh\<lparr>sh_cache := sh_cache ?sh, bloom_skips := bloom_skips ?sh, sstable_reads := sstable_reads ?sh\<rparr>\<rparr> = e"
      by simp
    have "engine_get key (e, w) = (Ok (engine_map e w key), e, w)"
      using key Some
      by (auto simp: engine_get_def buffer_look_def lookup_memtable_def engine_map_def
          engine_look_def split: option.splits entry.splits)
    then show ?thesis
      using that [where c = "sh_cache ?sh" and a = "bloom_skips ?sh" and b = "sstable_reads ?sh"] coh unfolding same by blast
  qed
qed

lemma engine_get_ok:
  assumes inv: "engine_inv K n0 e w" and key: "validate_key key = Ok ()"
  obtains sh where "engine_get key (e, w) = (Ok (engine_map e w key), e\<lparr>eng_shared := sh\<rparr>, w)"
    and "engine_inv K n0 (e\<lparr>eng_shared := sh\<rparr>) w" and "engine_map (e\<lparr>eng_shared := sh\<rparr>) w = engine_map e w"
    and "sh_manifest sh = sh_manifest (eng_shared e)" and "sh_version sh = sh_version (eng_shared e)"
proof -
  let ?sh = "eng_shared e"
  have sinv: "shared_inv K n0 ?sh w"
    using inv by (simp add: engine_inv_def)
  then have coh: "block_cache.coherent (shared_store ?sh w) (sh_cache ?sh)"
    by (simp add: shared_inv_defs)
  obtain c a b where get: "engine_get key (e, w) = (Ok (engine_map e w key),
      e\<lparr>eng_shared := ?sh\<lparr>sh_cache := c, bloom_skips := a, sstable_reads := b\<rparr>\<rparr>, w)"
      and c: "block_cache.coherent (shared_store ?sh w) c"
    by (rule engine_get_reads [OF engine_inv_readable [OF inv] live_serves [OF sinv] coh key])
  let ?sh' = "?sh\<lparr>sh_cache := c, bloom_skips := a, sstable_reads := b\<rparr>"
  have "engine_inv K n0 (e\<lparr>eng_shared := ?sh'\<rparr>) w" "engine_map (e\<lparr>eng_shared := ?sh'\<rparr>) w = engine_map e w"
    using inv shared_inv_cache [OF sinv c] by (simp add: engine_inv_def log_inv_def, intro engine_map_cong) simp_all
  then show ?thesis
    using that [of ?sh'] get by simp
qed

section \<open>Changes to other files\<close>

lemma file_names [simp]:
  "WAL_FILE_NAME \<noteq> table_file_name i" "table_file_name i \<noteq> WAL_FILE_NAME"
  "MANIFEST_FILE \<noteq> table_file_name i" "table_file_name i \<noteq> MANIFEST_FILE"
  "WAL_FILE_NAME \<noteq> MANIFEST_FILE" "MANIFEST_FILE \<noteq> WAL_FILE_NAME"
  "tmp_path (table_file_name i) \<noteq> WAL_FILE_NAME" "WAL_FILE_NAME \<noteq> tmp_path (table_file_name i)"
  "tmp_path (table_file_name i) \<noteq> MANIFEST_FILE" "MANIFEST_FILE \<noteq> tmp_path (table_file_name i)"
proof -
  obtain c s where name: "table_file_name i = c # s" and c: "is_digit c"
    using table_file_name_hd by blast
  have "\<not> is_digit CHR ''w''" "\<not> is_digit CHR ''M''"
    by (simp_all add: is_digit_def)
  with c have "c \<noteq> CHR ''w''" "c \<noteq> CHR ''M''" by metis+
  then show "WAL_FILE_NAME \<noteq> table_file_name i" "table_file_name i \<noteq> WAL_FILE_NAME"
    "MANIFEST_FILE \<noteq> table_file_name i" "table_file_name i \<noteq> MANIFEST_FILE"
    "WAL_FILE_NAME \<noteq> MANIFEST_FILE" "MANIFEST_FILE \<noteq> WAL_FILE_NAME"
    "tmp_path (table_file_name i) \<noteq> WAL_FILE_NAME" "WAL_FILE_NAME \<noteq> tmp_path (table_file_name i)"
    "tmp_path (table_file_name i) \<noteq> MANIFEST_FILE" "MANIFEST_FILE \<noteq> tmp_path (table_file_name i)"
    by (auto simp: name WAL_FILE_NAME_def MANIFEST_FILE_def tmp_path_def)
qed

lemma sst_open_cong:
  assumes "files w' p = files w p"
  shows "sst_open p i w' = sst_open p i w"
proof -
  have "read_exact_at p off n w' = read_exact_at p off n w" for off n
    by (simp add: read_exact_at_def assms)
  then show ?thesis
    unfolding sst_open_def assms by (simp only:)
qed

lemma table_at_cong:
  assumes "table_at K w l t" and ok: "sst_ok w t" and same: "files w' (table_file_name (sst_id t)) = files w (table_file_name (sst_id t))"
  shows "sst_ok w' t" and "sst_entries w' t = sst_entries w t" and "table_at K w' l t"
proof -
  have path: "sst_path t = table_file_name (sst_id t)"
    using assms(1) by (simp add: table_at_def)
  show "sst_ok w' t" and entries: "sst_entries w' t = sst_entries w t"
    using sst_ok_cong [OF ok, of w'] same path by simp_all
  show "table_at K w' l t"
    using assms(1) sst_open_cong [OF same] same entries by (simp add: table_at_def)
qed

lemma live_table_at:
  assumes "levels_at K w v" and "t \<in> set (concat (levels v))"
  shows "\<exists>l < length (levels v). table_at K w l t"
  using assms in_concat_nth [OF assms(2)] unfolding levels_at_def by metis

text \<open>What a change of the files leaves alone when it keeps the files of the live tables.\<close>

definition same_tables :: "version \<Rightarrow> world \<Rightarrow> world \<Rightarrow> bool" where
  "same_tables v w w' \<longleftrightarrow>
     (\<forall>t \<in> set (concat (levels v)). files w' (table_file_name (sst_id t)) = files w (table_file_name (sst_id t)))"

lemma same_tables_tlook:
  assumes "levels_at K w v" and "version_ok w v" and "same_tables v w w'" and "set ts \<subseteq> set (concat (levels v))"
  shows "tlook w' ts k = tlook w ts k"
proof -
  have "sst_entries w' t = sst_entries w t" if "t \<in> set ts" for t
  proof -
    have t: "t \<in> set (concat (levels v))" using that assms(4) by blast
    then obtain l where "table_at K w l t"
      using live_table_at [OF assms(1)] by blast
    moreover have "sst_ok w t"
      using assms(2) t unfolding version_ok_def list_all_iff by blast
    ultimately show ?thesis
      using table_at_cong(2) assms(3) t unfolding same_tables_def by blast
  qed
  then have "map (entries_map w') ts = map (entries_map w) ts"
    by simp
  then show ?thesis
    by (simp only: tlook_def)
qed

lemma same_tables_ok:
  assumes "levels_at K w v" and "version_ok w v" and "same_tables v w w'"
  shows "levels_at K w' v" and "version_ok w' v"
proof -
  have ok: "sst_ok w t" if "t \<in> set (concat (levels v))" for t
    using assms(2) that unfolding version_ok_def list_all_iff by blast
  show "levels_at K w' v"
    unfolding levels_at_def
  proof (intro allI impI ballI)
    fix l t
    assume l: "l < length (levels v)" and t: "t \<in> set (levels v ! l)"
    then have live: "t \<in> set (concat (levels v))" by auto
    have "table_at K w l t"
      using assms(1) l t by (simp add: levels_at_def)
    then show "table_at K w' l t"
      using table_at_cong(3) ok [OF live] assms(3) live unfolding same_tables_def by blast
  qed
  show "version_ok w' v"
  proof (rule version_ok_cong [OF assms(2)])
    fix t
    assume live: "t \<in> set (concat (levels v))"
    then obtain l where "table_at K w l t"
      using live_table_at [OF assms(1)] by blast
    then show "sst_ok w' t"
      using table_at_cong(1) ok [OF live] assms(3) live unfolding same_tables_def by blast
  qed
qed

text \<open>The cache stays coherent when tables leave, and when a table comes whose id no cached block has.\<close>

lemma shared_store_grow:
  assumes store: "shared_store sh w k b" and lv: "levels_at K w (sh_version sh)"
    and same: "same_tables (sh_version sh) w w'"
    and sub: "set (concat (levels (sh_version sh'))) \<subseteq> insert t (set (concat (levels (sh_version sh))))"
    and fresh: "next_table_id (sh_manifest sh) \<le> sst_id t" and nxt: "next_table_id (sh_manifest sh) \<le> next_table_id (sh_manifest sh')"
  shows "shared_store sh' w' k b"
  unfolding shared_store_def
proof
  have bound: "key_table_id k < next_table_id (sh_manifest sh)"
    using store by (simp add: shared_store_def)
  then show "key_table_id k < next_table_id (sh_manifest sh')"
    using nxt by (rule less_le_trans)
  show "block_store (set (concat (levels (sh_version sh')))) w' k b"
    unfolding block_store_def
  proof (intro ballI impI)
    fix u e
    assume u: "u \<in> set (concat (levels (sh_version sh')))" and e: "e \<in> set (sst_index u)"
      and ids: "sst_id u = key_table_id k" "ie_offset e = key_offset k"
    have "u \<noteq> t" using ids(1) bound fresh by auto
    then have live: "u \<in> set (concat (levels (sh_version sh)))" using u sub by blast
    then have "read_data_block (sst_path u) (ie_offset e) (ie_length e) w = Ok b"
      using store e ids unfolding shared_store_def block_store_def by blast
    moreover have "sst_path u = table_file_name (sst_id u)"
      using live_table_at [OF lv live] by (auto simp: table_at_def)
    moreover have "files w' (table_file_name (sst_id u)) = files w (table_file_name (sst_id u))"
      using same live unfolding same_tables_def by blast
    ultimately show "read_data_block (sst_path u) (ie_offset e) (ie_length e) w' = Ok b"
      using read_data_block_cong [of w "sst_path u" w'] by simp
  qed
qed

lemma same_tables_changes:
  assumes "changes F w w'" and "\<And>t. t \<in> set (concat (levels v)) \<Longrightarrow> table_file_name (sst_id t) \<notin> F"
  shows "same_tables v w w'"
  using assms by (simp add: same_tables_def changes_def)

lemma shared_inv_step:
  assumes inv: "shared_inv K n0 sh w" and same: "same_tables (sh_version sh) w w'"
    and disk: "disk_inv K n1 (sh_manifest sh') (sh_version sh') w'"
    and len: "length (levels (sh_version sh')) = length (levels (sh_version sh))"
    and sub: "set (concat (levels (sh_version sh'))) \<subseteq> insert t (set (concat (levels (sh_version sh))))"
    and fresh: "next_table_id (sh_manifest sh) \<le> sst_id t"
    and nxt: "next_table_id (sh_manifest sh) \<le> next_table_id (sh_manifest sh')"
    and rest: "sh_options sh' = sh_options sh" "sh_cache sh' = sh_cache sh"
  shows "shared_inv K n1 sh' w'"
proof -
  have lv: "levels_at K w (sh_version sh)" and coh: "block_cache.coherent (shared_store sh w) (sh_cache sh)"
    using inv by (simp_all add: shared_inv_defs)
  have "block_cache.coherent (shared_store sh' w') (sh_cache sh)"
    by (rule block_cache.coherent_mono [OF coh]) (rule shared_store_grow [OF _ lv same sub fresh nxt])
  then show ?thesis
    using inv disk len rest by (simp add: shared_inv_defs)
qed

text \<open>A step that touches neither the version nor the manifest's tables, nor their files.\<close>

lemma shared_inv_world:
  assumes inv: "shared_inv K n0 sh w" and same: "same_tables (sh_version sh) w w'"
    and man: "files w' MANIFEST_FILE = files w MANIFEST_FILE"
  shows "shared_inv K n0 sh w'"
proof -
  note ok = same_tables_ok [OF _ _ same, of K]
  have "shared_store sh w' k b" if store: "shared_store sh w k b" for k b
  proof (cases "levels (sh_version sh)")
    case Nil
    then show ?thesis using store by (simp add: shared_store_def block_store_def)
  next
    case (Cons l0 ls)
    obtain t where "next_table_id (sh_manifest sh) \<le> sst_id (t :: sstable)"
      by (metis order_refl sstable.select_convs(1))
    then show ?thesis
      using inv by (intro shared_store_grow [OF store _ same, of K sh t]) (auto simp: shared_inv_defs)
  qed
  then have "block_cache.coherent (shared_store sh w') (sh_cache sh)"
    using inv block_cache.coherent_mono unfolding shared_inv_defs by blast
  then show ?thesis
    using inv ok man_at_cong [OF _ man] by (simp add: shared_inv_defs)
qed

end
