(* ===== verification/Engine_Ops.thy ===== *)
theory Engine_Ops
  imports Engine_Inv
begin

text \<open>
  The operations that write: what a flush, a write and a compaction do to the invariant and to the map, on the paths
  where they succeed and on those where a failpoint makes them fail.
\<close>

section \<open>A new table\<close>

definition table_faults :: "fail_kind option set" where
  "table_faults = {Some SsTableWrite, Some SsTableSync, Some Rename}"

lemma create_ok:
  assumes "capacity fl opts K" and "ksorted es" and "layer_ok K (map_of es)" and "failpoint w \<notin> table_faults"
  obtains t w' where
    "sst_create fl (table_file_name tid) tid es (bloom_false_positive_rate opts) (opt_block_size opts) w = (Ok t, w')"
    and "sst_ok w' t" and "sst_entries w' t = es" and "sst_id t = tid" and "table_at K w' 0 t"
    and "changes {table_file_name tid, tmp_path (table_file_name tid)} w w'"
proof -
  note fits = layer_fits [OF assms(1-3)]
  obtain t w' where create:
      "sst_create fl (table_file_name tid) tid es (bloom_false_positive_rate opts) (opt_block_size opts) w = (Ok t, w')"
    by (rule sst_create_clear [OF fits(1) assms(2)]) (use assms(4) in \<open>auto simp: table_faults_def\<close>)
  note holds = sst_create_holds [OF fits(1) assms(2) fits(2) create]
  have entries: "sst_entries w' t = es"
    using holds(1) by (rule sst_entries_eq)
  have "set_level 0 t = t"
    using holds(4) by (simp add: set_level_def)
  then have "sst_open (table_file_name tid) tid w' = Ok (set_level 0 t)"
    using sst_create_reopens [OF fits(1) assms(2) fits(2) create] by simp
  then have "table_at K w' 0 t"
    using holds(2-4,7) assms(3) entries by (simp add: table_at_def)
  moreover have "changes {table_file_name tid, tmp_path (table_file_name tid)} w w'"
    using holds(5,6) by (simp add: changes_def)
  ultimately show ?thesis
    using that [OF create sst_holds_ok [OF holds(1)] entries holds(2)] by blast
qed

lemma create_fails:
  assumes "capacity fl opts K" and "ksorted es" and "layer_ok K (map_of es)" and "failpoint w \<in> table_faults"
  obtains err w' where
    "sst_create fl (table_file_name tid) tid es (bloom_false_positive_rate opts) (opt_block_size opts) w = (Err err, w')"
    and "failpoint w' = None" and "\<And>f. f \<noteq> tmp_path (table_file_name tid) \<Longrightarrow> files w' f = files w f"
proof -
  note fits = layer_fits [OF assms(1-3)]
  let ?create = "sst_create fl (table_file_name tid) tid es (bloom_false_positive_rate opts) (opt_block_size opts) w"
  obtain r w' where create: "?create = (r, w')" by fastforce
  have "r \<noteq> Ok t" for t
  proof
    assume "r = Ok t"
    obtain bloom where "bloom_insert_all (map fst es) (bloom_new fl (max (length es) 1) (bloom_false_positive_rate opts)) = Ok bloom"
      by (rule bloom_for_table)
    from sst_create_cases [OF fits(1) assms(2) this, of "table_file_name tid" tid w] create \<open>r = Ok t\<close> assms(4)
    show False by (auto simp: table_faults_def Let_def)
  qed
  moreover have "r \<noteq> Panic"
    using sst_create_not_Panic [OF fits(1) assms(2), of "table_file_name tid" tid w] create by simp
  ultimately obtain err where r: "r = Err err" by (cases r) auto
  show ?thesis
    using sst_create_Err [OF fits(1) assms(2) create [unfolded r]] that [OF create [unfolded r]] by blast
qed

section \<open>Flushing\<close>

abbreviation flushed_manifest :: "manifest \<Rightarrow> manifest" where
  "flushed_manifest m \<equiv> m\<lparr>next_table_id := next_table_id m + 1, man_tables := man_tables m @ [(next_table_id m, 0)]\<rparr>"

abbreviation id_room :: "shared_state \<Rightarrow> bool" where
  "id_room sh \<equiv> next_table_id (sh_manifest sh) < next_table_id (sh_manifest sh) + 1"

lemma new_id_unused:
  assumes "disk_inv K n0 m v w" and "t \<in> set (concat (levels v))"
  shows "sst_id t < next_table_id m" and "sst_id t \<noteq> next_table_id m"
proof -
  obtain l where l: "l < length (levels v)" "t \<in> set (levels v ! l)"
    using assms(2) by (rule in_concat_nth)
  have "set (man_tables m) = (\<Union>l < length (levels v). (\<lambda>t. (sst_id t, as_u32 l)) ` set (levels v ! l))"
    using assms(1) by (simp add: disk_inv_def man_matches_def)
  then have "(sst_id t, as_u32 l) \<in> set (man_tables m)"
    using l by blast
  then have "sst_id t \<in> fst ` set (man_tables m)" by force
  then show "sst_id t < next_table_id m"
    using assms(1) unfolding disk_inv_def man_at_def by (meson less_le_trans)
  then show "sst_id t \<noteq> next_table_id m" by simp
qed

lemma new_files_same_tables:
  assumes "disk_inv K n0 m v w"
    and "changes {MANIFEST_FILE, table_file_name (next_table_id m), tmp_path (table_file_name (next_table_id m))} w w'"
  shows "same_tables v w w'"
  using assms(2) by (rule same_tables_changes) (use new_id_unused(2) [OF assms(1)] in auto)

lemma flush_table_ok:
  assumes inv: "shared_inv K n0 (eng_shared e) w" and cap: "capacity fl (eng_options e) K"
    and es: "ksorted es" "layer_ok K (map_of es)"
    and fp: "failpoint w \<notin> table_faults" "failpoint w \<noteq> Some ManifestWrite" and room: "id_room (eng_shared e)"
    and m: "m = sh_manifest (eng_shared e)" and tid: "tid = next_table_id m"
  obtains t w' where
    "flush_table fl es (e, w) = (Ok t, e\<lparr>eng_shared := (eng_shared e)\<lparr>sh_manifest := flushed_manifest m\<rparr>\<rparr>, w')"
    and "sst_ok w' t" and "sst_entries w' t = es" and "sst_id t = tid" and "table_at K w' 0 t"
    and "man_at (tid + 1) (flushed_manifest m) w'"
    and "changes {MANIFEST_FILE, table_file_name tid, tmp_path (table_file_name tid)} w w'"
proof -
  let ?m1 = "m\<lparr>next_table_id := tid + 1\<rparr>" and ?T = "{table_file_name tid, tmp_path (table_file_name tid)}"
  have at: "man_at n0 m w" using inv m by (simp add: shared_inv_defs)
  obtain w1 where w1: "man_next_table_id (m, w) = (Ok tid, ?m1, w1)" "man_at (tid + 1) ?m1 w1" "changes {MANIFEST_FILE} w w1"
    using man_at_next_id [OF at fp(2)] room m tid by metis
  obtain t w2 where w2:
      "sst_create fl (table_file_name tid) tid es (bloom_false_positive_rate (eng_options e)) (opt_block_size (eng_options e)) w1 = (Ok t, w2)"
      "sst_ok w2 t" "sst_entries w2 t = es" "sst_id t = tid" "table_at K w2 0 t" "changes ?T w1 w2"
    by (rule create_ok [OF cap es, of w1 tid]) (use w1(3) fp(1) in \<open>auto simp: changes_def\<close>)
  have at2: "man_at (tid + 1) ?m1 w2"
    by (rule man_at_cong [OF w1(2)]) (use w2(6) in \<open>simp add: changes_def\<close>)
  have fp2: "failpoint w2 \<noteq> Some ManifestWrite"
    using w1(3) w2(6) fp(2) by (simp add: changes_def)
  have new: "tid < tid + 1" "tid \<notin> fst ` set (man_tables ?m1)"
    using room m tid at by (auto simp: man_at_def)
  obtain w3 where w3: "man_add_table tid 0 (?m1, w2) = (Ok (), ?m1\<lparr>man_tables := man_tables ?m1 @ [(tid, 0)]\<rparr>, w3)"
      "man_at (tid + 1) (?m1\<lparr>man_tables := man_tables ?m1 @ [(tid, 0)]\<rparr>) w3" "changes {MANIFEST_FILE} w2 w3"
    by (rule man_at_add [OF at2 fp2 new])
  have same: "files w3 (table_file_name tid) = files w2 (table_file_name tid)"
    using w3(3) by (simp add: changes_def)
  note t3 = table_at_cong [OF w2(5,2), of w3, unfolded w2(4), OF same]
  show ?thesis
  proof (rule that)
    show "flush_table fl es (e, w) = (Ok t, e\<lparr>eng_shared := (eng_shared e)\<lparr>sh_manifest := flushed_manifest m\<rparr>\<rparr>, w3)"
      using w1(1) w2(1) w3(1) m tid
      by (simp add: flush_table_def on_shared_def on_manifest_def on_world_def)
    show "changes {MANIFEST_FILE, table_file_name tid, tmp_path (table_file_name tid)} w w3"
      using changes_trans [OF changes_trans [OF w1(3) w2(6)] w3(3)] by (simp add: insert_commute)
  qed (use t3 w2(3,4) w3(2) tid in simp_all)
qed

text \<open>The version with the new table in front of L0 describes the disk.\<close>

lemma disk_inv_newest:
  assumes disk: "disk_inv K n0 m v w" and lv: "levels v = l0 # ls"
    and t: "sst_ok w' t" "sst_id t \<notin> sst_id ` set (concat (levels v))" "table_at K w' 0 t"
    and man: "man_at n1 m' w'" "man_tables m' = man_tables m @ [(sst_id t, 0)]" and same: "same_tables v w w'"
  shows "disk_inv K n1 m' (v\<lparr>levels := (t # l0) # ls\<rparr>) w'"
proof -
  let ?v = "v\<lparr>levels := (t # l0) # ls\<rparr>"
  have old: "levels_at K w' v" "version_ok w' v"
    using same_tables_ok [OF _ _ same, of K] disk by (simp_all add: disk_inv_def)
  have "version_ok w' ?v"
    using old(2) t(1,2) lv by (simp add: version_ok_def image_Un)
  moreover have "levels_at K w' ?v"
    using old(1) t(3) lv unfolding levels_at_def by (auto simp: nth_Cons' split: if_splits)
  moreover have "man_matches m' ?v"
  proof -
    have "set (man_tables m) = (\<Union>l < length (levels v). (\<lambda>t. (sst_id t, as_u32 l)) ` set (levels v ! l))"
      and l0: "filter (\<lambda>(_, l). l = 0) (man_tables m) = map (\<lambda>t. (sst_id t, 0)) (rev l0)"
      using disk lv by (simp_all add: disk_inv_def man_matches_def)
    moreover have "(\<Union>l < length (levels ?v). (\<lambda>t. (sst_id t, as_u32 l)) ` set (levels ?v ! l)) =
        insert (sst_id t, 0) (\<Union>l < length (levels v). (\<lambda>t. (sst_id t, as_u32 l)) ` set (levels v ! l))"
      unfolding lv by (simp add: lessThan_Suc_eq_insert_0 image_image)
    ultimately show ?thesis
      using man(2) by (simp add: man_matches_def)
  qed
  ultimately show ?thesis
    using disk man(1) lv by (simp add: disk_inv_def)
qed

lemma disk_inv_flushed:
  assumes disk: "disk_inv K n0 m v w" and "levels v = l0 # ls"
    and t: "sst_ok w' t" "sst_id t = next_table_id m" "table_at K w' 0 t"
    and "man_at n1 (flushed_manifest m) w'" and "same_tables v w w'"
  shows "disk_inv K n1 (flushed_manifest m) (v\<lparr>levels := (t # l0) # ls\<rparr>) w'"
proof (rule disk_inv_newest [OF assms(1-3) _ t(3) assms(6) _ assms(7)])
  show "sst_id t \<notin> sst_id ` set (concat (levels v))"
    using new_id_unused(2) [OF disk] t(2) by force
qed (use t(2) in simp)

text \<open>The worker never panicked, and once it was joined it is gone.\<close>

definition worker_ok :: "compaction_worker \<Rightarrow> bool" where
  "worker_ok c \<longleftrightarrow> \<not> panicked c \<and> (handle_taken c \<longrightarrow> \<not> alive c)"

definition engine_ok :: "bytes set \<Rightarrow> engine \<Rightarrow> world \<Rightarrow> bool" where
  "engine_ok K e w \<longleftrightarrow> (\<exists>n0. engine_inv K n0 e w) \<and> worker_ok (eng_worker e)"

text \<open>
  Table ids are 64 bits wide. \<open>id_use\<close> counts the ids handed out and those the pending compaction requests may
  still take; a step raises it by at most \<open>n\<close>.
\<close>

definition next_no :: "engine \<Rightarrow> nat" where
  "next_no e = unat (next_table_id (sh_manifest (eng_shared e)))"

definition id_use :: "engine \<Rightarrow> nat" where
  "id_use e = next_no e + length (pending (eng_worker e))"

definition good_step :: "bytes set \<Rightarrow> nat \<Rightarrow> engine \<Rightarrow> world \<Rightarrow> engine \<Rightarrow> world \<Rightarrow> bool" where
  "good_step K n e w e' w' \<longleftrightarrow>
     engine_ok K e' w' \<and> failpoint w' = failpoint w \<and> eng_options e' = eng_options e \<and>
     eng_immutable e' = eng_immutable e \<and> id_use e' \<le> id_use e + n"

lemma id_room_iff: "id_room sh \<longleftrightarrow> unat (next_table_id (sh_manifest sh)) < 2 ^ 64 - 1"
  and next_plus_one: "id_room sh \<Longrightarrow> unat (next_table_id (sh_manifest sh) + 1) = unat (next_table_id (sh_manifest sh)) + 1"
proof -
  let ?x = "next_table_id (sh_manifest sh)"
  have "unat ?x < 2 ^ LENGTH(64)" by (rule unsigned_less)
  then have less: "unat ?x < 2 ^ 64" by simp
  then have plus: "unat (?x + 1) = (if unat ?x + 1 = 2 ^ 64 then 0 else unat ?x + 1)"
    by (auto simp: unat_word_ariths)
  show iff: "id_room sh \<longleftrightarrow> unat ?x < 2 ^ 64 - 1"
    using less unfolding word_less_nat_alt plus by auto
  show "id_room sh \<Longrightarrow> unat (?x + 1) = unat ?x + 1"
    unfolding iff plus by auto
qed

lemma freeze_ok:
  assumes "mem_inv (eng_memtable e)"
  obtains imm where
    "freeze_memtable e = (entries (eng_memtable e), e\<lparr>eng_memtable := mem_new, eng_immutable := Some imm\<rparr>)"
    and "mem_get imm = mem_get (eng_memtable e)" and "mem_inv imm"
proof
  let ?imm = "fold mem_write (mem_iter (eng_memtable e)) mem_new"
  show "freeze_memtable e = (entries (eng_memtable e), e\<lparr>eng_memtable := mem_new, eng_immutable := Some ?imm\<rparr>)"
    by (simp add: freeze_memtable_def Let_def mem_iter_def)
  show "mem_get ?imm = mem_get (eng_memtable e)"
    using mem.look_copy [OF assms] by (simp add: mem_write_insert)
  show "mem_inv ?imm"
    using mem.inv_fold [OF mem_inv_new] by (simp add: mem_write_insert)
qed

lemma sync_step:
  assumes inv: "engine_inv K n0 e w"
  shows "engine_inv K n0 e (file_sync WAL_FILE_NAME w)" and "engine_map e (file_sync WAL_FILE_NAME w) = engine_map e w"
proof -
  let ?w = "file_sync WAL_FILE_NAME w"
  have path: "wal_path (eng_wal e) = WAL_FILE_NAME" and sinv: "shared_inv K n0 (eng_shared e) w"
    using inv by (simp_all add: engine_inv_def log_inv_def)
  have same: "same_tables (sh_version (eng_shared e)) w ?w"
    by (simp add: same_tables_def)
  have "log_inv K e ?w"
    using inv wal_holds_sync [of "eng_wal e"] wal_synced_sync [of "eng_wal e"] path
    unfolding engine_inv_def log_inv_def by metis
  then show "engine_inv K n0 e ?w"
    using inv shared_inv_world [OF sinv same] by (simp add: engine_inv_def)
  show "engine_map e ?w = engine_map e w"
    by (rule engine_map_cong)
      (use sinv in \<open>simp_all add: same_tables_tlook [OF _ _ same, of K] shared_inv_defs\<close>)
qed

lemma flush_empty:
  assumes inv: "engine_inv K n0 e w" and empty: "mem_is_empty (eng_memtable e)" and fp: "failpoint w \<noteq> Some WalSync"
  shows "flush_memtable fl (e, w) = (Ok (), e, file_sync WAL_FILE_NAME w)"
  using inv empty fp
  by (simp add: flush_memtable_def on_world_def wal_sync_def should_fail_def engine_inv_def log_inv_def)

lemma memtable_layer:
  assumes "engine_inv K n0 e w"
  shows "ksorted (entries (eng_memtable e))" and "layer_ok K (map_of (entries (eng_memtable e)))"
    and "map_of (entries (eng_memtable e)) = mem_get (eng_memtable e)"
proof -
  have inv: "mem_inv (eng_memtable e)" and layer: "layer_ok K (buffer_look e)"
    using assms by (simp_all add: engine_inv_def)
  show "ksorted (entries (eng_memtable e))" and get: "map_of (entries (eng_memtable e)) = mem_get (eng_memtable e)"
    using mem.items_look [OF inv] by (simp_all add: mem_iter_def)
  have "buffer_look e k = Some x" if "mem_get (eng_memtable e) k = Some x" for k x
    using that by (simp add: buffer_look_def)
  then show "layer_ok K (map_of (entries (eng_memtable e)))"
    using layer by (simp add: layer_ok_def get)
qed

text \<open>A flush that succeeds writes the memtable out; the immutable memtable it replaces is forgotten.\<close>

definition flushed_by :: "engine \<Rightarrow> sstable \<Rightarrow> world \<Rightarrow> world \<Rightarrow> bool" where
  "flushed_by e t w w' \<longleftrightarrow>
     sst_id t = next_table_id (sh_manifest (eng_shared e)) \<and>
     changes {WAL_FILE_NAME, MANIFEST_FILE, table_file_name (sst_id t), tmp_path (table_file_name (sst_id t))} w w'"

lemma flush_full_levels:
  assumes inv: "engine_inv K n0 e w" and full: "\<not> mem_is_empty (eng_memtable e)" and cap: "capacity fl (eng_options e) K"
    and fp: "failpoint w \<notin> table_faults" "failpoint w \<noteq> Some ManifestWrite" and room: "id_room (eng_shared e)"
  obtains n1 e' w' t where "flush_memtable fl (e, w) = (Ok (), e', w')" and "engine_inv K n1 e' w'"
    and "eng_immutable e' = None" and "eng_memtable e' = mem_new" and "eng_worker e' = eng_worker e"
    and "eng_options e' = eng_options e" and "failpoint w' = failpoint w" and "next_no e' = next_no e + 1"
    and "\<And>k. engine_look e' w' k =
      (case mem_get (eng_memtable e) k of Some x \<Rightarrow> Some x | None \<Rightarrow> tlook w (engine_tables e) k)"
    and "levels (sh_version (eng_shared e')) = (t # hd (levels (sh_version (eng_shared e)))) # tl (levels (sh_version (eng_shared e)))"
    and "entries_map w' t = mem_get (eng_memtable e)"
    and "\<And>k. tlook w' (engine_tables e) k = tlook w (engine_tables e) k"
    and "flushed_by e t w w'"
proof -
  let ?sh = "eng_shared e" and ?es = "entries (eng_memtable e)"
  let ?m = "sh_manifest ?sh" and ?v = "sh_version ?sh"
  have sinv: "shared_inv K n0 ?sh w" and path: "wal_path (eng_wal e) = WAL_FILE_NAME" and opts: "eng_options e = sh_options ?sh"
    using inv by (simp_all add: engine_inv_def log_inv_def)
  have disk: "disk_inv K n0 ?m ?v w" using sinv by (simp add: shared_inv_def)
  obtain imm where frozen: "freeze_memtable e = (?es, e\<lparr>eng_memtable := mem_new, eng_immutable := Some imm\<rparr>)"
    using freeze_ok [of e] inv unfolding engine_inv_def by metis
  let ?e1 = "e\<lparr>eng_memtable := mem_new, eng_immutable := Some imm\<rparr>"
  note layer = memtable_layer [OF inv]
  obtain t w1 where ft: "flush_table fl ?es (?e1, w) = (Ok t, ?e1\<lparr>eng_shared := ?sh\<lparr>sh_manifest := flushed_manifest ?m\<rparr>\<rparr>, w1)"
      and t: "sst_ok w1 t" "sst_entries w1 t = ?es" "sst_id t = next_table_id ?m" "table_at K w1 0 t"
      and man: "man_at (next_table_id ?m + 1) (flushed_manifest ?m) w1"
      and ch: "changes {MANIFEST_FILE, table_file_name (next_table_id ?m), tmp_path (table_file_name (next_table_id ?m))} w w1"
    by (rule flush_table_ok [of K n0 ?e1 w fl ?es, OF _ _ layer(1,2) fp _ refl refl]) (use sinv cap room in simp_all)
  obtain l0 ls where lv: "levels ?v = l0 # ls"
    using disk by (cases "levels ?v") (simp_all add: disk_inv_def)
  let ?v' = "?v\<lparr>levels := (t # l0) # ls\<rparr>"
  let ?sh' = "?sh\<lparr>sh_manifest := flushed_manifest ?m, sh_version := ?v'\<rparr>"
  let ?e' = "e\<lparr>eng_memtable := mem_new, eng_shared := ?sh', eng_immutable := None\<rparr>"
  let ?w = "file_clear WAL_FILE_NAME w1"
  have same: "same_tables ?v w w1"
    by (rule new_files_same_tables [OF disk ch])
  have disk': "disk_inv K (next_table_id ?m + 1) (flushed_manifest ?m) ?v' w1"
    by (rule disk_inv_flushed [OF disk lv t(1,3,4) man same])
  have "shared_inv K (next_table_id ?m + 1) ?sh' w1"
    by (rule shared_inv_step [OF sinv same, where t = t]) (use disk' lv t(3) room in simp_all)
  then have sinv': "shared_inv K (next_table_id ?m + 1) ?sh' ?w"
    by (rule shared_inv_world) (simp_all add: same_tables_def)
  have res: "flush_memtable fl (e, w) = (Ok (), ?e', ?w)"
    using full frozen ft lv path by (simp add: flush_memtable_def flush_install_def on_world_def wal_truncate_def)
  have buf: "buffer_look ?e' k = None" for k
    by (simp add: buffer_look_def)
  have "log_inv K ?e' ?w"
    unfolding log_inv_def
  proof (intro conjI exI [of _ "[]"])
    show "wal_holds (eng_wal ?e') [] ?w"
      using wal_holds_truncate [of "eng_wal e"] path by simp
  qed (simp_all add: path wal_synced_def empty_file_def file_of_def buf fun_eq_iff)
  then have "engine_inv K (next_table_id ?m + 1) ?e' ?w"
    using sinv' opts by (simp add: engine_inv_def layer_ok_def buf)
  moreover have new: "tlook ?w (concat (levels ?v')) k = tlook w1 (concat (levels ?v')) k" for k
    by (rule same_tables_tlook [where K = K and v = ?v']) (use disk' in \<open>simp_all add: disk_inv_def same_tables_def\<close>)
  have old1: "tlook w1 (concat (levels ?v)) k = tlook w (concat (levels ?v)) k" for k
    by (rule same_tables_tlook [OF _ _ same, where K = K]) (use disk in \<open>simp_all add: disk_inv_def\<close>)
  have "engine_look ?e' ?w k =
      (case mem_get (eng_memtable e) k of Some x \<Rightarrow> Some x | None \<Rightarrow> tlook w (engine_tables e) k)" for k
    using new [of k] old1 [of k] by (simp add: engine_look_def buf lv t(2) layer(3) cong: option.case_cong)
  moreover have "tlook ?w (concat (levels ?v)) k = tlook w1 (concat (levels ?v)) k" for k
    by (rule same_tables_tlook [where K = K and v = ?v']) (use disk' lv in \<open>auto simp: disk_inv_def same_tables_def\<close>)
  moreover have "entries_map ?w t = mem_get (eng_memtable e)"
    using table_at_cong(2) [OF t(4,1), of ?w] by (simp add: t(2) layer(3))
  moreover have "flushed_by e t w ?w"
    using changes_trans [OF ch changes_io(3) [of WAL_FILE_NAME]] t(3) by (simp add: flushed_by_def)
  ultimately show ?thesis
    using that [OF res] ch room old1 lv by (simp add: next_no_def next_plus_one changes_def)
qed

lemma flush_full:
  assumes "engine_inv K n0 e w" and "\<not> mem_is_empty (eng_memtable e)" and "capacity fl (eng_options e) K"
    and "failpoint w \<notin> table_faults" "failpoint w \<noteq> Some ManifestWrite" and "id_room (eng_shared e)"
  obtains n1 e' w' where "flush_memtable fl (e, w) = (Ok (), e', w')" and "engine_inv K n1 e' w'"
    and "eng_immutable e' = None" and "eng_memtable e' = mem_new" and "eng_worker e' = eng_worker e"
    and "eng_options e' = eng_options e" and "failpoint w' = failpoint w" and "next_no e' = next_no e + 1"
    and "\<And>k. engine_look e' w' k =
      (case mem_get (eng_memtable e) k of Some x \<Rightarrow> Some x | None \<Rightarrow> tlook w (engine_tables e) k)"
  by (rule flush_full_levels [OF assms]) (rule that)

lemma maybe_request_simps [simp]:
  "eng_shared (maybe_request_compaction e) = eng_shared e" "eng_wal (maybe_request_compaction e) = eng_wal e"
  "eng_memtable (maybe_request_compaction e) = eng_memtable e" "eng_immutable (maybe_request_compaction e) = eng_immutable e"
  "eng_options (maybe_request_compaction e) = eng_options e" "buffer_look (maybe_request_compaction e) = buffer_look e"
  "next_no (maybe_request_compaction e) = next_no e"
  by (simp_all add: maybe_request_compaction_def Let_def next_no_def)

lemma maybe_request_id_use: "id_use (maybe_request_compaction e) \<le> id_use e + 1"
  by (simp add: id_use_def next_no_def maybe_request_compaction_def request_compaction_def Let_def)

lemma maybe_request_worker [simp]: "worker_ok (eng_worker (maybe_request_compaction e)) = worker_ok (eng_worker e)"
  by (simp add: worker_ok_def maybe_request_compaction_def request_compaction_def Let_def)

lemma maybe_request_engine [simp]:
  "engine_inv K n0 (maybe_request_compaction e) w = engine_inv K n0 e w"
  "engine_ok K (maybe_request_compaction e) w = engine_ok K e w"
  "engine_look (maybe_request_compaction e) w = engine_look e w"
  "engine_map (maybe_request_compaction e) w = engine_map e w"
  by (simp_all add: engine_ok_def engine_inv_def log_inv_def engine_look_def engine_map_def fun_eq_iff cong: option.case_cong)

text \<open>The user's map does not change when the memtable is written out.\<close>

lemma engine_flush_ok:
  assumes ok: "engine_ok K e w" and imm: "eng_immutable e = None" and cap: "capacity fl (eng_options e) K"
    and fp: "failpoint w = None" and room: "id_room (eng_shared e)"
  obtains e' w' where "engine_flush fl (e, w) = (Ok (), e', w')" and "good_step K 2 e w e' w'"
    and "engine_map e' w' = engine_map e w" and "mem_is_empty (eng_memtable e')"
proof -
  obtain n0 where inv: "engine_inv K n0 e w"
    using ok by (auto simp: engine_ok_def)
  have np: "worker_ok (eng_worker e)"
    using ok by (simp add: engine_ok_def)
  show ?thesis
  proof (cases "mem_is_empty (eng_memtable e)")
    case True
    have "flush_memtable fl (e, w) = (Ok (), e, file_sync WAL_FILE_NAME w)"
      by (rule flush_empty [OF inv True]) (use fp in simp)
    then show ?thesis
      using True np sync_step [OF inv] maybe_request_id_use [of e]
      by (intro that [of "maybe_request_compaction e" "file_sync WAL_FILE_NAME w"])
        (auto simp: engine_flush_def good_step_def engine_ok_def)
  next
    case False
    obtain n1 e' w' where r: "flush_memtable fl (e, w) = (Ok (), e', w')" and i: "engine_inv K n1 e' w'"
      and e': "eng_immutable e' = None" "eng_memtable e' = mem_new" "eng_worker e' = eng_worker e" "eng_options e' = eng_options e"
        "failpoint w' = failpoint w" "next_no e' = next_no e + 1"
      and look: "\<And>k. engine_look e' w' k =
          (case mem_get (eng_memtable e) k of Some x \<Rightarrow> Some x | None \<Rightarrow> tlook w (engine_tables e) k)"
      by (rule flush_full [OF inv False cap _ _ room]) (use fp in \<open>simp_all add: table_faults_def\<close>)
    have "engine_look e' w' = engine_look e w"
      using look by (auto simp: engine_look_def buffer_look_def imm split: option.splits)
    then have "engine_map e' w' = engine_map e w"
      by (simp add: engine_map_def fun_eq_iff)
    then show ?thesis
      using r i e' np imm maybe_request_id_use [of e'] by (intro that [of "maybe_request_compaction e'" w'])
        (auto simp: engine_flush_def good_step_def engine_ok_def mem_is_empty_def mem_new_def id_use_def)
  qed
qed

section \<open>Writing\<close>

text \<open>Once the record is in the log and durable, applying it to the memtable keeps the invariant.\<close>

lemma log_inv_append:
  assumes log: "log_inv K e w" and layer: "layer_ok K (buffer_look e)" and op: "op_fits op" "fst (op_entry op) \<in> K"
    and w': "w' = file_sync WAL_FILE_NAME (file_append WAL_FILE_NAME (op_bytes op) w)"
    and e': "e' = e\<lparr>eng_memtable := apply_operation op (eng_memtable e)\<rparr>"
  shows "log_inv K e' w'" and "layer_ok K (buffer_look e')"
    and "buffer_look e' = (buffer_look e)(fst (op_entry op) \<mapsto> snd (op_entry op))"
proof -
  let ?k = "fst (op_entry op)" and ?x = "snd (op_entry op)"
  have path: "wal_path (eng_wal e) = WAL_FILE_NAME"
    using log by (simp add: log_inv_def)
  obtain ops where ops: "wal_holds (eng_wal e) ops w" "fst ` op_entry ` set ops \<subseteq> K"
      "mem_get (fold apply_operation ops mem_new) = buffer_look e"
    using log by (auto simp: log_inv_def)
  show buf: "buffer_look e' = (buffer_look e)(?k \<mapsto> ?x)"
    by (auto simp: buffer_look_def e' fun_eq_iff cong: option.case_cong)
  have "wal_holds (eng_wal e) (ops @ [op]) w'"
    unfolding w' using wal_holds_sync [OF wal_holds_append [OF ops(1) op(1)]] path by simp
  moreover have "mem_get (fold apply_operation (ops @ [op]) mem_new) = buffer_look e'"
    using ops(3) buf by simp
  moreover have "wal_synced (eng_wal e) w'"
    unfolding w' using wal_synced_sync [of "eng_wal e"] path by metis
  ultimately show "log_inv K e' w'"
    unfolding log_inv_def using ops(2) op(2) path by (intro conjI exI [of _ "ops @ [op]"]) (simp_all add: e')
  show "layer_ok K (buffer_look e')"
    using layer op op_entry_limits [OF op(1)] buf by (auto simp: layer_ok_def)
qed

lemma log_step:
  assumes inv: "engine_inv K n0 e w" and op: "op_fits op" "fst (op_entry op) \<in> K"
    and w': "w' = file_sync WAL_FILE_NAME (file_append WAL_FILE_NAME (op_bytes op) w)"
    and e': "e' = e\<lparr>eng_memtable := apply_operation op (eng_memtable e)\<rparr>"
  shows "engine_inv K n0 e' w'"
    and "engine_map e' w' = (engine_map e w)(fst (op_entry op) := visible (Some (snd (op_entry op))))"
proof -
  have sinv: "shared_inv K n0 (eng_shared e) w" and log: "log_inv K e w" "layer_ok K (buffer_look e)"
    using inv by (simp_all add: engine_inv_def)
  note step = log_inv_append [OF log op w' e']
  have same: "same_tables (sh_version (eng_shared e)) w w'"
    by (simp add: same_tables_def w')
  have "shared_inv K n0 (eng_shared e') w'"
    using shared_inv_world [OF sinv same] by (simp add: e' w')
  then show "engine_inv K n0 e' w'"
    using inv step(1,2) by (simp add: engine_inv_def) (simp add: e')
  have "tlook w' (engine_tables e') k = tlook w (engine_tables e) k" for k
    unfolding e' using same_tables_tlook [OF _ _ same, of K] sinv by (simp add: shared_inv_defs)
  then show "engine_map e' w' = (engine_map e w)(fst (op_entry op) := visible (Some (snd (op_entry op))))"
    by (simp add: engine_map_def engine_look_def step(3) fun_eq_iff split: option.split)
qed

lemma engine_write_ok:
  assumes ok: "engine_ok K e w" and imm: "eng_immutable e = None" and cap: "capacity fl (eng_options e) K"
    and op: "op_fits op" "fst (op_entry op) \<in> K" and fp: "failpoint w = None" and room: "id_room (eng_shared e)"
  obtains e' w' where "engine_write fl op (e, w) = (Ok (), e', w')" and "good_step K 2 e w e' w'"
    and "engine_map e' w' = (engine_map e w)(fst (op_entry op) := visible (Some (snd (op_entry op))))"
proof -
  obtain n0 where inv: "engine_inv K n0 e w"
    using ok by (auto simp: engine_ok_def)
  have path: "wal_path (eng_wal e) = WAL_FILE_NAME"
    using inv by (simp add: engine_inv_def log_inv_def)
  let ?w1 = "file_sync WAL_FILE_NAME (file_append WAL_FILE_NAME (op_bytes op) w)"
  let ?e1 = "e\<lparr>eng_memtable := apply_operation op (eng_memtable e)\<rparr>"
  note step = log_step [OF inv op refl refl]
  have wr: "engine_write fl op (e, w) =
      (if approximate_size (eng_memtable ?e1) \<ge> memtable_size_bytes (eng_options e)
       then engine_flush fl (?e1, ?w1) else (Ok (), ?e1, ?w1))"
    using fp op(1) path
    by (cases rule: wal_append_cases [of w "eng_wal e" op])
      (simp_all add: engine_write_def on_world_def wal_sync_def should_fail_def Let_def)
  have ok1: "engine_ok K ?e1 ?w1"
    using step(1) ok by (auto simp: engine_ok_def)
  show ?thesis
  proof (cases "approximate_size (eng_memtable ?e1) \<ge> memtable_size_bytes (eng_options e)")
    case True
    obtain e' w' where "engine_flush fl (?e1, ?w1) = (Ok (), e', w')" "good_step K 2 ?e1 ?w1 e' w'"
        "engine_map e' w' = engine_map ?e1 ?w1"
      by (rule engine_flush_ok [OF ok1]) (use imm cap fp room in simp_all)
    then show ?thesis
      using True wr step(2) imm by (intro that [of e' w']) (simp_all add: good_step_def id_use_def next_no_def)
  next
    case False
    then show ?thesis
      using wr step(2) ok1 imm by (intro that [of ?e1 ?w1]) (simp_all add: good_step_def id_use_def next_no_def)
  qed
qed

end
