(* ===== verification/Engine_Compact.thy ===== *)
theory Engine_Compact
  imports Engine_Ops
begin

text \<open>
  One pass of compaction on the engine's shared state: it keeps the invariant and the user's map, also when it
  fails, and never removes the file of an input.
\<close>

section \<open>The output table\<close>

lemma merged_entries:
  assumes "list_all (sst_ok w) ts"
  shows "merge_tables w ts d = Ok (filter (keep_entry d) (merge_ref (map (sst_entries w) ts)))"
    and "ksorted (filter (keep_entry d) (merge_ref (map (sst_entries w) ts)))"
proof -
  have "list_all2 (\<lambda>t es. sst_holds t es w) ts (map (sst_entries w) ts)"
    using assms by (simp add: list_all2_map2 list_all2_same list_all_iff sst_ok_def)
  then show "merge_tables w ts d = Ok (filter (keep_entry d) (merge_ref (map (sst_entries w) ts)))"
    by (rule merge_tables_ok)
  have "list_all ksorted (map (sst_entries w) ts)"
    using assms by (simp add: list_all_iff sst_ok_ksorted)
  then show "ksorted (filter (keep_entry d) (merge_ref (map (sst_entries w) ts)))"
    by (rule merged_sorted)
qed

lemma merged_layer:
  assumes "list_all (sst_ok w) ts" and "\<And>t. t \<in> set ts \<Longrightarrow> layer_ok K (entries_map w t)"
  shows "layer_ok K (map_of (filter (keep_entry d) (merge_ref (map (sst_entries w) ts))))"
  unfolding layer_ok_def
proof (intro allI impI)
  fix k e
  have "list_all ksorted (map (sst_entries w) ts)"
    using assms(1) by (simp add: list_all_iff sst_ok_ksorted)
  note lookup = merged_lookup [OF this, of d k]
  assume "map_of (filter (keep_entry d) (merge_ref (map (sst_entries w) ts))) k = Some e"
  then have "look (map map_of (map (sst_entries w) ts)) k = Some e"
    unfolding lookup by (auto split: option.splits if_splits)
  then have "tlook w ts k = Some e"
    by (simp add: tlook_def comp_def)
  then obtain t where "t \<in> set ts" "entries_map w t k = Some e"
    using tlook_SomeD by blast
  then show "k \<in> K \<and> entry_limits (k, e)"
    using layer_okD [OF assms(2)] by blast
qed

lemma live_layer:
  "disk_inv K n0 m v w \<Longrightarrow> t \<in> set (concat (levels v)) \<Longrightarrow> sst_ok w t \<and> layer_ok K (entries_map w t)"
  using live_table_at [of K w v t] unfolding disk_inv_def version_ok_def list_all_iff table_at_def by blast

lemma disk_inv_next:
  assumes "disk_inv K n0 m v w" and "same_tables v w w'" and "man_at n1 (m\<lparr>next_table_id := n\<rparr>) w'"
  shows "disk_inv K n1 (m\<lparr>next_table_id := n\<rparr>) v w'"
  using assms same_tables_ok [OF _ _ assms(2), of K] by (simp add: disk_inv_def man_matches_def)

lemma same_tables_entries:
  assumes "disk_inv K n0 m v w" and "same_tables v w w'" and "t \<in> set (concat (levels v))"
  shows "sst_entries w' t = sst_entries w t"
proof -
  obtain l where "table_at K w l t"
    using live_table_at [OF _ assms(3)] assms(1) unfolding disk_inv_def by blast
  then show ?thesis
    using table_at_cong(2) live_layer [OF assms(1,3)] assms(2,3) unfolding same_tables_def by blast
qed

lemma same_tables_trans: "same_tables v w w' \<Longrightarrow> same_tables v w' w'' \<Longrightarrow> same_tables v w w''"
  by (simp add: same_tables_def)

lemma table_at_set_level:
  "table_at K w 0 t \<Longrightarrow> table_at K w l (set_level l t)"
  by (auto simp: table_at_def set_level_def sst_entries_def sst_iter_def)

text \<open>The merged file of a job whose inputs are live.\<close>

definition merged_for :: "world \<Rightarrow> version \<Rightarrow> options \<Rightarrow> compaction_job \<Rightarrow> (bytes \<times> entry) list" where
  "merged_for w v opts job =
     filter (keep_entry (may_drop_tombstones v opts job)) (merge_ref (map (sst_entries w) (inputs job)))"

lemma compact_output_ok:
  assumes inv: "shared_inv K n0 sh w" and cap: "capacity fl (sh_options sh) K"
    and live: "set (inputs job) \<subseteq> set (concat (levels (sh_version sh)))"
    and fp: "failpoint w \<notin> table_faults" "failpoint w \<noteq> Some ManifestWrite" and room: "id_room sh"
    and m: "m = sh_manifest sh" and tid: "tid = next_table_id m" and v: "v = sh_version sh"
  obtains ot w' where
    "compact_output fl v job (sh, w) = (Ok ot, sh\<lparr>sh_manifest := m\<lparr>next_table_id := tid + 1\<rparr>\<rparr>, w')"
    and "sst_ok w' ot" and "sst_entries w' ot = merged_for w' v (sh_options sh) job" and "sst_id ot = tid"
    and "table_at K w' (output_level job) ot" and "man_at (tid + 1) (m\<lparr>next_table_id := tid + 1\<rparr>) w'"
    and "changes {MANIFEST_FILE, table_file_name tid, tmp_path (table_file_name tid)} w w'"
proof -
  let ?m1 = "m\<lparr>next_table_id := tid + 1\<rparr>" and ?T = "{table_file_name tid, tmp_path (table_file_name tid)}"
  let ?d = "may_drop_tombstones v (sh_options sh) job" and ?ts = "inputs job"
  have disk: "disk_inv K n0 m v w" and at: "man_at n0 m w" using inv m v by (simp_all add: shared_inv_defs)
  obtain w1 where w1: "man_next_table_id (m, w) = (Ok tid, ?m1, w1)" "man_at (tid + 1) ?m1 w1" "changes {MANIFEST_FILE} w w1"
    using man_at_next_id [OF at fp(2)] room m tid by metis
  have same1: "same_tables v w w1"
    by (rule same_tables_changes [OF w1(3)]) simp
  have disk1: "disk_inv K (tid + 1) ?m1 v w1"
    by (rule disk_inv_next [OF disk same1 w1(2)])
  have ts: "list_all (sst_ok w1) ?ts" "\<And>t. t \<in> set ?ts \<Longrightarrow> layer_ok K (entries_map w1 t)"
    using live_layer [OF disk1] live v unfolding list_all_iff by blast+
  let ?es = "filter (keep_entry ?d) (merge_ref (map (sst_entries w1) ?ts))"
  note merged = merged_entries [OF ts(1), of ?d]
  obtain t w2 where w2:
      "sst_create fl (table_file_name tid) tid ?es (bloom_false_positive_rate (sh_options sh)) (opt_block_size (sh_options sh)) w1 = (Ok t, w2)"
      "sst_ok w2 t" "sst_entries w2 t = ?es" "sst_id t = tid" "table_at K w2 0 t" "changes ?T w1 w2"
    by (rule create_ok [OF cap merged(2) merged_layer [OF ts], of w1 tid]) (use w1(3) fp(1) in \<open>auto simp: changes_def\<close>)
  have ch: "changes {MANIFEST_FILE, table_file_name tid, tmp_path (table_file_name tid)} w w2"
    using changes_trans [OF w1(3) w2(6)] by (simp add: insert_commute)
  have same2: "same_tables v w w2"
    by (rule new_files_same_tables [OF disk]) (use ch tid in simp)
  have "sst_entries w2 u = sst_entries w1 u" if "u \<in> set ?ts" for u
    using same_tables_entries [OF disk same1] same_tables_entries [OF disk same2] that live unfolding v by (metis subsetD)
  then have "map (sst_entries w2) ?ts = map (sst_entries w1) ?ts" by simp
  then have es: "merged_for w2 v (sh_options sh) job = ?es"
    by (simp only: merged_for_def)
  show ?thesis
  proof (rule that)
    show "compact_output fl v job (sh, w) = (Ok (set_level (output_level job) t), sh\<lparr>sh_manifest := ?m1\<rparr>, w2)"
      using w1(1) w2(1) merged(1) m by (simp add: compact_output_def on_manifest_def on_world_def compact_def)
    show "man_at (tid + 1) ?m1 w2"
      by (rule man_at_cong [OF w1(2)]) (use w2(6) in \<open>simp add: changes_def\<close>)
    show "changes {MANIFEST_FILE, table_file_name tid, tmp_path (table_file_name tid)} w w2"
      by (rule ch)
    show "sst_id (set_level (output_level job) t) = tid"
      using w2(4) by (simp add: set_level_def)
  qed (use w2(2,3,5) es table_at_set_level in simp_all)
qed

section \<open>Recording it\<close>

lemma compact_record_ok:
  assumes at: "man_at n0 m w" and fp: "failpoint w \<noteq> Some ManifestWrite" and m: "m = sh_manifest sh"
    and ot: "sst_id ot < n0" "sst_id ot \<notin> fst ` set (man_tables m)" "sst_id ot \<notin> sst_id ` set (inputs job)"
    and m': "m' = m\<lparr>man_tables := filter (\<lambda>(i, _). i \<notin> sst_id ` set (inputs job)) (man_tables m) @
                [(sst_id ot, as_u32 (output_level job))]\<rparr>"
  obtains w' where "compact_record job ot (sh, w) = (Ok (), sh\<lparr>sh_manifest := m'\<rparr>, w')" and "man_at n0 m' w'"
    and "changes {MANIFEST_FILE} w w'"
proof -
  let ?lvl = "as_u32 (output_level job)" and ?ids = "map sst_id (inputs job)"
  let ?m1 = "m\<lparr>man_tables := man_tables m @ [(sst_id ot, ?lvl)]\<rparr>"
  obtain w1 where w1: "man_add_table (sst_id ot) ?lvl (m, w) = (Ok (), ?m1, w1)" "man_at n0 ?m1 w1" "changes {MANIFEST_FILE} w w1"
    by (rule man_at_add [OF at fp ot(1,2)])
  have fp1: "failpoint w1 \<noteq> Some ManifestWrite"
    using w1(3) fp by (simp add: changes_def)
  have m1: "?m1\<lparr>man_tables := filter (\<lambda>(i, _). i \<notin> set ?ids) (man_tables ?m1)\<rparr> = m'"
    using ot(3) by (simp add: m')
  obtain w2 where w2: "man_remove_tables ?ids (?m1, w1) = (Ok (), m', w2)" "man_at n0 m' w2" "changes {MANIFEST_FILE} w1 w2"
    using man_at_remove [OF w1(2) fp1, of ?ids] unfolding m1 by blast
  show ?thesis
  proof (rule that)
    show "compact_record job ot (sh, w) = (Ok (), sh\<lparr>sh_manifest := m'\<rparr>, w2)"
      using w1(1) w2(1) m by (simp add: compact_record_def on_manifest_def)
    show "changes {MANIFEST_FILE} w w2"
      using changes_trans [OF w1(3) w2(3)] by simp
  qed (rule w2(2))
qed

lemma as_u32_eq_0: "l < 2 ^ 32 \<Longrightarrow> as_u32 l = 0 \<longleftrightarrow> l = 0"
  using unat_as_u32 [of l] by force

lemma man_matches_compacted:
  assumes match: "man_matches m v" and ol: "output_level job < length (levels v)" "length (levels v) \<le> 2 ^ 32"
    and app: "apply_compaction job ot v = Ok v'" and len: "length (levels v') = length (levels v)"
    and zero: "\<And>t. output_level job = 0 \<Longrightarrow> t \<in> set (levels v ! 0) \<Longrightarrow> is_input job t"
    and m': "man_tables m' = filter (\<lambda>(i, _). i \<notin> sst_id ` set (inputs job)) (man_tables m) @
                [(sst_id ot, as_u32 (output_level job))]"
  shows "man_matches m' v'"
proof -
  let ?ids = "sst_id ` set (inputs job)" and ?N = "\<lambda>t. \<not> is_input job t"
  note nth = apply_compaction_nth [OF ol(1) app]
  have inp: "is_input job t \<longleftrightarrow> sst_id t \<in> ?ids" for t
    by (simp add: is_input_def)
  have old: "filter (\<lambda>(_, l). l = 0) (man_tables m) = map (\<lambda>t. (sst_id t, 0)) (rev (levels v ! 0))"
      "set (man_tables m) = (\<Union>l < length (levels v). (\<lambda>t. (sst_id t, as_u32 l)) ` set (levels v ! l))"
    using match by (simp_all add: man_matches_def)
  have "set (levels v' ! l) = {t \<in> set (levels v ! l). ?N t} \<union> (if l = output_level job then {ot} else {})"
    if "l < length (levels v)" for l
    using nth [OF that] by (auto simp: Let_def)
  then have "(\<Union>l < length (levels v'). (\<lambda>t. (sst_id t, as_u32 l)) ` set (levels v' ! l)) =
      (\<Union>l < length (levels v). (\<lambda>t. (sst_id t, as_u32 l)) ` {t \<in> set (levels v ! l). ?N t}) \<union>
      {(sst_id ot, as_u32 (output_level job))}"
    using ol(1) len by (auto split: if_splits)
  also have "(\<Union>l < length (levels v). (\<lambda>t. (sst_id t, as_u32 l)) ` {t \<in> set (levels v ! l). ?N t}) =
      {p \<in> set (man_tables m). fst p \<notin> ?ids}"
    unfolding old(2) inp by auto
  finally have set: "set (man_tables m') = (\<Union>l < length (levels v'). (\<lambda>t. (sst_id t, as_u32 l)) ` set (levels v' ! l))"
    unfolding m' by auto
  have "filter (\<lambda>(_, l). l = 0) (filter (\<lambda>(i, _). i \<notin> ?ids) (man_tables m)) =
      filter (\<lambda>(i, _). i \<notin> ?ids) (filter (\<lambda>(_, l). l = 0) (man_tables m))"
    by (auto simp: filter_filter intro: filter_cong)
  also have "\<dots> = map (\<lambda>t. (sst_id t, 0)) (rev (filter ?N (levels v ! 0)))"
    unfolding old(1) by (simp add: filter_map comp_def inp rev_filter)
  finally have rest: "filter (\<lambda>(_, l). l = 0) (filter (\<lambda>(i, _). i \<notin> ?ids) (man_tables m)) =
      map (\<lambda>t. (sst_id t, 0)) (rev (filter ?N (levels v ! 0)))" .
  have pos: "0 < length (levels v)" using ol(1) by linarith
  have "filter (\<lambda>(_, l). l = 0) (man_tables m') = map (\<lambda>t. (sst_id t, 0)) (rev (levels v' ! 0))"
  proof (cases "output_level job = 0")
    case True
    then have "filter ?N (levels v ! 0) = []"
      using zero by (simp add: filter_empty_conv)
    then show ?thesis
      using True nth [OF pos] rest by (simp add: m' Let_def)
  next
    case False
    then have "as_u32 (output_level job) \<noteq> 0"
      using as_u32_eq_0 ol by simp
    then show ?thesis
      using False nth [OF pos] rest by (simp add: m' Let_def)
  qed
  with set show ?thesis
    by (simp add: man_matches_def)
qed

section \<open>Installing it\<close>

text \<open>An input's handle in the snapshot is alive, so its count is never one and its file is never removed.\<close>

lemma strong_count_snapshot:
  assumes "t \<in> set (concat (levels v))"
  shows "strong_count (v # vs) t \<noteq> 1"
proof -
  have "sst_id t \<in> set (map sst_id (concat (levels v)))"
    using assms by simp
  then have "count_list (map sst_id (concat (levels v))) (sst_id t) \<noteq> 0"
    by (simp only: count_list_0_iff not_not)
  then show ?thesis
    by (simp add: strong_count_def)
qed

lemma remove_files_snapshot: "set ts \<subseteq> set (concat (levels v)) \<Longrightarrow> remove_files (v # vs) ts w = w"
proof (induction ts)
  case (Cons t ts)
  then show ?case
    using strong_count_snapshot [of t v vs] by simp
qed simp

lemma levels_at_compacted:
  assumes lv: "levels_at K w v" and ot: "table_at K w (output_level job) ot" and ol: "output_level job < length (levels v)"
    and app: "apply_compaction job ot v = Ok v'" and len: "length (levels v') = length (levels v)"
  shows "levels_at K w v'"
  unfolding levels_at_def
proof (intro allI impI ballI)
  fix l t
  assume l: "l < length (levels v')" and t: "t \<in> set (levels v' ! l)"
  then have "t \<in> set (levels v ! l) \<or> (t = ot \<and> l = output_level job)"
    using apply_compaction_nth [OF ol app, of l] len by (auto simp: Let_def split: if_splits)
  then show "table_at K w l t"
    using lv ot l len by (auto simp: levels_at_def)
qed

text \<open>One pass of compaction: the invariant holds again and no lookup in the tables changes.\<close>

definition table_step :: "bytes set \<Rightarrow> shared_state \<Rightarrow> world \<Rightarrow> shared_state \<Rightarrow> world \<Rightarrow> bool" where
  "table_step K sh w sh' w' \<longleftrightarrow>
     (\<exists>n1. shared_inv K n1 sh' w') \<and> sh_options sh' = sh_options sh \<and> last_error sh' = last_error sh \<and>
     files w' WAL_FILE_NAME = files w WAL_FILE_NAME \<and>
     unat (next_table_id (sh_manifest sh')) \<le> unat (next_table_id (sh_manifest sh)) + 1 \<and>
     (\<forall>k. visible (tlook w' (concat (levels (sh_version sh'))) k) = visible (tlook w (concat (levels (sh_version sh))) k))"

text \<open>What a pass that found the job \<open>job\<close> leaves: its output, with the next id, is written and nothing else is.\<close>

definition compacted_by ::
  "bytes set \<Rightarrow> compaction_job \<Rightarrow> sstable \<Rightarrow> shared_state \<Rightarrow> world \<Rightarrow> shared_state \<Rightarrow> world \<Rightarrow> bool" where
  "compacted_by K job ot sh w sh' w' \<longleftrightarrow>
     sst_id ot = next_table_id (sh_manifest sh) \<and> job_output w' (sh_version sh) (sh_options sh) job ot \<and>
     shared_inv K (next_table_id (sh_manifest sh) + 1) sh' w' \<and> sh_cache sh' = sh_cache sh \<and>
     changes {MANIFEST_FILE, table_file_name (sst_id ot), tmp_path (table_file_name (sst_id ot))} w w'"

lemma compact_once_ok:
  assumes inv: "shared_inv K n0 sh w" and cap: "capacity fl (sh_options sh) K"
    and fp: "failpoint w \<notin> table_faults" "failpoint w \<noteq> Some ManifestWrite" and room: "id_room sh"
  obtains sh' w' where "compact_once fl (sh, w) = (Ok (), sh', w')" and "table_step K sh w sh' w'" and "failpoint w' = failpoint w"
    and "same_tables (sh_version sh) w w'"
    and "\<And>job. pick_compaction (sh_version sh) (sh_options sh) = Some job \<Longrightarrow>
      \<exists>ot. apply_compaction job ot (sh_version sh) = Ok (sh_version sh') \<and> sst_id ot \<notin> sst_id ` set (inputs job) \<and>
        compacted_by K job ot sh w sh' w'"
proof (cases "pick_compaction (sh_version sh) (sh_options sh)")
  case None
  then show ?thesis
    using inv by (intro that [of sh w]) (auto simp: compact_once_def table_step_def same_tables_def)
next
  case (Some job)
  let ?m = "sh_manifest sh" and ?v = "sh_version sh" and ?opts = "sh_options sh"
  let ?tid = "next_table_id ?m"
  let ?m1 = "?m\<lparr>next_table_id := ?tid + 1\<rparr>"
  have disk: "disk_inv K n0 ?m ?v w" and len: "length (levels ?v) = max_levels ?opts"
    using inv by (simp_all add: shared_inv_def)
  have vok: "version_ok w ?v" using disk by (simp add: disk_inv_def)
  have live: "set (inputs job) \<subseteq> set (concat (levels ?v))"
    by (rule pick_inputs_subset [OF vok len Some])
  note ol = pick_output_level [OF Some len]
  obtain ot w1 where out: "compact_output fl ?v job (sh, w) = (Ok ot, sh\<lparr>sh_manifest := ?m1\<rparr>, w1)"
      and ot: "sst_ok w1 ot" "sst_entries w1 ot = merged_for w1 ?v ?opts job" "sst_id ot = ?tid" "table_at K w1 (output_level job) ot"
      and man1: "man_at (?tid + 1) ?m1 w1"
      and ch1: "changes {MANIFEST_FILE, table_file_name ?tid, tmp_path (table_file_name ?tid)} w w1"
    by (rule compact_output_ok [OF inv cap live fp room refl refl refl])
  define m' where "m' = ?m1\<lparr>man_tables := filter (\<lambda>(i, _). i \<notin> sst_id ` set (inputs job)) (man_tables ?m1) @
      [(sst_id ot, as_u32 (output_level job))]\<rparr>"
  have fresh: "sst_id ot \<notin> sst_id ` set (concat (levels ?v))"
    using new_id_unused(2) [OF disk] ot(3) by force
  have ids: "sst_id ot < ?tid + 1" "sst_id ot \<notin> fst ` set (man_tables ?m1)" "sst_id ot \<notin> sst_id ` set (inputs job)"
    using ot(3) room disk fresh live by (auto simp: disk_inv_def man_at_def)
  have fp1: "failpoint w1 \<noteq> Some ManifestWrite"
    using ch1 fp(2) by (simp add: changes_def)
  obtain w2 where rec: "compact_record job ot (sh\<lparr>sh_manifest := ?m1\<rparr>, w1) = (Ok (), sh\<lparr>sh_manifest := m'\<rparr>, w2)"
      and man2: "man_at (?tid + 1) m' w2" and ch2: "changes {MANIFEST_FILE} w1 w2"
    by (rule compact_record_ok [OF man1 fp1 _ ids, of "sh\<lparr>sh_manifest := ?m1\<rparr>" m']) (simp_all add: m'_def)
  have ch: "changes {MANIFEST_FILE, table_file_name ?tid, tmp_path (table_file_name ?tid)} w w2"
    using changes_trans [OF ch1 ch2] by (simp add: insert_commute)
  have same: "same_tables ?v w w2"
    by (rule new_files_same_tables [OF disk ch])
  have f2: "files w2 (table_file_name (sst_id ot)) = files w1 (table_file_name (sst_id ot))"
    using ch2 by (simp add: changes_def)
  note ot2 = table_at_cong [OF ot(4,1) f2]
  have "sst_entries w2 t = sst_entries w1 t" if "t \<in> set (inputs job)" for t
    using same_tables_entries [OF disk same, of t] same_tables_entries [OF disk new_files_same_tables [OF disk ch1], of t]
      that live by (metis subsetD)
  then have "map (sst_entries w2) (inputs job) = map (sst_entries w1) (inputs job)" by simp
  then have jo: "job_output w2 ?v ?opts job ot"
    unfolding job_output_def using ot2(1,2) ot(2) fresh by (simp only: merged_for_def) simp
  have old2: "version_ok w2 ?v" "levels_at K w2 ?v"
    using same_tables_ok [OF _ _ same, of K] disk by (simp_all add: disk_inv_def)
  obtain v' where app: "apply_compaction job ot ?v = Ok v'" and v': "version_ok w2 v'" "length (levels v') = length (levels ?v)"
      and look: "\<And>k. visible (tlook w2 (concat (levels v')) k) = visible (tlook w2 (concat (levels ?v)) k)"
      and sub: "set (concat (levels v')) \<subseteq> insert ot (set (concat (levels ?v)))"
    using compaction_sound [OF old2(1) len Some jo] by metis
  let ?sh = "sh\<lparr>sh_manifest := m', sh_version := v'\<rparr>"
  have "man_matches m' v'"
    by (rule man_matches_compacted [OF _ ol(1) _ app v'(2) ol(2)]) (use disk in \<open>simp_all add: disk_inv_def m'_def\<close>)
  then have "disk_inv K (?tid + 1) m' v' w2"
    using disk v' man2 levels_at_compacted [OF old2(2) ot2(3) ol(1) app v'(2)] by (auto simp: disk_inv_def)
  then have sinv: "shared_inv K (?tid + 1) ?sh w2"
    by (intro shared_inv_step [OF inv same, where t = ot]) (use v'(2) sub ot(3) room in \<open>simp_all add: m'_def\<close>)
  moreover have "tlook w2 (concat (levels ?v)) k = tlook w (concat (levels ?v)) k" for k
    by (rule same_tables_tlook [OF _ _ same, where K = K]) (use disk in \<open>simp_all add: disk_inv_def\<close>)
  moreover have "files w2 WAL_FILE_NAME = files w WAL_FILE_NAME"
    using ch by (simp add: changes_def)
  ultimately have "table_step K sh w ?sh w2"
    using look room by (auto simp: table_step_def m'_def next_plus_one)
  moreover have "compact_once fl (sh, w) = (Ok (), ?sh, w2)"
    using Some out rec app remove_files_snapshot [OF live]
    by (simp add: compact_once_def compact_install_def Let_def)
  moreover have "compacted_by K job ot sh w ?sh w2"
    using jo sinv ot(3) ch by (simp add: compacted_by_def)
  ultimately show ?thesis
    using that [of ?sh w2] ch same Some app ids(3) by (auto simp: changes_def)
qed

section \<open>When it fails\<close>

text \<open>A step that only moves the next id on, and perhaps leaves an unused file behind.\<close>

lemma table_step_idle:
  assumes inv: "shared_inv K n0 sh w" and room: "id_room sh" and same: "same_tables (sh_version sh) w w'"
    and man: "man_at n1 ((sh_manifest sh)\<lparr>next_table_id := next_table_id (sh_manifest sh) + 1\<rparr>) w'"
    and wal: "files w' WAL_FILE_NAME = files w WAL_FILE_NAME"
    and sh': "sh' = sh\<lparr>sh_manifest := (sh_manifest sh)\<lparr>next_table_id := next_table_id (sh_manifest sh) + 1\<rparr>\<rparr>"
  shows "table_step K sh w sh' w'"
proof -
  have disk: "disk_inv K n0 (sh_manifest sh) (sh_version sh) w"
    using inv by (simp add: shared_inv_def)
  obtain t where t: "sst_id (t :: sstable) = next_table_id (sh_manifest sh)"
    by (metis sstable.select_convs(1))
  have "shared_inv K n1 sh' w'"
    by (rule shared_inv_step [OF inv same, where t = t])
      (use disk_inv_next [OF disk same man] room t in \<open>simp_all add: sh', auto\<close>)
  moreover have "tlook w' (concat (levels (sh_version sh))) k = tlook w (concat (levels (sh_version sh))) k" for k
    by (rule same_tables_tlook [OF _ _ same, where K = K]) (use disk in \<open>simp_all add: disk_inv_def\<close>)
  ultimately show ?thesis
    using wal room by (auto simp: table_step_def sh' next_plus_one)
qed

lemma compact_once_step:
  assumes inv: "shared_inv K n0 sh w" and cap: "capacity fl (sh_options sh) K" and room: "id_room sh"
  obtains r sh' w' where "compact_once fl (sh, w) = (r, sh', w')" and "r \<noteq> Panic" and "table_step K sh w sh' w'"
    and "failpoint w' = failpoint w \<or> failpoint w' = None"
    and "failpoint w \<notin> insert (Some ManifestWrite) table_faults \<Longrightarrow> r = Ok ()"
proof (cases "pick_compaction (sh_version sh) (sh_options sh)")
  case None
  then show ?thesis
    using inv by (intro that [of "Ok ()" sh w]) (auto simp: compact_once_def table_step_def)
next
  case (Some job)
  let ?m = "sh_manifest sh" and ?v = "sh_version sh" and ?opts = "sh_options sh"
  let ?tid = "next_table_id ?m"
  let ?m1 = "?m\<lparr>next_table_id := ?tid + 1\<rparr>"
  have disk: "disk_inv K n0 ?m ?v w" and len: "length (levels ?v) = max_levels ?opts" and at: "man_at n0 ?m w"
    using inv by (simp_all add: shared_inv_defs)
  consider (man) "failpoint w = Some ManifestWrite" | (table) "failpoint w \<in> table_faults"
    | (clear) "failpoint w \<notin> table_faults" "failpoint w \<noteq> Some ManifestWrite"
    by blast
  then show ?thesis
  proof cases
    case man
    obtain err where err: "man_next_table_id (?m, w) = (Err err, ?m1, w\<lparr>failpoint := None\<rparr>)"
      using man_at_next_id_fails(1) [OF at man room] by blast
    have "table_step K sh w (sh\<lparr>sh_manifest := ?m1\<rparr>) (w\<lparr>failpoint := None\<rparr>)"
      by (rule table_step_idle [OF inv room _ man_at_next_id_fails(2) [OF at man room]]) (simp_all add: same_tables_def)
    then show ?thesis
      using Some err man
      by (intro that [of "Err err" "sh\<lparr>sh_manifest := ?m1\<rparr>" "w\<lparr>failpoint := None\<rparr>"])
        (simp_all add: compact_once_def compact_output_def on_manifest_def Let_def)
  next
    case table
    then have fp: "failpoint w \<noteq> Some ManifestWrite" by (auto simp: table_faults_def)
    obtain w1 where w1: "man_next_table_id (?m, w) = (Ok ?tid, ?m1, w1)" "man_at (?tid + 1) ?m1 w1" "changes {MANIFEST_FILE} w w1"
      using man_at_next_id [OF at fp] room by metis
    have same1: "same_tables ?v w w1"
      by (rule same_tables_changes [OF w1(3)]) simp
    have disk1: "disk_inv K (?tid + 1) ?m1 ?v w1"
      by (rule disk_inv_next [OF disk same1 w1(2)])
    have vok: "version_ok w ?v" using disk by (simp add: disk_inv_def)
    have ts: "list_all (sst_ok w1) (inputs job)" "\<And>t. t \<in> set (inputs job) \<Longrightarrow> layer_ok K (entries_map w1 t)"
      using live_layer [OF disk1] pick_inputs_subset [OF vok len Some] unfolding list_all_iff by blast+
    let ?d = "may_drop_tombstones ?v ?opts job"
    note merged = merged_entries [OF ts(1), of ?d]
    obtain err w2 where w2: "sst_create fl (table_file_name ?tid) ?tid (filter (keep_entry ?d) (merge_ref (map (sst_entries w1) (inputs job))))
          (bloom_false_positive_rate ?opts) (opt_block_size ?opts) w1 = (Err err, w2)"
        "failpoint w2 = None" "\<And>f. f \<noteq> tmp_path (table_file_name ?tid) \<Longrightarrow> files w2 f = files w1 f"
      by (rule create_fails [OF cap merged(2) merged_layer [OF ts], of w1 ?tid]) (use w1(3) table in \<open>auto simp: changes_def\<close>)
    have "table_step K sh w (sh\<lparr>sh_manifest := ?m1\<rparr>) w2"
      by (rule table_step_idle [OF inv room _ man_at_cong [OF w1(2)]])
        (use w1(3) w2(3) in \<open>simp_all add: same_tables_def changes_def\<close>)
    then show ?thesis
      using Some w1(1) merged(1) w2(1,2) table
      by (intro that [of "Err err" "sh\<lparr>sh_manifest := ?m1\<rparr>" w2])
        (simp_all add: compact_once_def compact_output_def on_manifest_def on_world_def compact_def Let_def)
  next
    case clear
    then show ?thesis
      using that compact_once_ok [OF inv cap clear room] by (metis result.distinct(3))
  qed
qed

section \<open>Compaction by the engine and by its worker\<close>

lemma shared_inv_last_error [simp]: "shared_inv K n0 (sh\<lparr>last_error := x\<rparr>) w = shared_inv K n0 sh w"
proof -
  have "shared_store (sh\<lparr>last_error := x\<rparr>) w = shared_store sh w"
    by (simp add: shared_store_def fun_eq_iff)
  then show ?thesis
    by (simp add: shared_inv_def)
qed

lemma engine_table_step:
  assumes inv: "engine_inv K n0 e w" and step: "table_step K (eng_shared e) w sh' w'"
    and np: "worker_ok c" and e': "e' = e\<lparr>eng_worker := c, eng_shared := sh'\<lparr>last_error := x\<rparr>\<rparr>"
  shows "engine_ok K e' w'" and "engine_map e' w' = engine_map e w"
    and "eng_options e' = eng_options e" "eng_immutable e' = eng_immutable e" and "next_no e' \<le> next_no e + 1"
proof -
  obtain n1 where sinv: "shared_inv K n1 sh' w'" and opts: "sh_options sh' = sh_options (eng_shared e)"
    and wal: "files w' WAL_FILE_NAME = files w WAL_FILE_NAME"
    and look: "\<And>k. visible (tlook w' (concat (levels (sh_version sh'))) k) = visible (tlook w (engine_tables e) k)"
    using step by (auto simp: table_step_def)
  have buf: "buffer_look e' = buffer_look e" by (simp add: e')
  have path: "wal_path (eng_wal e) = WAL_FILE_NAME"
    using inv by (simp add: engine_inv_def log_inv_def)
  then have "log_inv K e' w'"
    using inv wal wal_holds_other [of "eng_wal e" _ w w'] unfolding engine_inv_def log_inv_def buf
    by (auto simp: e' wal_synced_def file_of_def)
  then show "engine_ok K e' w'"
    using inv sinv opts np by (auto simp: engine_ok_def engine_inv_def buf) (auto simp: e')
  show "engine_map e' w' = engine_map e w"
    by (rule engine_map_cong [OF buf]) (use look in \<open>simp add: e'\<close>)
  show "eng_options e' = eng_options e" "eng_immutable e' = eng_immutable e" "next_no e' \<le> next_no e + 1"
    using step by (simp_all add: e' next_no_def table_step_def)
qed

text \<open>What a pass does as seen from the engine, whether it succeeds or fails.\<close>

lemma engine_pass:
  assumes inv: "engine_inv K n0 e w" and cap: "capacity fl (eng_options e) K" and room: "id_room (eng_shared e)"
  obtains r sh' w' where "compact_once fl (eng_shared e, w) = (r, sh', w')" and "r \<noteq> Panic"
    and "failpoint w' = failpoint w \<or> failpoint w' = None" and "last_error sh' = last_error (eng_shared e)"
    and "failpoint w = None \<longrightarrow> r = Ok ()" and "table_step K (eng_shared e) w sh' w'"
proof -
  have sinv: "shared_inv K n0 (eng_shared e) w" and opts: "eng_options e = sh_options (eng_shared e)"
    using inv by (simp_all add: engine_inv_def)
  show ?thesis
  proof (rule compact_once_step [OF sinv _ room])
    show "capacity fl (sh_options (eng_shared e)) K"
      using cap opts by simp
  qed (rule that, auto simp: table_step_def table_faults_def)
qed

lemma engine_compact_ok:
  assumes ok: "engine_ok K e w" and cap: "capacity fl (eng_options e) K" and fp: "failpoint w = None"
    and room: "id_room (eng_shared e)"
  obtains e' w' where "engine_compact fl (e, w) = (Ok (), e', w')" and "good_step K 1 e w e' w'"
    and "engine_map e' w' = engine_map e w"
proof -
  obtain n0 where inv: "engine_inv K n0 e w" and np: "worker_ok (eng_worker e)"
    using ok by (auto simp: engine_ok_def)
  obtain r sh' w' where r: "compact_once fl (eng_shared e, w) = (r, sh', w')" "r \<noteq> Panic" "failpoint w' = failpoint w \<or> failpoint w' = None"
      "last_error sh' = last_error (eng_shared e)" "failpoint w = None \<longrightarrow> r = Ok ()" and step: "table_step K (eng_shared e) w sh' w'"
    by (rule engine_pass [OF inv cap room])
  define e' where "e' = e\<lparr>eng_worker := eng_worker e, eng_shared := sh'\<lparr>last_error := last_error sh'\<rparr>\<rparr>"
  note after = engine_table_step [OF inv step np e'_def]
  have "engine_compact fl (e, w) = (Ok (), e', w')"
    using r fp by (simp add: engine_compact_def on_shared_def e'_def)
  moreover have "id_use e' \<le> id_use e + 1"
    using after(5) by (simp add: id_use_def e'_def)
  ultimately show ?thesis
    using that after r(3) fp by (simp add: good_step_def)
qed

lemma off_thread_clear:
  assumes "f (sh, w) = (r, sh', w')" and "failpoint w = None" and "failpoint w' = None"
  shows "off_thread f (sh, w) = (r, sh', w')"
proof -
  have "w\<lparr>failpoint := None\<rparr> = w" "w'\<lparr>failpoint := failpoint w\<rparr> = w'"
    using assms(2,3) by (simp_all add: world.equality)
  then show ?thesis
    using assms(1) by (simp add: off_thread_def)
qed

text \<open>One round of the background thread.\<close>

lemma engine_background_ok:
  assumes ok: "engine_ok K e w" and cap: "capacity fl (eng_options e) K" and fp: "failpoint w = None"
    and room: "id_room (eng_shared e)" and bg: "engine_background fl (e, w) = (e', w')"
  shows "good_step K 0 e w e' w'" and "engine_map e' w' = engine_map e w"
proof -
  obtain n0 where inv: "engine_inv K n0 e w" and np: "worker_ok (eng_worker e)"
    using ok by (auto simp: engine_ok_def)
  have "good_step K 0 e w e' w' \<and> engine_map e' w' = engine_map e w"
  proof (cases "alive (eng_worker e) \<and> pending (eng_worker e) \<noteq> []")
    case False
    then have "e' = e" "w' = w"
      using bg by (auto simp: engine_background_def worker_step_def split: list.splits if_splits)
    then show ?thesis using ok by (simp add: good_step_def)
  next
    case True
    then obtain msg msgs where p: "alive (eng_worker e)" "pending (eng_worker e) = msg # msgs"
      by (cases "pending (eng_worker e)") auto
    show ?thesis
    proof (cases msg)
      case Shutdown
      then have e': "e' = e\<lparr>eng_worker := (eng_worker e)\<lparr>pending := [], alive := False\<rparr>\<rparr>" and "w' = w"
        using bg p by (auto simp: engine_background_def worker_step_def)
      have "engine_ok K e' w \<and> engine_map e' w = engine_map e w"
        using ok unfolding e' engine_ok_def engine_inv_def log_inv_def by (auto simp: worker_ok_def intro: engine_map_cong)
      then show ?thesis
        using p \<open>w' = w\<close> by (simp add: good_step_def e' id_use_def next_no_def)
    next
      case Compact
      obtain r sh' w1 where r: "compact_once fl (eng_shared e, w) = (r, sh', w1)" "r \<noteq> Panic" "failpoint w1 = failpoint w \<or> failpoint w1 = None"
          "last_error sh' = last_error (eng_shared e)" "failpoint w = None \<longrightarrow> r = Ok ()" and step: "table_step K (eng_shared e) w sh' w1"
        by (rule engine_pass [OF inv cap room])
      have e': "e' = e\<lparr>eng_worker := (eng_worker e)\<lparr>pending := msgs\<rparr>, eng_shared := sh'\<lparr>last_error := last_error (eng_shared e)\<rparr>\<rparr>"
        and w': "w' = w1"
        using bg p r(5) fp off_thread_clear [where f = "compact_once fl", OF r(1) fp] r(3) Compact by (simp_all add: engine_background_def worker_step_def)
      have np': "worker_ok ((eng_worker e)\<lparr>pending := msgs\<rparr>)"
        using np by (simp add: worker_ok_def)
      note after = engine_table_step [OF inv step np' e']
      have "id_use e' \<le> id_use e"
        using after(5) p np' by (simp add: id_use_def e')
      then show ?thesis
        using after r(3) fp w' np' by (simp add: good_step_def)
    qed
  qed
  then show "good_step K 0 e w e' w'" "engine_map e' w' = engine_map e w" by simp_all
qed

section \<open>Shutting down\<close>

text \<open>Working off the pending requests.\<close>

lemma worker_loop_passes:
  assumes "engine_ok K e w" and "capacity fl (eng_options e) K" and "failpoint w = None"
    and "next_no e + length (filter ((=) Compact) msgs) < 2 ^ 64" and "alive c" and "pending c = msgs @ [Shutdown]"
  shows "\<exists>sh' w'. worker_loop (off_thread (compact_once fl)) (c, (eng_shared e, w), le) =
      (c\<lparr>pending := [], alive := False\<rparr>, (sh', w'), le) \<and>
    engine_ok K (e\<lparr>eng_shared := sh'\<rparr>) w' \<and> engine_map (e\<lparr>eng_shared := sh'\<rparr>) w' = engine_map e w \<and>
    next_no (e\<lparr>eng_shared := sh'\<rparr>) \<le> next_no e + length (filter ((=) Compact) msgs) \<and> failpoint w' = None"
  using assms
proof (induction msgs arbitrary: e w c)
  case Nil
  then show ?case
    using worker_loop_step [of c "off_thread (compact_once fl)" "((eng_shared e, w), le)"] by (auto simp: worker_step_def)
next
  case (Cons msg msgs)
  note round = worker_loop_step [of c "off_thread (compact_once fl)" "((eng_shared e, w), le)"]
  show ?case
  proof (cases msg)
    case Shutdown
    then show ?thesis using Cons.prems round by (auto simp: worker_step_def)
  next
    case Compact
    obtain n0 where inv: "engine_inv K n0 e w" and np: "worker_ok (eng_worker e)"
      using Cons.prems(1) by (auto simp: engine_ok_def)
    have room: "id_room (eng_shared e)"
      using Cons.prems(4) Compact by (simp add: id_room_iff next_no_def)
    obtain r sh1 w1 where r: "compact_once fl (eng_shared e, w) = (r, sh1, w1)" "r \<noteq> Panic" "failpoint w1 = failpoint w \<or> failpoint w1 = None"
        "last_error sh1 = last_error (eng_shared e)" "failpoint w = None \<longrightarrow> r = Ok ()"
        and step: "table_step K (eng_shared e) w sh1 w1"
      by (rule engine_pass [OF inv Cons.prems(2) room])
    define e1 where "e1 = e\<lparr>eng_worker := eng_worker e, eng_shared := sh1\<lparr>last_error := last_error sh1\<rparr>\<rparr>"
    note after = engine_table_step [OF inv step np e1_def]
    have e1: "eng_shared e1 = sh1" "e1\<lparr>eng_shared := x\<rparr> = e\<lparr>eng_shared := x\<rparr>" for x
      by (simp_all add: e1_def)
    have fp1: "failpoint w1 = None" using r(3) Cons.prems(3) by simp
    let ?c = "c\<lparr>pending := msgs @ [Shutdown]\<rparr>"
    obtain sh' w' where IH: "worker_loop (off_thread (compact_once fl)) (?c, (sh1, w1), le) = (?c\<lparr>pending := [], alive := False\<rparr>, (sh', w'), le)"
        "engine_ok K (e\<lparr>eng_shared := sh'\<rparr>) w'" "engine_map (e\<lparr>eng_shared := sh'\<rparr>) w' = engine_map e1 w1"
        "next_no (e\<lparr>eng_shared := sh'\<rparr>) \<le> next_no e1 + length (filter ((=) Compact) msgs)" "failpoint w' = None"
      using Cons.IH [OF after(1) _ fp1, of ?c] Cons.prems(2,4,5) after(3,5) Compact unfolding e1 by auto
    have "worker_step (off_thread (compact_once fl)) (c, (eng_shared e, w), le) = (?c, (sh1, w1), le)"
      using r(5) off_thread_clear [where f = "compact_once fl", OF r(1) Cons.prems(3) fp1] Cons.prems(3,5,6) Compact
      by (simp add: worker_step_def)
    then have "worker_loop (off_thread (compact_once fl)) (c, (eng_shared e, w), le) = (c\<lparr>pending := [], alive := False\<rparr>, (sh', w'), le)"
      using round Cons.prems(5,6) IH(1) by simp
    then show ?thesis
      using IH(2-5) after(2,5) Compact by (intro exI [of _ sh'] exI [of _ w']) simp
  qed
qed

lemma engine_ok_worker: "engine_ok K (e\<lparr>eng_worker := c\<rparr>) w \<longleftrightarrow> (\<exists>n0. engine_inv K n0 e w) \<and> worker_ok c"
  by (simp add: engine_ok_def engine_inv_def log_inv_def)

lemma engine_map_worker: "engine_map (e\<lparr>eng_worker := c\<rparr>) w = engine_map e w"
  by (rule engine_map_cong) simp_all

lemma engine_last_error [simp]:
  "engine_inv K n0 (e\<lparr>eng_shared := sh\<lparr>last_error := x\<rparr>\<rparr>) w = engine_inv K n0 (e\<lparr>eng_shared := sh\<rparr>) w"
  "engine_map (e\<lparr>eng_shared := sh\<lparr>last_error := x\<rparr>\<rparr>) w = engine_map (e\<lparr>eng_shared := sh\<rparr>) w"
  by (simp add: engine_inv_def log_inv_def) (rule engine_map_cong, simp_all)

lemma engine_shutdown_ok:
  assumes ok: "engine_ok K e w" and cap: "capacity fl (eng_options e) K" and fp: "failpoint w = None"
    and room: "id_use e < 2 ^ 64 - 1"
  obtains e' w' where "engine_shutdown fl (e, w) = (Ok (), e', w')" and "good_step K 0 e w e' w'"
    and "engine_map e' w' = engine_map e w" and "handle_taken (eng_worker e')"
proof -
  let ?c = "eng_worker e" and ?sh = "eng_shared e"
  obtain n0 where inv: "engine_inv K n0 e w" and np: "worker_ok ?c"
    using ok by (auto simp: engine_ok_def)
  show ?thesis
  proof (cases "alive ?c \<and> \<not> handle_taken ?c")
    case True
    let ?c1 = "?c\<lparr>pending := pending ?c @ [Shutdown], handle_taken := True\<rparr>"
    have "next_no e + length (filter ((=) Compact) (pending ?c)) \<le> id_use e"
      by (simp add: id_use_def)
    then obtain sh' w' where loop: "worker_loop (off_thread (compact_once fl)) (?c1, (?sh, w), last_error ?sh) =
          (?c1\<lparr>pending := [], alive := False\<rparr>, (sh', w'), last_error ?sh)"
        and e1: "engine_ok K (e\<lparr>eng_shared := sh'\<rparr>) w'" "engine_map (e\<lparr>eng_shared := sh'\<rparr>) w' = engine_map e w"
          "next_no (e\<lparr>eng_shared := sh'\<rparr>) \<le> id_use e" "failpoint w' = None"
      using worker_loop_passes [OF ok cap fp, of "pending ?c" ?c1 "last_error ?sh"] room True by force
    define c where "c = ?c1\<lparr>pending := [], alive := False\<rparr>"
    define e' where "e' = e\<lparr>eng_worker := c, eng_shared := sh'\<lparr>last_error := last_error ?sh\<rparr>\<rparr>"
    have "engine_shutdown fl (e, w) = (Ok (), e', w')"
      using True loop np by (simp add: engine_shutdown_def worker_shutdown_def Let_def e'_def c_def worker_ok_def)
    moreover have e'_alt: "e' = e\<lparr>eng_shared := sh'\<lparr>last_error := last_error ?sh\<rparr>\<rparr>\<lparr>eng_worker := c\<rparr>"
      by (simp add: e'_def)
    have "engine_ok K e' w'" "engine_map e' w' = engine_map e w"
      using e1(1,2) np unfolding e'_alt engine_ok_worker engine_map_worker engine_last_error
      by (simp_all add: c_def worker_ok_def engine_ok_def)
    moreover have "id_use e' \<le> id_use e"
      using e1(3) by (simp add: id_use_def next_no_def e'_def c_def)
    ultimately show ?thesis
      using that [of e' w'] e1(4) fp by (simp add: good_step_def e'_def c_def)
  next
    case False
    then have dead: "\<not> alive ?c" and fine: "\<not> panicked ?c"
      using np by (auto simp: worker_ok_def)
    define c where "c = (if handle_taken ?c then ?c else ?c\<lparr>handle_taken := True\<rparr>)"
    have "engine_shutdown fl (e, w) = (Ok (), e\<lparr>eng_worker := c\<rparr>, w)"
      using dead fine by (simp add: engine_shutdown_def worker_shutdown_def Let_def c_def)
    moreover have "worker_ok c"
      using dead fine by (simp add: c_def worker_ok_def)
    moreover have "length (pending c) \<le> length (pending ?c)" "handle_taken c"
      by (simp_all add: c_def)
    ultimately show ?thesis
      using inv by (intro that [of "e\<lparr>eng_worker := c\<rparr>" w])
        (auto simp: good_step_def engine_ok_worker engine_map_worker id_use_def next_no_def)
  qed
qed

lemma engine_close_ok:
  assumes ok: "engine_ok K e w" and cap: "capacity fl (eng_options e) K" and fp: "failpoint w = None"
    and room: "id_use e < 2 ^ 64 - 1"
  obtains e' w' where "engine_close fl (e, w) = (Ok (), e', w')" and "good_step K 0 e w e' w'"
    and "engine_map e' w' = engine_map e w"
proof -
  obtain e1 w1 where sd: "engine_shutdown fl (e, w) = (Ok (), e1, w1)" and good: "good_step K 0 e w e1 w1"
      and map1: "engine_map e1 w1 = engine_map e w"
    by (rule engine_shutdown_ok [OF ok cap fp room])
  then obtain n0 where inv: "engine_inv K n0 e1 w1" and wk: "worker_ok (eng_worker e1)"
    by (auto simp: good_step_def engine_ok_def)
  have fp1: "failpoint w1 = None" using good fp by (simp add: good_step_def)
  have sync: "wal_sync (eng_wal e1) w1 = (Ok (), file_sync WAL_FILE_NAME w1)"
    using inv fp1 by (simp add: wal_sync_def should_fail_def engine_inv_def log_inv_def)
  note after = sync_step [OF inv]
  show ?thesis
    by (rule that [of e1 "file_sync WAL_FILE_NAME w1"])
      (use sd sync good after map1 wk in \<open>auto simp: engine_close_def on_world_def good_step_def engine_ok_def\<close>)
qed

end
