(* ===== verification/Recovery.thy ===== *)
theory Recovery
  imports Engine_Compact
begin

text \<open>
  Opening a database: a fresh one, and one that another process left behind, by closing it or by crashing at any point. The tables
  the manifest lists are loaded into the levels the previous process had, up to the order of disjoint tables, and
  replaying the log rebuilds the memtable.
\<close>

section \<open>Loading the tables\<close>

lemma load_tables_ok:
  assumes "\<And>tid lv. (tid, lv) \<in> set tabs \<Longrightarrow> unat lv < length (levels v) \<and> file_exists (table_file_name tid) w \<and>
      sst_open (table_file_name tid) tid w = Ok (set_level 0 (T tid)) \<and> sst_level (T tid) = unat lv"
    and "length (levels v) = max_levels opts"
  shows "\<exists>v'. load_tables opts w tabs v = Ok v' \<and> length (levels v') = length (levels v) \<and>
    (\<forall>l < length (levels v). levels v' ! l = levels v ! l @ map (T \<circ> fst) (filter (\<lambda>(_, lv). unat lv = l) tabs))"
  using assms
proof (induction tabs arbitrary: v)
  case Nil
  then show ?case by simp
next
  case (Cons p tabs)
  obtain tid lv where p: "p = (tid, lv)" by (cases p)
  have here: "unat lv < length (levels v)" "file_exists (table_file_name tid) w"
    "sst_open (table_file_name tid) tid w = Ok (set_level 0 (T tid))" "sst_level (T tid) = unat lv"
    using Cons.prems(1) [of tid lv] p by simp_all
  have lvl: "min (unat lv) (max_levels opts - 1) = unat lv"
    using here(1) Cons.prems(2) by simp
  have T: "set_level (unat lv) (set_level 0 (T tid)) = T tid"
    using here(4) by (simp add: set_level_def)
  let ?v = "v\<lparr>levels := (levels v)[unat lv := levels v ! unat lv @ [T tid]]\<rparr>"
  have "load_tables opts w (p # tabs) v = load_tables opts w tabs ?v"
    using here(1-3) lvl T by (simp add: p index_def Let_def)
  moreover have "\<exists>v'. load_tables opts w tabs ?v = Ok v' \<and> length (levels v') = length (levels ?v) \<and>
      (\<forall>l < length (levels ?v). levels v' ! l = levels ?v ! l @ map (T \<circ> fst) (filter (\<lambda>(_, lv). unat lv = l) tabs))"
    by (rule Cons.IH) (use Cons.prems in \<open>auto simp: p\<close>)
  ultimately show ?case
    using p by (auto simp: nth_list_update)
qed

section \<open>The same levels up to order\<close>

definition same_levels :: "version \<Rightarrow> version \<Rightarrow> bool" where
  "same_levels v v' \<longleftrightarrow> length (levels v') = length (levels v) \<and> levels v' ! 0 = levels v ! 0 \<and>
     (\<forall>l < length (levels v). set (levels v' ! l) = set (levels v ! l) \<and> distinct (levels v' ! l))"

lemma distinct_same_levels:
  assumes "distinct (map f (concat xss))" and "list_all2 (\<lambda>xs ys. set ys = set xs \<and> distinct ys) xss yss"
  shows "distinct (map f (concat yss))"
proof -
  have "length (concat yss) = length (concat xss) \<and> set (concat yss) = set (concat xss)"
    using assms(2,1)
  proof (induction rule: list_all2_induct)
    case (Cons xs xss ys yss)
    then have "distinct xs" by (simp add: distinct_map)
    then have "length ys = length xs"
      using Cons.hyps(1) distinct_card by metis
    then show ?case using Cons by simp
  qed simp
  then show ?thesis
    using assms(1) by (metis card_distinct distinct_card length_map list.set_map)
qed

lemma same_levels_all2: "same_levels v v' \<Longrightarrow> list_all2 (\<lambda>xs ys. set ys = set xs \<and> distinct ys) (levels v) (levels v')"
  by (simp add: same_levels_def list_all2_conv_all_nth)

lemma disk_inv_same_levels:
  assumes disk: "disk_inv K n0 m v w" and same: "same_levels v v'"
  shows "disk_inv K n0 m v' w" and "tlook w (concat (levels v')) k = tlook w (concat (levels v)) k"
proof -
  obtain l0 ls where lv: "levels v = l0 # ls"
    using disk by (cases "levels v") (simp_all add: disk_inv_def)
  obtain ls' where lv': "levels v' = l0 # ls'"
    using same lv by (cases "levels v'") (simp_all add: same_levels_def)
  note all2 = same_levels_all2 [OF same]
  have rest: "list_all2 (\<lambda>xs ys. set ys = set xs \<and> distinct ys) ls ls'"
    using all2 by (simp add: lv lv')
  have vok: "list_all (sst_ok w) (concat (levels v))" "distinct (map sst_id (concat (levels v)))"
      "list_all (sorted_wrt disjoint_tables) ls"
    using disk by (simp_all add: disk_inv_def version_ok_def lv)
  have sets: "set (concat (levels v')) = set (concat (levels v))"
    using all2 by (induction rule: list_all2_induct) simp_all
  have "list_all (sorted_wrt disjoint_tables) ls'"
    using rest vok(3)
  proof (induction rule: list_all2_induct)
    case (Cons xs xss ys yss)
    then show ?case using disjoint_same_set [of xs ys] by simp
  qed simp
  moreover have "list_all (sst_ok w) (concat (levels v'))"
    using vok(1) unfolding list_all_iff sets .
  ultimately have "version_ok w v'"
    using distinct_same_levels [OF vok(2) all2] by (simp add: version_ok_def lv')
  moreover have "levels_at K w v'"
    using disk same by (auto simp: disk_inv_def levels_at_def same_levels_def)
  moreover have "man_matches m v'"
    using disk same by (auto simp: disk_inv_def man_matches_def same_levels_def)
  ultimately show "disk_inv K n0 m v' w"
    using disk same by (auto simp: disk_inv_def lv' same_levels_def)
  have "tlook w (concat ls') k = tlook w (concat ls) k"
  proof (rule levels_same_lookup)
    show "list_all2 (\<lambda>xs ys. set ys = set xs) ls ls'"
      using rest by (rule list_all2_mono) simp
    show "list_all (\<lambda>ts. sorted_wrt disjoint_tables ts \<and> list_all (sst_ok w) ts) ls"
      using vok(1,3) by (auto simp: list_all_iff lv)
  qed
  then show "tlook w (concat (levels v')) k = tlook w (concat (levels v)) k"
    unfolding lv lv' concat.simps tlook_append by (rule arg_cong)
qed

text \<open>The version a restart builds from the manifest has the levels that were there before.\<close>

lemma reload_levels:
  assumes disk: "disk_inv K n0 m v w" and len: "max_levels opts = length (levels v)"
  obtains v1 where "load_tables opts w (man_tables m) (with_max_levels (max_levels opts)) = Ok v1"
    and "same_levels v (order_levels v1)"
proof -
  let ?N = "length (levels v)"
  define T where "T tid = the (map_of (map (\<lambda>t. (sst_id t, t)) (concat (levels v))) tid)" for tid
  have dist: "distinct (map sst_id (concat (levels v)))" and small: "?N \<le> 2 ^ 32" and ne: "levels v \<noteq> []"
    using disk by (simp_all add: disk_inv_def version_ok_def)
  have T: "T (sst_id t) = t" if "t \<in> set (concat (levels v))" for t
  proof -
    have "map_of (map (\<lambda>t. (sst_id t, t)) (concat (levels v))) (sst_id t) = Some t"
      using that dist by (intro map_of_is_SomeI) (simp_all add: comp_def image_iff)
    then show ?thesis by (simp add: T_def)
  qed
  have tabs: "set (man_tables m) = (\<Union>l < ?N. (\<lambda>t. (sst_id t, as_u32 l)) ` set (levels v ! l))"
    and zero: "filter (\<lambda>(_, l). l = 0) (man_tables m) = map (\<lambda>t. (sst_id t, 0)) (rev (levels v ! 0))"
    using disk by (simp_all add: disk_inv_def man_matches_def)
  have entry: "\<exists>l t. l < ?N \<and> t \<in> set (levels v ! l) \<and> tid = sst_id t \<and> unat lv = l \<and> T tid = t"
    if "(tid, lv) \<in> set (man_tables m)" for tid lv
  proof -
    obtain l t where "l < ?N" "t \<in> set (levels v ! l)" "tid = sst_id t" "lv = as_u32 l"
      using \<open>(tid, lv) \<in> set (man_tables m)\<close> unfolding tabs by blast
    moreover from this have "unat lv = l" using small by (simp add: unat_as_u32)
    moreover have "t \<in> set (concat (levels v))" using calculation(1,2) by auto
    ultimately show ?thesis using T by blast
  qed
  have at: "table_at K w l t" if "l < ?N" "t \<in> set (levels v ! l)" for l t
    using disk that by (simp add: disk_inv_def levels_at_def)
  obtain v1 where v1: "load_tables opts w (man_tables m) (with_max_levels (max_levels opts)) = Ok v1"
      "length (levels v1) = ?N" "\<forall>l < ?N. levels v1 ! l = map (T \<circ> fst) (filter (\<lambda>(_, lv). unat lv = l) (man_tables m))"
  proof -
    have "\<exists>v'. load_tables opts w (man_tables m) (with_max_levels (max_levels opts)) = Ok v' \<and>
        length (levels v') = length (levels (with_max_levels (max_levels opts))) \<and>
        (\<forall>l < length (levels (with_max_levels (max_levels opts))). levels v' ! l =
           levels (with_max_levels (max_levels opts)) ! l @ map (T \<circ> fst) (filter (\<lambda>(_, lv). unat lv = l) (man_tables m)))"
    proof (rule load_tables_ok)
      fix tid lv
      assume "(tid, lv) \<in> set (man_tables m)"
      from entry [OF this] obtain l t where "l < ?N" "t \<in> set (levels v ! l)" "tid = sst_id t" "unat lv = l" "T tid = t" by blast
      then show "unat lv < length (levels (with_max_levels (max_levels opts))) \<and> file_exists (table_file_name tid) w \<and>
          sst_open (table_file_name tid) tid w = Ok (set_level 0 (T tid)) \<and> sst_level (T tid) = unat lv"
        using at [of l t] len by (auto simp: with_max_levels_def table_at_def file_exists_def)
    qed (simp add: with_max_levels_def)
    then show thesis using that len by (auto simp: with_max_levels_def)
  qed
  have set1: "set (levels v1 ! l) = set (levels v ! l)" and dist1: "distinct (levels v1 ! l)" if l: "l < ?N" for l
  proof -
    let ?tabs = "filter (\<lambda>(_, lv). unat lv = l) (man_tables m)"
    show "set (levels v1 ! l) = set (levels v ! l)"
    proof (intro equalityI subsetI)
      fix t
      assume "t \<in> set (levels v1 ! l)"
      then obtain tid lv where "(tid, lv) \<in> set (man_tables m)" "unat lv = l" "t = T tid"
        using v1(3) l by auto
      then show "t \<in> set (levels v ! l)"
        using entry by blast
    next
      fix t
      assume t: "t \<in> set (levels v ! l)"
      have live: "t \<in> set (concat (levels v))"
        using t l by auto
      have "(sst_id t, as_u32 l) \<in> set (man_tables m)"
        unfolding tabs using t l by blast
      moreover have "unat (as_u32 l) = l"
        using l small by (simp add: unat_as_u32)
      ultimately have "(sst_id t, as_u32 l) \<in> set ?tabs"
        by simp
      then have "(T \<circ> fst) (sst_id t, as_u32 l) \<in> set (levels v1 ! l)"
        unfolding v1(3) [rule_format, OF l] set_map by (rule imageI)
      then show "t \<in> set (levels v1 ! l)"
        using T [OF live] by simp
    qed
    have "sst_id (T tid) = tid" if "(tid, lv) \<in> set (man_tables m)" for tid lv
      using entry [OF that] by auto
    then have "map sst_id (map (T \<circ> fst) ?tabs) = map fst ?tabs"
      by auto
    moreover have "distinct (map fst ?tabs)"
      using disk by (intro distinct_map_filter) (simp add: disk_inv_def man_at_def)
    ultimately show "distinct (levels v1 ! l)"
      using v1(3) l by (metis distinct_map)
  qed
  have first: "levels v1 ! 0 = rev (levels v ! 0)"
  proof -
    have "filter (\<lambda>(_, lv). unat lv = 0) (man_tables m) = map (\<lambda>t. (sst_id t, 0)) (rev (levels v ! 0))"
      using zero by (simp add: unat_eq_zero)
    then have "levels v1 ! 0 = map (\<lambda>t. T (sst_id t)) (rev (levels v ! 0))"
      using v1(3) ne by (simp add: comp_def)
    also have "\<dots> = rev (levels v ! 0)"
      using ne T by (intro map_idI) (cases "levels v"; auto)
    finally show ?thesis .
  qed
  obtain l0 ls where lv1: "levels v1 = l0 # ls"
    using v1(2) ne by (cases "levels v1") auto
  have "same_levels v (order_levels v1)"
    unfolding same_levels_def
  proof (intro conjI allI impI)
    show "length (levels (order_levels v1)) = ?N" "levels (order_levels v1) ! 0 = levels v ! 0"
      using v1(2) first by (simp_all add: order_levels_def lv1)
    fix l
    assume l: "l < ?N"
    have "set (levels (order_levels v1) ! l) = set (levels v1 ! l) \<and> distinct (levels (order_levels v1) ! l) = distinct (levels v1 ! l)"
      using l v1(2) by (cases l) (simp_all add: order_levels_def lv1)
    then show "set (levels (order_levels v1) ! l) = set (levels v ! l)" "distinct (levels (order_levels v1) ! l)"
      using set1 [OF l] dist1 [OF l] by simp_all
  qed
  with v1(1) show ?thesis by (rule that)
qed

section \<open>Opening\<close>

lemma cache_new_coherent: "block_cache.coherent P (cache_new n)"
  using cache_ok_new [of n] by (simp add: block_cache.coherent_def cache_new_def)

abbreviation wal_here :: wal where
  "wal_here \<equiv> \<lparr>wal_path = WAL_FILE_NAME\<rparr>"

lemma engine_open_reads:
  assumes disk: "disk_inv K n0 m v w" and len: "max_levels opts = length (levels v)"
    and wal: "files w WAL_FILE_NAME \<noteq> None" "wal_replay wal_here w = (Ok ops, w)"
  obtains e where "engine_open_with opts w = (Ok e, w)" and "shared_inv K n0 (eng_shared e) w"
    and "eng_wal e = wal_here" and "eng_memtable e = fold apply_operation ops mem_new" and "eng_immutable e = None"
    and "eng_options e = opts" and "sh_options (eng_shared e) = opts" and "eng_worker e = worker_start" and "next_no e = unat n0"
    and "\<And>k. engine_look e w k = (case mem_get (fold apply_operation ops mem_new) k of
      Some x \<Rightarrow> Some x | None \<Rightarrow> tlook w (concat (levels v)) k)"
proof -
  let ?m = "m\<lparr>next_table_id := n0\<rparr>" and ?mem = "fold apply_operation ops mem_new"
  have at: "man_at n0 m w" using disk by (simp add: disk_inv_def)
  note open_man = man_at_open [OF at]
  obtain v1 where v1: "load_tables opts w (man_tables m) (with_max_levels (max_levels opts)) = Ok v1"
      and same: "same_levels v (order_levels v1)"
    by (rule reload_levels [OF disk len])
  let ?v = "order_levels v1"
  have disk': "disk_inv K n0 ?m ?v w"
    using disk_inv_same_levels(1) [OF disk same] open_man(2) by (simp add: disk_inv_def man_matches_def)
  have opened: "wal_open WAL_FILE_NAME w = (Ok wal_here, w)"
    using wal(1) by (auto simp: wal_open_def open_create_def)
  obtain it where it: "wal_iter wal_here w = (Ok it, w)" "wal_collect it = Ok ops"
    using wal(2) by (auto simp: wal_replay_def wal_iter_def)
  define sh where "sh = \<lparr>sh_options = opts, sh_version = ?v, sh_manifest = ?m,
      sh_cache = cache_new (cache_size_bytes opts), last_error = None, bloom_skips = 0, sstable_reads = 0\<rparr>"
  define e where "e = \<lparr>eng_options = opts, eng_wal = wal_here, eng_memtable = ?mem, eng_immutable = None,
      eng_shared = sh, eng_worker = worker_start\<rparr>"
  have buf: "buffer_look e = mem_get ?mem"
    by (simp add: buffer_look_def e_def fun_eq_iff split: option.split)
  have "length (levels ?v) = max_levels opts"
    using same len by (simp add: same_levels_def)
  then have "shared_inv K n0 (eng_shared e) w"
    using disk' cache_new_coherent by (simp add: shared_inv_def sh_def e_def)
  moreover have "engine_open_with opts w = (Ok e, w)"
    using open_man(1) v1 opened it by (simp add: engine_open_with_def man_active_tables_def e_def sh_def Let_def)
  moreover have "engine_look e w k = (case mem_get ?mem k of Some x \<Rightarrow> Some x | None \<Rightarrow> tlook w (concat (levels v)) k)" for k
    unfolding engine_look_def buf
    by (simp add: e_def sh_def disk_inv_same_levels(2) [OF disk same] cong: option.case_cong)
  ultimately show ?thesis
    by (intro that [of e]) (simp_all add: e_def sh_def next_no_def)
qed

lemma engine_open_ok:
  assumes disk: "disk_inv K n0 m v w" and len: "max_levels opts = length (levels v)"
    and wal: "wal_holds wal_here ops w" "wal_synced wal_here w" and keys: "fst ` op_entry ` set ops \<subseteq> K"
  obtains e where "engine_open_with opts w = (Ok e, w)" and "engine_inv K n0 e w" and "eng_options e = opts"
    and "eng_worker e = worker_start" and "eng_immutable e = None" and "next_no e = unat n0"
    and "\<And>k. engine_look e w k = (case mem_get (fold apply_operation ops mem_new) k of
      Some x \<Rightarrow> Some x | None \<Rightarrow> tlook w (concat (levels v)) k)"
proof -
  let ?mem = "fold apply_operation ops mem_new"
  have there: "files w WAL_FILE_NAME \<noteq> None"
    using wal(1) by (auto simp: wal_holds_def)
  show ?thesis
  proof (rule engine_open_reads [OF disk len there wal_replay_holds [OF wal(1)]])
    fix e
    assume e: "engine_open_with opts w = (Ok e, w)" "shared_inv K n0 (eng_shared e) w"
      "eng_wal e = wal_here" "eng_memtable e = ?mem" "eng_immutable e = None"
      "eng_options e = opts" "sh_options (eng_shared e) = opts" "eng_worker e = worker_start" "next_no e = unat n0"
      "\<And>k. engine_look e w k = (case mem_get ?mem k of Some x \<Rightarrow> Some x | None \<Rightarrow> tlook w (concat (levels v)) k)"
    have buf: "buffer_look e = mem_get ?mem"
      by (simp add: buffer_look_def e(4,5) fun_eq_iff split: option.split)
    have "log_inv K e w"
      unfolding log_inv_def buf using wal keys e(3) by auto
    moreover have "layer_ok K (buffer_look e)"
      unfolding buf using wal(1) keys by (intro replay_layer) (simp_all add: wal_holds_def layer_ok_def)
    ultimately have "engine_inv K n0 e w"
      using e(2,4-7) by (simp add: engine_inv_def)
    then show thesis
      using that e by blast
  qed
qed

text \<open>A directory with neither a manifest nor a log.\<close>

lemma engine_open_fresh:
  assumes "files w MANIFEST_FILE = None" and "files w WAL_FILE_NAME = None"
    and opts: "0 < max_levels opts" "max_levels opts \<le> 2 ^ 32"
  obtains e w' where "engine_open_with opts w = (Ok e, w')" and "engine_ok K e w'" and "eng_options e = opts"
    and "eng_immutable e = None" and "id_use e = 1" and "failpoint w' = failpoint w" and "engine_map e w' = (\<lambda>_. None)"
    and "eng_memtable e = mem_new" and "engine_tables e = []" and "eng_worker e = worker_start"
proof -
  let ?w1 = "open_create MANIFEST_FILE w" and ?v = "with_max_levels (max_levels opts)"
  let ?w = "open_create WAL_FILE_NAME ?w1" and ?m = "man_fresh MANIFEST_FILE"
  have order: "order_levels ?v = ?v"
    using opts(1) by (cases "max_levels opts") (simp_all add: order_levels_def with_max_levels_def map_replicate)
  have at: "man_at 1 ?m ?w"
    by (rule man_at_cong [OF man_at_new [OF assms(1)]]) (simp add: files_open_create)
  have lv: "levels ?v = replicate (max_levels opts) []"
    by (simp add: with_max_levels_def)
  have cc: "concat (replicate n []) = []" for n
    by (induction n) simp_all
  have disk: "disk_inv K 1 ?m ?v ?w"
    using opts at by (auto simp: disk_inv_def version_ok_def levels_at_def man_matches_def lv cc list_all_iff)
  define sh where "sh = \<lparr>sh_options = opts, sh_version = ?v, sh_manifest = ?m,
      sh_cache = cache_new (cache_size_bytes opts), last_error = None, bloom_skips = 0, sstable_reads = 0\<rparr>"
  define e where "e = \<lparr>eng_options = opts, eng_wal = wal_here, eng_memtable = mem_new, eng_immutable = None,
      eng_shared = sh, eng_worker = worker_start\<rparr>"
  have wal: "files ?w WAL_FILE_NAME = Some empty_file"
    using assms(2) by (simp add: files_open_create)
  then have holds: "wal_holds wal_here [] ?w"
    by (simp add: wal_holds_def empty_file_def)
  have buf: "buffer_look e = (\<lambda>_. None)"
    by (simp add: buffer_look_def e_def fun_eq_iff)
  have "shared_inv K 1 sh ?w"
    using disk cache_new_coherent by (simp add: shared_inv_def sh_def lv)
  moreover have "log_inv K e ?w"
    unfolding log_inv_def buf using holds wal
    by (auto simp: e_def wal_synced_def empty_file_def fun_eq_iff intro!: exI [of _ "[]"])
  moreover have "layer_ok K (buffer_look e)"
    by (simp add: layer_ok_def buf)
  ultimately have "engine_ok K e ?w"
    by (auto simp: engine_ok_def engine_inv_def) (auto simp: e_def sh_def worker_start_def worker_ok_def)
  moreover have "wal_replay wal_here ?w = (Ok [], ?w)"
    using holds by (rule wal_replay_holds)
  then have "engine_open_with opts w = (Ok e, ?w)"
    using man_open_new [OF assms(1)] order
    by (auto simp: engine_open_with_def man_active_tables_def wal_open_def wal_replay_def wal_iter_def e_def sh_def Let_def)
  moreover have "engine_map e ?w = (\<lambda>_. None)"
    by (simp add: engine_map_def engine_look_def buf fun_eq_iff) (simp add: e_def sh_def lv cc)
  ultimately show ?thesis
    by (intro that [of e ?w]) (simp_all add: e_def sh_def id_use_def next_no_def worker_start_def lv cc)
qed

section \<open>Crashes\<close>

lemma disk_inv_crash:
  assumes disk: "disk_inv K n0 m v w" and keep: "crash_keeps keep w"
  shows "disk_inv K n0 m v (crash keep w)" and "tlook (crash keep w) (concat (levels v)) k = tlook w (concat (levels v)) k"
proof -
  have lv: "levels_at K w v" and vok: "version_ok w v" and at: "man_at n0 m w"
    using disk by (simp_all add: disk_inv_def)
  have same: "same_tables v w (crash keep w)"
    unfolding same_tables_def
  proof
    fix t
    assume "t \<in> set (concat (levels v))"
    then obtain x where "files w (table_file_name (sst_id t)) = Some x" "durable x = length (content x)"
      using live_table_at [OF lv] by (auto simp: table_at_def)
    then show "files (crash keep w) (table_file_name (sst_id t)) = files w (table_file_name (sst_id t))"
      using crash_durable [OF keep] by metis
  qed
  show "disk_inv K n0 m v (crash keep w)"
    using disk same_tables_ok [OF lv vok same] man_at_crash [OF at keep] by (simp add: disk_inv_def)
  show "tlook (crash keep w) (concat (levels v)) k = tlook w (concat (levels v)) k"
    by (rule same_tables_tlook [OF lv vok same]) simp
qed

lemma wal_crash:
  assumes "wal_holds wl ops w" and "wal_synced wl w" and "crash_keeps keep w"
  shows "wal_holds wl ops (crash keep w)" and "wal_synced wl (crash keep w)"
proof -
  obtain x where x: "files w (wal_path wl) = Some x" "durable x = length (content x)"
    using assms(1,2) by (auto simp: wal_holds_def wal_synced_def)
  then have same: "files (crash keep w) (wal_path wl) = Some x"
    by (intro crash_durable [OF assms(3)])
  then show "wal_holds wl ops (crash keep w)"
    using wal_holds_other [OF assms(1), of "crash keep w"] x(1) by (simp del: files_crash)
  show "wal_synced wl (crash keep w)"
    using same x(2) by (simp add: wal_synced_def del: files_crash)
qed

text \<open>Opening again from files that kept the manifest, the tables and the log gives back the map.\<close>

lemma engine_again:
  assumes inv: "engine_inv K n0 e w" and len: "max_levels opts = max_levels (eng_options e)"
    and disk: "disk_inv K n0 (sh_manifest (eng_shared e)) (sh_version (eng_shared e)) w'"
    and wal: "\<And>ops. wal_holds wal_here ops w \<Longrightarrow> wal_synced wal_here w \<Longrightarrow> wal_holds wal_here ops w' \<and> wal_synced wal_here w'"
    and tabs: "\<And>k. tlook w' (engine_tables e) k = tlook w (engine_tables e) k"
  obtains e' where "engine_open_with opts w' = (Ok e', w')" and "engine_inv K n0 e' w'"
    and "eng_options e' = opts" and "eng_worker e' = worker_start" and "eng_immutable e' = None" and "next_no e' \<le> next_no e"
    and "engine_map e' w' = engine_map e w"
proof -
  let ?sh = "eng_shared e"
  have len': "max_levels opts = length (levels (sh_version ?sh))"
    using inv len by (simp add: engine_inv_def shared_inv_def)
  have "eng_wal e = wal_here"
    using inv by (cases "eng_wal e") (simp add: engine_inv_def log_inv_def)
  then obtain ops where ops: "wal_holds wal_here ops w" "wal_synced wal_here w" "fst ` op_entry ` set ops \<subseteq> K"
      "mem_get (fold apply_operation ops mem_new) = buffer_look e"
    using inv by (auto simp: engine_inv_def log_inv_def)
  have wal': "wal_holds wal_here ops w'" "wal_synced wal_here w'"
    using wal [OF ops(1,2)] by simp_all
  have bound: "unat n0 \<le> next_no e"
    using disk by (simp add: disk_inv_def man_at_def next_no_def word_le_nat_alt)
  show ?thesis
  proof (rule engine_open_ok [OF disk len' wal' ops(3)])
    fix e'
    assume e': "engine_open_with opts w' = (Ok e', w')" "engine_inv K n0 e' w'" "eng_options e' = opts"
      "eng_worker e' = worker_start" "eng_immutable e' = None" "next_no e' = unat n0"
      and look: "\<And>k. engine_look e' w' k = (case mem_get (fold apply_operation ops mem_new) k of
        Some x \<Rightarrow> Some x | None \<Rightarrow> tlook w' (engine_tables e) k)"
    have "engine_look e' w' = engine_look e w"
      by (rule ext) (simp only: look ops(4) tabs engine_look_def [of e])
    then have "engine_map e' w' = engine_map e w"
      by (simp add: engine_map_def fun_eq_iff)
    then show thesis
      using that e' bound by simp
  qed
qed

lemma engine_restart_ok:
  assumes inv: "engine_inv K n0 e w" and keep: "crash_keeps keep w"
    and len: "max_levels opts = max_levels (eng_options e)"
  obtains e' where "engine_open_with opts (crash keep w) = (Ok e', crash keep w)" and "engine_inv K n0 e' (crash keep w)"
    and "eng_options e' = opts" and "eng_worker e' = worker_start" and "eng_immutable e' = None" and "next_no e' \<le> next_no e"
    and "engine_map e' (crash keep w) = engine_map e w"
proof -
  have disk: "disk_inv K n0 (sh_manifest (eng_shared e)) (sh_version (eng_shared e)) w"
    using inv by (simp add: engine_inv_def shared_inv_def)
  show ?thesis
    by (rule engine_again [OF inv len disk_inv_crash(1) [OF disk keep] _ disk_inv_crash(2) [OF disk keep]])
      (use wal_crash [OF _ _ keep] that in blast)+
qed

lemma engine_reopen_ok:
  assumes inv: "engine_inv K n0 e w" and len: "max_levels opts = max_levels (eng_options e)"
  obtains e' where "engine_open_with opts w = (Ok e', w)" and "engine_inv K n0 e' w"
    and "eng_options e' = opts" and "eng_worker e' = worker_start" and "eng_immutable e' = None" and "next_no e' \<le> next_no e"
    and "engine_map e' w = engine_map e w"
proof -
  have disk: "disk_inv K n0 (sh_manifest (eng_shared e)) (sh_version (eng_shared e)) w"
    using inv by (simp add: engine_inv_def shared_inv_def)
  show ?thesis
    by (rule engine_again [OF inv len disk]) (use that in blast)+
qed

end
