(* ===== verification/Scan.thy ===== *)
theory Scan
  imports Engine_Inv
begin

text \<open>
  The ordered range scan (\<^verbatim>\<open>EngineIterator\<close> of \<^verbatim>\<open>src/src/engine.rs\<close>): one peeking source per layer, newest
  first, merged by repeatedly taking the least key. A scan is shown to list, in key order and each once, exactly
  the keys of the range with the values the user's map has.
\<close>

section \<open>Bounds\<close>

datatype 'a bound = Unbounded | Included 'a | Excluded 'a

fun after_start :: "bytes \<Rightarrow> bytes bound \<Rightarrow> bool" where
  "after_start key Unbounded = True"
| "after_start key (Included s) = (key \<ge> s)"
| "after_start key (Excluded s) = (key > s)"

fun before_end :: "bytes \<Rightarrow> bytes bound \<Rightarrow> bool" where
  "before_end key Unbounded = True"
| "before_end key (Included e) = (key \<le> e)"
| "before_end key (Excluded e) = (key < e)"

definition in_range :: "bytes \<Rightarrow> bytes bound \<Rightarrow> bytes bound \<Rightarrow> bool" where
  "in_range key start stop \<longleftrightarrow> after_start key start \<and> before_end key stop"

fun past_end :: "bytes \<Rightarrow> bytes bound \<Rightarrow> bool" where
  "past_end key Unbounded = False"
| "past_end key (Included e) = (key > e)"
| "past_end key (Excluded e) = (key \<ge> e)"

section \<open>Sources\<close>

datatype source_rest = RestVec "(bytes \<times> entry) list" | RestTable sst_iterator

record peek_source =
  ps_next :: "(bytes \<times> entry) option"
  ps_rest :: source_rest

definition vec_next :: "'a list \<Rightarrow> 'a option \<times> 'a list" where
  "vec_next xs = (case xs of [] \<Rightarrow> (None, []) | x # xs \<Rightarrow> (Some x, xs))"

definition from_mem :: "memtable \<Rightarrow> bytes bound \<Rightarrow> bytes bound \<Rightarrow> peek_source" where
  "from_mem table start stop =
     (let items = filter (\<lambda>(k, _). in_range k start stop) (mem_iter table);
          (nxt, rest) = vec_next items
      in \<lparr>ps_next = nxt, ps_rest = RestVec rest\<rparr>)"

function next_in_range ::
  "world \<Rightarrow> bytes bound \<Rightarrow> bytes bound \<Rightarrow> sst_iterator \<Rightarrow> (bytes \<times> entry) option result \<times> sst_iterator" where
  "next_in_range w start stop it =
     (case sst_next w it of
        (None, it) \<Rightarrow> (Ok None, it)
      | (Some (Ok (key, e)), it) \<Rightarrow>
          if in_range key start stop then (Ok (Some (key, e)), it)
          else if past_end key stop then (Ok None, it)
          else next_in_range w start stop it
      | (Some (Err err), it) \<Rightarrow> (Err err, it)
      | (Some Panic, it) \<Rightarrow> (Panic, it))"
  by pat_completeness auto

termination
  by (relation "measure (\<lambda>(w, start, stop, it). it_count w it)") (auto dest: sst_next_count [OF sym])

declare next_in_range.simps [simp del]

definition from_table :: "world \<Rightarrow> sst_iterator \<Rightarrow> bytes bound \<Rightarrow> bytes bound \<Rightarrow> peek_source result" where
  "from_table w it start stop =
     (case next_in_range w start stop it of
        (Ok nxt, it) \<Rightarrow> Ok \<lparr>ps_next = nxt, ps_rest = RestTable it\<rparr>
      | (Err err, it) \<Rightarrow> Err err
      | (Panic, it) \<Rightarrow> Panic)"

definition ps_advance :: "world \<Rightarrow> bytes bound \<Rightarrow> bytes bound \<Rightarrow> peek_source \<Rightarrow> unit result \<times> peek_source" where
  "ps_advance w start stop s =
     (case ps_rest s of
        RestVec xs \<Rightarrow> (case vec_next xs of (nxt, xs) \<Rightarrow> (Ok (), s\<lparr>ps_next := nxt, ps_rest := RestVec xs\<rparr>))
      | RestTable it \<Rightarrow>
          (case next_in_range w start stop it of
             (Ok nxt, it) \<Rightarrow> (Ok (), s\<lparr>ps_next := nxt, ps_rest := RestTable it\<rparr>)
           | (Err err, it) \<Rightarrow> (Err err, s\<lparr>ps_rest := RestTable it\<rparr>)
           | (Panic, it) \<Rightarrow> (Panic, s\<lparr>ps_rest := RestTable it\<rparr>)))"

section \<open>The iterator\<close>

record engine_iterator =
  ei_sources :: "peek_source list"
  ei_start :: "bytes bound"
  ei_stop :: "bytes bound"

fun table_sources :: "world \<Rightarrow> bytes bound \<Rightarrow> bytes bound \<Rightarrow> sstable list \<Rightarrow> peek_source list result" where
  "table_sources w start stop [] = Ok []"
| "table_sources w start stop (t # ts) =
     and_then (sst_iter w t) (\<lambda>it.
     and_then (from_table w it start stop) (\<lambda>s.
     and_then (table_sources w start stop ts) (\<lambda>ss. Ok (s # ss))))"

definition engine_scan :: "bytes bound \<Rightarrow> bytes bound \<Rightarrow> engine \<times> world \<Rightarrow> engine_iterator result" where
  "engine_scan start stop = (\<lambda>(e, w).
     let mems = from_mem (eng_memtable e) start stop #
           (case eng_immutable e of Some imm \<Rightarrow> [from_mem imm start stop] | None \<Rightarrow> [])
     in and_then (table_sources w start stop (tables_newest_first (sh_version (eng_shared e)))) (\<lambda>ss.
          Ok \<lparr>ei_sources = mems @ ss, ei_start = start, ei_stop = stop\<rparr>))"

text \<open>The loop that finds the least key, and the first source that has it.\<close>

fun find_best :: "nat \<Rightarrow> peek_source list \<Rightarrow> (nat \<times> bytes) option \<Rightarrow> (nat \<times> bytes) option" where
  "find_best idx [] best = best"
| "find_best idx (s # ss) best =
     find_best (Suc idx) ss
       (case ps_next s of
          None \<Rightarrow> best
        | Some (key, _) \<Rightarrow>
            (case best of
               None \<Rightarrow> Some (idx, key)
             | Some (i, best_key) \<Rightarrow> if key < best_key then Some (idx, key) else Some (i, best_key)))"

fun advance_sources ::
  "world \<Rightarrow> bytes bound \<Rightarrow> bytes bound \<Rightarrow> bytes \<Rightarrow> peek_source list \<Rightarrow> unit result \<times> peek_source list" where
  "advance_sources w start stop key [] = (Ok (), [])"
| "advance_sources w start stop key (s # ss) =
     (if (case ps_next s of Some (k, _) \<Rightarrow> k = key | None \<Rightarrow> False) then
        (case ps_advance w start stop s of
           (Ok _, s) \<Rightarrow> (case advance_sources w start stop key ss of (r, ss) \<Rightarrow> (r, s # ss))
         | (Err err, s) \<Rightarrow> (Err err, s # ss)
         | (Panic, s) \<Rightarrow> (Panic, s # ss))
      else (case advance_sources w start stop key ss of (r, ss) \<Rightarrow> (r, s # ss)))"

text \<open>The entries a source can still give: none once it has no next one.\<close>

definition rest_count :: "world \<Rightarrow> source_rest \<Rightarrow> nat" where
  "rest_count w r = (case r of RestVec xs \<Rightarrow> length xs | RestTable it \<Rightarrow> it_count w it)"

definition source_count :: "world \<Rightarrow> peek_source \<Rightarrow> nat" where
  "source_count w s = (if ps_next s = None then 0 else Suc (rest_count w (ps_rest s)))"

lemma next_in_range_count:
  "next_in_range w start stop it = (Ok (Some x), it') \<Longrightarrow> it_count w it' < it_count w it"
proof (induction w start stop it rule: next_in_range.induct)
  case (1 w start stop it)
  obtain r it1 where nx: "sst_next w it = (r, it1)" by fastforce
  then obtain key e where r: "r = Some (Ok (key, e))"
    using "1.prems" by (auto simp: next_in_range.simps [of w start stop it] split: option.splits result.splits)
  note count = sst_next_count [OF nx [unfolded r]]
  show ?case
  proof (cases "in_range key start stop \<or> past_end key stop")
    case True
    then show ?thesis
      using "1.prems" nx r count by (auto simp: next_in_range.simps [of w start stop it] split: if_splits)
  next
    case False
    then have "it_count w it' < it_count w it1"
      using "1.IH" nx r "1.prems" by (auto simp: next_in_range.simps [of w start stop it])
    then show ?thesis using count by simp
  qed
qed

lemma ps_advance_count:
  assumes "ps_advance w start stop s = (Ok u, s')" and "ps_next s \<noteq> None"
  shows "source_count w s' < source_count w s"
  using assms
  by (auto simp: ps_advance_def source_count_def rest_count_def vec_next_def
      split: source_rest.splits list.splits prod.splits result.splits option.splits dest: next_in_range_count)

lemma advance_sources_count:
  assumes "advance_sources w start stop key ss = (Ok u, ss')"
  shows "sum_list (map (source_count w) ss') \<le> sum_list (map (source_count w) ss)"
    and "\<exists>s \<in> set ss. \<exists>e. ps_next s = Some (key, e) \<Longrightarrow>
      sum_list (map (source_count w) ss') < sum_list (map (source_count w) ss)"
proof -
  have "sum_list (map (source_count w) ss') \<le> sum_list (map (source_count w) ss) \<and>
    ((\<exists>s \<in> set ss. \<exists>e. ps_next s = Some (key, e)) \<longrightarrow>
      sum_list (map (source_count w) ss') < sum_list (map (source_count w) ss))"
    using assms
  proof (induction w start stop key ss arbitrary: ss' rule: advance_sources.induct)
    case (2 w start stop key s ss)
    show ?case
    proof (cases "\<exists>e. ps_next s = Some (key, e)")
      case True
      then obtain s1 ss1 where "ps_advance w start stop s = (Ok (), s1)" "ss' = s1 # ss1"
          "advance_sources w start stop key ss = (Ok u, ss1)"
        using "2.prems" by (auto split: prod.splits result.splits)
      then show ?thesis
        using 2 True ps_advance_count [of w start stop s "()" s1] by fastforce
    next
      case False
      then have c: "\<not> (case ps_next s of Some (k, _) \<Rightarrow> k = key | None \<Rightarrow> False)"
        by (auto split: option.splits)
      then obtain ss1 where "ss' = s # ss1" "advance_sources w start stop key ss = (Ok u, ss1)"
        using "2.prems" by (auto split: prod.splits)
      then show ?thesis
        using 2 False c by auto
    qed
  qed simp
  then show "sum_list (map (source_count w) ss') \<le> sum_list (map (source_count w) ss)"
    "\<exists>s \<in> set ss. \<exists>e. ps_next s = Some (key, e) \<Longrightarrow>
      sum_list (map (source_count w) ss') < sum_list (map (source_count w) ss)"
    by blast+
qed

lemma find_best_from:
  "find_best idx ss best = Some (i, key) \<Longrightarrow>
     best = Some (i, key) \<or> (\<exists>e. idx \<le> i \<and> i < idx + length ss \<and> ps_next (ss ! (i - idx)) = Some (key, e))"
proof (induction idx ss best rule: find_best.induct)
  case (2 idx s ss best)
  show ?case
    using 2 by (fastforce split: option.splits prod.splits if_splits simp: nth_Cons' not_le)
qed simp

lemma engine_next_shrinks:
  assumes "find_best 0 ss None = Some (i, key)" and "advance_sources w start stop key ss = (Ok u, ss')"
  shows "sum_list (map (source_count w) ss') < sum_list (map (source_count w) ss)"
proof -
  obtain e where "i < length ss" "ps_next (ss ! i) = Some (key, e)"
    using find_best_from [OF assms(1)] by auto
  then show ?thesis
    using advance_sources_count(2) [OF assms(2)] nth_mem by blast
qed

function engine_next :: "world \<Rightarrow> engine_iterator \<Rightarrow> (bytes \<times> bytes) result option \<times> engine_iterator" where
  "engine_next w it =
     (case find_best 0 (ei_sources it) None of
        None \<Rightarrow> (None, it)
      | Some (winner_idx, key) \<Rightarrow>
          let e = map_option snd (ps_next (ei_sources it ! winner_idx)) in
          (case advance_sources w (ei_start it) (ei_stop it) key (ei_sources it) of
             (Ok _, ss) \<Rightarrow>
               let it = it\<lparr>ei_sources := ss\<rparr> in
               (case e of
                  Some (Value v) \<Rightarrow> (Some (Ok (key, v)), it)
                | Some Tombstone \<Rightarrow> engine_next w it
                | None \<Rightarrow> engine_next w it)
           | (Err err, ss) \<Rightarrow> (Some (Err err), it\<lparr>ei_sources := ss\<rparr>)
           | (Panic, ss) \<Rightarrow> (Some Panic, it\<lparr>ei_sources := ss\<rparr>)))"
  by pat_completeness auto

termination
  by (relation "measure (\<lambda>(w, it). sum_list (map (source_count w) (ei_sources it)))")
    (auto dest!: engine_next_shrinks [OF _ sym])

declare engine_next.simps [simp del]

text \<open>\<^verbatim>\<open>scan(..)?.collect::<Result<Vec<_>>>()\<close>.\<close>

lemma engine_next_count:
  "engine_next w it = (Some (Ok x), it') \<Longrightarrow>
     sum_list (map (source_count w) (ei_sources it')) < sum_list (map (source_count w) (ei_sources it))"
proof (induction w it arbitrary: it' rule: engine_next.induct)
  case (1 w it)
  obtain i key where best: "find_best 0 (ei_sources it) None = Some (i, key)"
    using "1.prems" by (auto simp: engine_next.simps [of w it] split: option.splits)
  obtain u ss where adv: "advance_sources w (ei_start it) (ei_stop it) key (ei_sources it) = (Ok u, ss)"
    using "1.prems" best by (auto simp: engine_next.simps [of w it] Let_def split: prod.splits result.splits)
  note less = engine_next_shrinks [OF best adv]
  show ?case
  proof (cases "\<exists>v. map_option snd (ps_next (ei_sources it ! i)) = Some (Value v)")
    case True
    then show ?thesis
      using "1.prems" best adv less by (auto simp: engine_next.simps [of w it] Let_def)
  next
    case False
    then have "engine_next w it = engine_next w (it\<lparr>ei_sources := ss\<rparr>)"
      using best adv by (auto simp: engine_next.simps [of w it] Let_def split: option.splits entry.splits)
    moreover have "engine_next w (it\<lparr>ei_sources := ss\<rparr>) = (Some (Ok x), it') \<Longrightarrow>
        sum_list (map (source_count w) (ei_sources it')) < sum_list (map (source_count w) ss)"
      using "1.IH" best adv False by (cases "ps_next (ei_sources it ! i)"; cases "snd (the (ps_next (ei_sources it ! i)))") force+
    ultimately show ?thesis
      using "1.prems" less by force
  qed
qed

function engine_collect :: "world \<Rightarrow> engine_iterator \<Rightarrow> (bytes \<times> bytes) list result" where
  "engine_collect w it =
     (case engine_next w it of
        (None, it) \<Rightarrow> Ok []
      | (Some (Ok x), it) \<Rightarrow> and_then (engine_collect w it) (\<lambda>xs. Ok (x # xs))
      | (Some (Err err), it) \<Rightarrow> Err err
      | (Some Panic, it) \<Rightarrow> Panic)"
  by pat_completeness auto

termination
  by (relation "measure (\<lambda>(w, it). sum_list (map (source_count w) (ei_sources it)))") (auto dest: engine_next_count [OF sym])

declare engine_collect.simps [simp del]

section \<open>What the sources give\<close>

abbreviation ranged :: "bytes bound \<Rightarrow> bytes bound \<Rightarrow> (bytes \<times> entry) list \<Rightarrow> (bytes \<times> entry) list" where
  "ranged start stop \<equiv> filter (\<lambda>(k, _). in_range k start stop)"

definition rest_holds :: "world \<Rightarrow> bytes bound \<Rightarrow> bytes bound \<Rightarrow> source_rest \<Rightarrow> (bytes \<times> entry) list \<Rightarrow> bool" where
  "rest_holds w start stop r xs \<longleftrightarrow>
     (case r of RestVec ys \<Rightarrow> ys = xs
      | RestTable it \<Rightarrow> \<exists>es. it_yields w it es \<and> ksorted es \<and> ranged start stop es = xs)"

definition source_holds :: "world \<Rightarrow> bytes bound \<Rightarrow> bytes bound \<Rightarrow> peek_source \<Rightarrow> (bytes \<times> entry) list \<Rightarrow> bool" where
  "source_holds w start stop s xs \<longleftrightarrow>
     (case xs of [] \<Rightarrow> ps_next s = None
      | x # r \<Rightarrow> ps_next s = Some x \<and> rest_holds w start stop (ps_rest s) r)"

lemma past_end_later: "past_end k stop \<Longrightarrow> k \<le> k' \<Longrightarrow> \<not> in_range k' start stop"
  by (cases stop) (auto simp: in_range_def)

lemma next_in_range_ok:
  assumes "it_yields w it es" and "ksorted es"
  shows "\<exists>it'. (case ranged start stop es of
      [] \<Rightarrow> next_in_range w start stop it = (Ok None, it')
    | x # xs \<Rightarrow> next_in_range w start stop it = (Ok (Some x), it') \<and> rest_holds w start stop (RestTable it') xs)"
  using assms
proof (induction es arbitrary: it)
  case Nil
  obtain it' where "sst_next w it = (None, it')"
    using sst_next_Nil [OF Nil(1)] by (metis prod.collapse)
  then show ?case by (simp add: next_in_range.simps [of w start stop it])
next
  case (Cons x es)
  obtain k e where x: "x = (k, e)" by fastforce
  obtain it1 where nx: "sst_next w it = (Some (Ok (k, e)), it1)" and y: "it_yields w it1 es"
    using sst_next_Cons Cons.prems(1) x by blast
  have sorted: "ksorted es" using Cons.prems(2) by simp
  consider (hit) "in_range k start stop" | (past) "\<not> in_range k start stop" "past_end k stop"
    | (skip) "\<not> in_range k start stop" "\<not> past_end k stop" by blast
  then show ?case
  proof cases
    case hit
    then show ?thesis
      using nx y sorted x by (auto simp: next_in_range.simps [of w start stop it] rest_holds_def)
  next
    case past
    have "ranged start stop es = []"
      using Cons.prems(2) past_end_later [OF past(2)] x by (force simp: filter_empty_conv)
    then show ?thesis
      using past nx x by (simp add: next_in_range.simps [of w start stop it])
  next
    case skip
    then have eq: "next_in_range w start stop it = next_in_range w start stop it1"
        "ranged start stop (x # es) = ranged start stop es"
      using nx x by (simp_all add: next_in_range.simps [of w start stop it])
    show ?thesis
      unfolding eq by (rule Cons.IH [OF y sorted])
  qed
qed

lemma from_table_ok:
  assumes "it_yields w it es" and "ksorted es"
  shows "\<exists>s. from_table w it start stop = Ok s \<and> source_holds w start stop s (ranged start stop es)"
  using next_in_range_ok [OF assms, of start stop]
  by (cases "ranged start stop es") (auto simp: from_table_def source_holds_def)

lemma from_mem_ok: "source_holds w start stop (from_mem t start stop) (ranged start stop (mem_iter t))"
  by (auto simp: from_mem_def vec_next_def source_holds_def rest_holds_def Let_def split: list.splits)

lemma ps_advance_ok:
  assumes "source_holds w start stop s (x # xs)"
  shows "\<exists>s'. ps_advance w start stop s = (Ok (), s') \<and> source_holds w start stop s' xs"
proof (cases "ps_rest s")
  case (RestVec ys)
  then have "ys = xs" using assms by (simp add: source_holds_def rest_holds_def)
  then show ?thesis
    using RestVec by (cases xs) (auto simp: ps_advance_def vec_next_def source_holds_def rest_holds_def)
next
  case (RestTable it)
  then obtain es where "it_yields w it es" "ksorted es" "ranged start stop es = xs"
    using assms by (auto simp: source_holds_def rest_holds_def)
  then show ?thesis
    using next_in_range_ok [of w it es start stop] RestTable
    by (cases xs) (auto simp: ps_advance_def source_holds_def)
qed

lemma source_next: "source_holds w start stop s r \<Longrightarrow> ps_next s = (if r = [] then None else Some (hd r))"
  by (cases r) (simp_all add: source_holds_def)

lemma advance_sources_ok:
  assumes "list_all2 (source_holds w start stop) ss rs"
  shows "\<exists>ss'. advance_sources w start stop key ss = (Ok (), ss') \<and>
    list_all2 (source_holds w start stop) ss' (map (advance_src key) rs)"
  using assms
proof (induction rule: list_all2_induct)
  case (Cons s ss r rs)
  show ?case
  proof (cases "r \<noteq> [] \<and> fst (hd r) = key")
    case True
    then obtain x xs where r: "r = x # xs" by (cases r) auto
    obtain s' where "ps_advance w start stop s = (Ok (), s')" "source_holds w start stop s' xs"
      using ps_advance_ok Cons.hyps(1) unfolding r by blast
    then show ?thesis
      using Cons.IH True source_next [OF Cons.hyps(1)] r by (cases x) (auto simp: advance_src_def)
  next
    case False
    then have "\<not> (case ps_next s of Some (k, _) \<Rightarrow> k = key | None \<Rightarrow> False)"
      using source_next [OF Cons.hyps(1)] by (cases "hd r") auto
    moreover have "advance_src key r = r"
      using False by (auto simp: advance_src_def)
    ultimately show ?thesis
      using Cons by auto
  qed
qed simp

text \<open>The first key of a source.\<close>

definition peek_key :: "peek_source \<Rightarrow> bytes option" where
  "peek_key s = map_option fst (ps_next s)"

text \<open>
  \<open>best_at idx ks best i key\<close>: \<open>key\<close> is the least of the keys \<open>ks\<close>, numbered from \<open>idx\<close>, and of the one in \<open>best\<close>, which counts as
  earlier; \<open>i\<close> is the first place that has it.
\<close>

definition best_at :: "nat \<Rightarrow> bytes option list \<Rightarrow> (nat \<times> bytes) option \<Rightarrow> nat \<Rightarrow> bytes \<Rightarrow> bool" where
  "best_at idx ks best i key \<longleftrightarrow>
     (\<forall>k. Some k \<in> set ks \<longrightarrow> key \<le> k) \<and>
     (best = Some (i, key) \<or>
      (\<exists>d < length ks. i = idx + d \<and> ks ! d = Some key \<and> (\<forall>j < d. \<forall>k. ks ! j = Some k \<longrightarrow> key < k)) \<and>
      (\<forall>j k. best = Some (j, k) \<longrightarrow> key < k))"

lemma best_at_later:
  assumes "best_at (Suc idx) ks best i key" and "k0 = None \<or> (\<exists>j k. best = Some (j, k) \<and> (\<forall>k'. k0 = Some k' \<longrightarrow> k \<le> k'))"
  shows "best_at idx (k0 # ks) best i key"
proof -
  have least: "\<forall>k. Some k \<in> set ks \<longrightarrow> key \<le> k"
    using assms(1) by (simp add: best_at_def)
  from assms(1) consider (old) "best = Some (i, key)"
    | (new) d where "d < length ks" "i = Suc idx + d" "ks ! d = Some key" "\<forall>j < d. \<forall>k. ks ! j = Some k \<longrightarrow> key < k"
        "\<forall>j k. best = Some (j, k) \<longrightarrow> key < k"
    by (auto simp: best_at_def)
  then show ?thesis
  proof cases
    case old
    then show ?thesis using least assms(2) by (auto simp: best_at_def)
  next
    case new
    have first: "key < k" if "k0 = Some k" for k
      using assms(2) new(5) that by (auto intro: less_le_trans)
    have "\<forall>j < Suc d. \<forall>k. (k0 # ks) ! j = Some k \<longrightarrow> key < k"
      using new(4) first by (auto simp: less_Suc_eq_0_disj)
    moreover have "\<forall>k. Some k \<in> set (k0 # ks) \<longrightarrow> key \<le> k"
      using least first by auto
    ultimately show ?thesis
      unfolding best_at_def using new by (intro conjI disjI2 exI [of _ "Suc d"]) simp_all
  qed
qed

lemma best_at_first:
  assumes "best_at (Suc idx) ks (Some (idx, k0)) i key" and "\<forall>j k. best = Some (j, k) \<longrightarrow> k0 < k"
  shows "best_at idx (Some k0 # ks) best i key"
proof -
  have least: "\<forall>k. Some k \<in> set ks \<longrightarrow> key \<le> k"
    using assms(1) by (simp add: best_at_def)
  from assms(1) consider (here) "i = idx" "key = k0"
    | (new) d where "d < length ks" "i = Suc idx + d" "ks ! d = Some key" "\<forall>j < d. \<forall>k. ks ! j = Some k \<longrightarrow> key < k" "key < k0"
    by (auto simp: best_at_def)
  then show ?thesis
  proof cases
    case here
    then show ?thesis using least assms(2) by (auto simp: best_at_def intro!: exI [of _ 0])
  next
    case new
    have "\<forall>j < Suc d. \<forall>k. (Some k0 # ks) ! j = Some k \<longrightarrow> key < k"
      using new(4,5) by (auto simp: less_Suc_eq_0_disj)
    moreover have "\<forall>k. Some k \<in> set (Some k0 # ks) \<longrightarrow> key \<le> k"
      using least new(5) by auto
    moreover have "\<forall>j k. best = Some (j, k) \<longrightarrow> key < k"
      using assms(2) new(5) by (auto intro: less_trans)
    ultimately show ?thesis
      unfolding best_at_def using new(1-3) by (intro conjI disjI2 exI [of _ "Suc d"]) simp_all
  qed
qed

lemma find_best_Some:
  "find_best idx ss best = Some (i, key) \<Longrightarrow> best_at idx (map peek_key ss) best i key"
proof (induction idx ss best rule: find_best.induct)
  case (1 idx best)
  then show ?case by (simp add: best_at_def)
next
  case (2 idx s ss best)
  define best' where "best' = (case ps_next s of None \<Rightarrow> best
      | Some (key, _) \<Rightarrow> (case best of None \<Rightarrow> Some (idx, key)
         | Some (i, bk) \<Rightarrow> if key < bk then Some (idx, key) else Some (i, bk)))"
  have "find_best (Suc idx) ss best' = Some (i, key)"
    using "2.prems" by (simp only: find_best.simps best'_def)
  then have IH: "best_at (Suc idx) (map peek_key ss) best' i key"
    using "2.IH" unfolding best'_def by blast
  show ?case
  proof (cases "\<exists>k. peek_key s = Some k \<and> (\<forall>j bk. best = Some (j, bk) \<longrightarrow> k < bk)")
    case True
    then obtain k where "peek_key s = Some k" "\<forall>j bk. best = Some (j, bk) \<longrightarrow> k < bk" by blast
    moreover from this have "best' = Some (idx, k)"
      by (auto simp: best'_def peek_key_def split: option.splits)
    ultimately show ?thesis
      using best_at_first IH by simp
  next
    case False
    then have "best' = best" and
      "peek_key s = None \<or> (\<exists>j k. best = Some (j, k) \<and> (\<forall>k'. peek_key s = Some k' \<longrightarrow> k \<le> k'))"
      by (cases "ps_next s"; cases best; force simp: best'_def peek_key_def not_less)+
    then show ?thesis
      using best_at_later IH by simp
  qed
qed

lemma find_best_None: "find_best idx ss best = None \<longleftrightarrow> best = None \<and> (\<forall>s \<in> set ss. ps_next s = None)"
  by (induction idx ss best rule: find_best.induct) (auto split: option.splits)

section \<open>A scan is the merge of the layers\<close>

lemma look_first:
  assumes "list_all ksorted rs" and "i < length rs" and "rs ! i \<noteq> []" and "fst (hd (rs ! i)) = key"
    and "\<And>j. j < i \<Longrightarrow> rs ! j = [] \<or> key < fst (hd (rs ! j))"
  shows "look (map map_of rs) key = Some (snd (hd (rs ! i)))"
  using assms
proof (induction rs arbitrary: i)
  case Nil
  then show ?case by simp
next
  case (Cons r rs)
  show ?case
  proof (cases i)
    case 0
    then show ?thesis using Cons.prems(3,4) by (cases r) auto
  next
    case (Suc n)
    have "r = [] \<or> key < fst (hd r)"
      using Cons.prems(5) [of 0] Suc by simp
    then have "map_of r key = None"
      using Cons.prems(1) ksorted_hd_least [of r key] by (cases "map_of r key") (fastforce dest: map_of_SomeD)+
    moreover have "look (map map_of rs) key = Some (snd (hd (rs ! n)))"
    proof (rule Cons.IH)
      fix j
      assume "j < n"
      then show "rs ! j = [] \<or> key < fst (hd (rs ! j))"
        using Cons.prems(5) [of "Suc j"] Suc by simp
    qed (use Cons.prems Suc in simp_all)
    ultimately show ?thesis
      using Suc by simp
  qed
qed

fun live_entries :: "(bytes \<times> entry) list \<Rightarrow> (bytes \<times> bytes) list" where
  "live_entries [] = []"
| "live_entries ((k, Value v) # es) = (k, v) # live_entries es"
| "live_entries ((k, Tombstone) # es) = live_entries es"

lemma live_entries_keys: "fst ` set (live_entries es) \<subseteq> fst ` set es"
  by (induction es rule: live_entries.induct) auto

lemma live_entries_spec:
  assumes "ksorted es"
  shows "ksorted (live_entries es)" and "map_of (live_entries es) k = visible (map_of es k)"
proof -
  have "ksorted (live_entries es) \<and> map_of (live_entries es) k = visible (map_of es k)"
    using assms
  proof (induction es rule: live_entries.induct)
    case (2 a v es)
    have "fst ` set (live_entries es) \<subseteq> fst ` set es" by (rule live_entries_keys)
    then show ?case using 2 by fastforce
  next
    case (3 a es)
    have "k = a \<Longrightarrow> map_of es k = None"
      using 3(2) by (auto simp: map_of_eq_None_iff)
    then show ?case using 3 by auto
  qed simp
  then show "ksorted (live_entries es)" "map_of (live_entries es) k = visible (map_of es k)" by simp_all
qed

abbreviation sources_hold :: "world \<Rightarrow> engine_iterator \<Rightarrow> (bytes \<times> entry) list list \<Rightarrow> bool" where
  "sources_hold w it rs \<equiv> list_all2 (source_holds w (ei_start it) (ei_stop it)) (ei_sources it) rs \<and> list_all ksorted rs"

text \<open>The least key, and the entry of the newest layer that has it.\<close>

lemma find_best_merge:
  assumes hold: "sources_hold w it rs" and best: "find_best 0 (ei_sources it) None = Some (i, key)"
  shows "key \<in> head_keys rs" and "key = Min (head_keys rs)"
    and "map_option snd (ps_next (ei_sources it ! i)) = look (map map_of rs) key"
proof -
  let ?ss = "ei_sources it"
  have len: "length ?ss = length rs" using hold list_all2_lengthD by blast
  have peek: "peek_key (?ss ! j) = (if rs ! j = [] then None else Some (fst (hd (rs ! j))))"
    and nxt: "ps_next (?ss ! j) = (if rs ! j = [] then None else Some (hd (rs ! j)))" if "j < length rs" for j
    using source_next [of w "ei_start it" "ei_stop it" "?ss ! j" "rs ! j"] hold that len
    by (auto simp: peek_key_def list_all2_conv_all_nth)
  have at: "best_at 0 (map peek_key ?ss) None i key"
    using best by (rule find_best_Some)
  then have i: "i < length rs" "peek_key (?ss ! i) = Some key" and first: "\<And>j k. j < i \<Longrightarrow> peek_key (?ss ! j) = Some k \<Longrightarrow> key < k"
    using len by (auto simp: best_at_def)
  then have ri: "rs ! i \<noteq> []" "fst (hd (rs ! i)) = key"
    using peek [of i] by (auto split: if_splits)
  then show mem: "key \<in> head_keys rs"
    using i(1) nth_mem unfolding head_keys_def by blast
  have "key \<le> x" if x: "x \<in> head_keys rs" for x
  proof -
    obtain j where "j < length rs" "rs ! j \<noteq> []" "x = fst (hd (rs ! j))"
      using x by (auto simp: head_keys_def in_set_conv_nth)
    then have "Some x \<in> set (map peek_key ?ss)"
      using peek [of j] len by (metis length_map nth_map nth_mem)
    then show ?thesis using at by (simp add: best_at_def)
  qed
  then show "key = Min (head_keys rs)"
    using mem by (intro Min_eqI [symmetric]) simp_all
  have "look (map map_of rs) key = Some (snd (hd (rs ! i)))"
  proof (rule look_first [OF _ i(1) ri])
    fix j
    assume "j < i"
    then show "rs ! j = [] \<or> key < fst (hd (rs ! j))"
      using first [of j] peek [of j] i(1) by (auto split: if_splits)
  qed (use hold in simp)
  then show "map_option snd (ps_next (?ss ! i)) = look (map map_of rs) key"
    using nxt [OF i(1)] ri by simp
qed

lemma engine_next_ok:
  assumes "sources_hold w it rs"
  shows "\<exists>it'. (case live_entries (merge_ref rs) of
      [] \<Rightarrow> engine_next w it = (None, it')
    | x # xs \<Rightarrow> engine_next w it = (Some (Ok x), it') \<and>
        (\<exists>rs'. sources_hold w it' rs' \<and> live_entries (merge_ref rs') = xs))"
  using assms
proof (induction rs arbitrary: it rule: merge_ref.induct)
  case (1 rs)
  show ?case
  proof (cases "find_best 0 (ei_sources it) None")
    case None
    then have "ps_next s = None" if "s \<in> set (ei_sources it)" for s
      using that by (simp add: find_best_None)
    then have "r = []" if "r \<in> set rs" for r
      using "1.prems" that source_next
      by (metis (no_types, lifting) in_set_conv_nth list_all2_conv_all_nth option.distinct(1))
    then have "merge_ref rs = []"
      by (simp add: merge_ref.simps [of rs] head_keys_empty)
    then show ?thesis
      using None by (simp add: engine_next.simps [of w it])
  next
    case (Some p)
    obtain i key where p: "p = (i, key)" by (cases p)
    note best = Some [unfolded p]
    note win = find_best_merge [OF "1.prems" best]
    have ne: "head_keys rs \<noteq> {}" using win(1) by blast
    let ?rs = "map (advance_src key) rs"
    obtain ss where adv: "advance_sources w (ei_start it) (ei_stop it) key (ei_sources it) = (Ok (), ss)"
        and hold': "list_all2 (source_holds w (ei_start it) (ei_stop it)) ss ?rs"
      using advance_sources_ok "1.prems" by blast
    let ?it = "it\<lparr>ei_sources := ss\<rparr>"
    have hold: "sources_hold w ?it ?rs"
      using hold' "1.prems" by (simp add: list_all_iff ksorted_advance)
    obtain e where e: "look (map map_of rs) key = Some e"
      using look_head [OF win(1)] by auto
    have ref: "merge_ref rs = (key, e) # merge_ref ?rs"
      using ne e by (simp add: merge_ref.simps [of rs] win(2) [symmetric] Let_def)
    show ?thesis
    proof (cases e)
      case (Value v)
      then have "engine_next w it = (Some (Ok (key, v)), ?it)"
        using best adv win(3) e by (auto simp: engine_next.simps [of w it] Let_def)
      then show ?thesis
        using ref Value hold by auto
    next
      case Tombstone
      then have "engine_next w it = engine_next w ?it"
        using best adv win(3) e by (auto simp: engine_next.simps [of w it] Let_def)
      moreover have "live_entries (merge_ref rs) = live_entries (merge_ref ?rs)"
        using ref Tombstone by simp
      ultimately show ?thesis
        using "1.IH" [OF ne win(2) hold] by (simp only:)
    qed
  qed
qed

lemma engine_collect_ok:
  assumes "sources_hold w it rs"
  shows "engine_collect w it = Ok (live_entries (merge_ref rs))"
  using assms
proof (induction "live_entries (merge_ref rs)" arbitrary: it rs)
  case Nil
  then show ?case
    using engine_next_ok [OF Nil.prems] by (auto simp: engine_collect.simps [of w it] simp flip: Nil.hyps)
next
  case (Cons x xs)
  obtain it' rs' where "engine_next w it = (Some (Ok x), it')" "sources_hold w it' rs'" "live_entries (merge_ref rs') = xs"
    using engine_next_ok [OF Cons.prems] unfolding Cons.hyps(2) [symmetric] by auto
  then show ?case
    using Cons.hyps(1) [of rs' it'] by (simp add: engine_collect.simps [of w it] flip: Cons.hyps(2))
qed

section \<open>Scanning the engine\<close>

lemma ranged_lookup: "map_of (ranged start stop es) k = (if in_range k start stop then map_of es k else None)"
  by (induction es) auto

text \<open>A source reads one file, and goes on with what that file has when it is read.\<close>

lemma sst_next_path: "sst_next w it = (r, it') \<Longrightarrow> it_path it' = it_path it"
proof (induction w it arbitrary: r rule: sst_next.induct)
  case (1 w it)
  have path: "it_path it1 = it_path it" if "load_next_block w it = (r1, it1)" for r1 it1
    using that by (auto simp: load_next_block_def Let_def andThen_case split: if_splits result.splits)
  show ?case
    using 1 path by (auto simp: sst_next.simps [of w it] split: if_splits prod.splits result.splits)
qed

lemma next_in_range_path: "next_in_range w start stop it = (r, it') \<Longrightarrow> it_path it' = it_path it"
proof (induction w start stop it arbitrary: r rule: next_in_range.induct)
  case (1 w start stop it)
  obtain r1 it1 where nxt: "sst_next w it = (r1, it1)" by fastforce
  then have "it_path it1 = it_path it" by (rule sst_next_path)
  then show ?case
    using 1(1) [OF nxt [symmetric]] 1(2) nxt
    by (auto simp: next_in_range.simps [of w start stop it] split: option.splits result.splits if_splits prod.splits)
qed

lemma source_holds_later:
  assumes "source_holds w start stop s xs" and "\<And>it. ps_rest s = RestTable it \<Longrightarrow> files w' (it_path it) = files w (it_path it)"
  shows "source_holds w' start stop s xs"
proof -
  have "it_yields w' it es" if "it_yields w it es" "files w' (it_path it) = files w (it_path it)" for it es
    using that read_data_block_cong [of w' "it_path it" w] by (auto simp: it_yields_def)
  then show ?thesis
    using assms by (auto simp: source_holds_def rest_holds_def split: list.splits source_rest.splits)
qed

lemma table_sources_ok:
  assumes "\<And>t. t \<in> set ts \<Longrightarrow> sst_ok w t"
  shows "\<exists>ss. table_sources w start stop ts = Ok ss \<and>
    (\<forall>w'. (\<forall>t \<in> set ts. files w' (sst_path t) = files w (sst_path t)) \<longrightarrow>
       list_all2 (source_holds w' start stop) ss (map (\<lambda>t. ranged start stop (sst_entries w t)) ts))"
  using assms
proof (induction ts)
  case Nil
  then show ?case by simp
next
  case (Cons t ts)
  have t: "sst_holds t (sst_entries w t) w"
    using Cons.prems by (simp add: sst_ok_def)
  obtain it where it: "sst_iter w t = Ok it" "it_yields w it (sst_entries w t)"
    using sst_iter_yields [OF t] by blast
  have path: "it_path it = sst_path t"
    using it(1) by (auto simp: sst_iter_def load_next_block_def Let_def andThen_case split: if_splits result.splits)
  obtain s where s: "from_table w it start stop = Ok s" "source_holds w start stop s (ranged start stop (sst_entries w t))"
    using from_table_ok [OF it(2) sst_ok_ksorted] Cons.prems by fastforce
  have "it_path it' = sst_path t" if "ps_rest s = RestTable it'" for it'
    using s(1) that next_in_range_path [of w start stop it] path
    by (auto simp: from_table_def split: prod.splits result.splits)
  then have "source_holds w' start stop s (ranged start stop (sst_entries w t))" if "files w' (sst_path t) = files w (sst_path t)" for w'
    using source_holds_later [OF s(2)] that by simp
  moreover obtain ss where "table_sources w start stop ts = Ok ss"
      "\<forall>w'. (\<forall>t \<in> set ts. files w' (sst_path t) = files w (sst_path t)) \<longrightarrow>
        list_all2 (source_holds w' start stop) ss (map (\<lambda>t. ranged start stop (sst_entries w t)) ts)"
    using Cons.IH Cons.prems by fastforce
  ultimately show ?case
    using it(1) s(1) by simp
qed

definition engine_layers :: "engine \<Rightarrow> world \<Rightarrow> (bytes \<times> entry) list list" where
  "engine_layers e w =
     mem_iter (eng_memtable e) # (case eng_immutable e of Some imm \<Rightarrow> [mem_iter imm] | None \<Rightarrow> []) @
     map (sst_entries w) (engine_tables e)"

lemma engine_layers_sorted:
  assumes "readable e w"
  shows "list_all ksorted (engine_layers e w)"
proof -
  have "ksorted (sst_entries w t)" if "t \<in> set (engine_tables e)" for t
    using assms that sst_ok_ksorted unfolding readable_def by blast
  then show ?thesis
    using assms by (cases "eng_immutable e")
      (auto simp: engine_layers_def readable_def mem_inv_def mem_iter_def list_all_iff)
qed

lemma engine_layers_look: "look (map map_of (engine_layers e w)) = engine_look e w"
  by (auto simp: fun_eq_iff engine_layers_def engine_look_def buffer_look_def tlook_def look_append
      mem_iter_def mem_get_def comp_def split: option.splits)

lemma look_ranged:
  "look (map map_of (map (ranged start stop) rs)) k = (if in_range k start stop then look (map map_of rs) k else None)"
  by (induction rs) (auto simp: ranged_lookup split: option.splits)

text \<open>
  The iterator gives what the database held when it was made: it may be drained later, as long as the files of the tables
  it reads are still there.
\<close>

lemma engine_scan_ok:
  assumes read: "readable e w"
  obtains it where "engine_scan start stop (e, w) = Ok it"
    and "\<forall>w'. (\<forall>t \<in> set (engine_tables e). files w' (sst_path t) = files w (sst_path t)) \<longrightarrow>
      engine_collect w' it = Ok (live_entries (merge_ref (map (ranged start stop) (engine_layers e w))))"
proof -
  let ?mems = "from_mem (eng_memtable e) start stop #
    (case eng_immutable e of Some imm \<Rightarrow> [from_mem imm start stop] | None \<Rightarrow> [])"
  have "sst_ok w t" if "t \<in> set (engine_tables e)" for t
    using read that unfolding readable_def by blast
  then obtain ss where ss: "table_sources w start stop (engine_tables e) = Ok ss"
      "\<And>w'. \<forall>t \<in> set (engine_tables e). files w' (sst_path t) = files w (sst_path t) \<Longrightarrow>
        list_all2 (source_holds w' start stop) ss (map (\<lambda>t. ranged start stop (sst_entries w t)) (engine_tables e))"
    using table_sources_ok [of "engine_tables e" w start stop] by blast
  let ?it = "\<lparr>ei_sources = ?mems @ ss, ei_start = start, ei_stop = stop\<rparr>"
  show thesis
  proof (rule that)
    show "engine_scan start stop (e, w) = Ok ?it"
      using ss(1) by (simp add: engine_scan_def tables_newest_first_def Let_def)
  next
    have "engine_collect w' ?it = Ok (live_entries (merge_ref (map (ranged start stop) (engine_layers e w))))"
      if "\<forall>t \<in> set (engine_tables e). files w' (sst_path t) = files w (sst_path t)" for w'
    proof -
      have "list_all2 (source_holds w' start stop) (?mems @ ss) (map (ranged start stop) (engine_layers e w))"
        using ss(2) [OF that] by (auto simp: engine_layers_def from_mem_ok comp_def split: option.splits)
      moreover have "list_all ksorted (map (ranged start stop) (engine_layers e w))"
        using engine_layers_sorted [OF read] by (auto simp: list_all_iff ksorted_filter)
      ultimately show ?thesis
        by (intro engine_collect_ok) simp
    qed
    then show "\<forall>w'. (\<forall>t \<in> set (engine_tables e). files w' (sst_path t) = files w (sst_path t)) \<longrightarrow>
        engine_collect w' ?it = Ok (live_entries (merge_ref (map (ranged start stop) (engine_layers e w))))"
      by blast
  qed
qed

lemma engine_scan_later:
  assumes read: "readable e w"
  obtains it rows where "engine_scan start stop (e, w) = Ok it" and "ksorted rows"
    and "\<forall>w'. (\<forall>t \<in> set (engine_tables e). files w' (sst_path t) = files w (sst_path t)) \<longrightarrow> engine_collect w' it = Ok rows"
    and "\<And>k. map_of rows k = (if in_range k start stop then engine_map e w k else None)"
proof -
  let ?rs = "map (ranged start stop) (engine_layers e w)"
  have "list_all ksorted ?rs"
    using engine_layers_sorted [OF read] by (auto simp: list_all_iff ksorted_filter)
  note m = merge_ref_spec [OF this]
  have rows: "map_of (live_entries (merge_ref ?rs)) k = (if in_range k start stop then engine_map e w k else None)" for k
    using live_entries_spec(2) [of "merge_ref ?rs" k] m look_ranged [of start stop "engine_layers e w" k]
    by (simp add: engine_layers_look engine_map_def)
  have sorted: "ksorted (live_entries (merge_ref ?rs))"
    using live_entries_spec(1) m by blast
  show thesis
    by (rule engine_scan_ok [OF read, of start stop]) (rule that [OF _ sorted _ rows])
qed

lemma engine_scan_spec:
  assumes inv: "engine_inv K n0 e w"
  obtains it rows where "engine_scan start stop (e, w) = Ok it" and "engine_collect w it = Ok rows" and "ksorted rows"
    and "\<And>k. map_of rows k = (if in_range k start stop then engine_map e w k else None)"
proof (rule engine_scan_later [OF engine_inv_readable [OF inv], of start stop])
  fix it rows
  assume scan: "engine_scan start stop (e, w) = Ok it" and sorted: "ksorted rows"
    and later: "\<forall>w'. (\<forall>t \<in> set (engine_tables e). files w' (sst_path t) = files w (sst_path t)) \<longrightarrow> engine_collect w' it = Ok rows"
    and rows: "\<And>k. map_of rows k = (if in_range k start stop then engine_map e w k else None)"
  have "engine_collect w it = Ok rows"
    using later by simp
  then show thesis
    by (rule that [OF scan _ sorted rows])
qed

end
