(* ===== verification/Engine_Run.thy ===== *)
theory Engine_Run
  imports Recovery Scan
begin

text \<open>
  Whole runs of the database. A run is any sequence of calls, rounds of the background worker, clean restarts and
  crashes; its reference is a sorted list of the live pairs that does nothing but insert, delete, look up and filter.
  Every response of the engine is shown to be the one of the reference.
\<close>

section \<open>Runs that follow a reference\<close>

text \<open>
  A system whose every step answers like its reference and costs at most two units of a resource answers like its
  reference in every run that fits the budget.
\<close>

fun run_all :: "('c \<Rightarrow> 's \<Rightarrow> 'r \<times> 's) \<Rightarrow> 'c list \<Rightarrow> 's \<Rightarrow> 'r list \<times> 's" where
  "run_all step [] s = ([], s)"
| "run_all step (c # cs) s =
     (case step c s of (r, s) \<Rightarrow> case run_all step cs s of (rs, s) \<Rightarrow> (r # rs, s))"

locale simulation =
  fixes step :: "'c \<Rightarrow> 's \<Rightarrow> 'r \<times> 's"
    and ref_step :: "'c \<Rightarrow> 'a \<Rightarrow> 'r \<times> 'a"
    and rel :: "nat \<Rightarrow> 's \<Rightarrow> 'a \<Rightarrow> bool"
    and allowed :: "'c \<Rightarrow> bool"
    and budget :: nat
  assumes step_follows: "rel n s a \<Longrightarrow> allowed c \<Longrightarrow> n + 2 < budget \<Longrightarrow>
    fst (step c s) = fst (ref_step c a) \<and> rel (n + 2) (snd (step c s)) (snd (ref_step c a))"
begin

lemma run_follows:
  "rel n s a \<Longrightarrow> list_all allowed cs \<Longrightarrow> n + 2 * length cs < budget \<Longrightarrow>
     fst (run_all step cs s) = fst (run_all ref_step cs a) \<and>
     rel (n + 2 * length cs) (snd (run_all step cs s)) (snd (run_all ref_step cs a))"
proof (induction cs arbitrary: n s a)
  case Nil
  then show ?case by simp
next
  case (Cons c cs)
  have now: "fst (step c s) = fst (ref_step c a)" "rel (n + 2) (snd (step c s)) (snd (ref_step c a))"
    using step_follows [of n s a c] Cons.prems by simp_all
  then show ?case
    using Cons.IH [OF now(2)] Cons.prems by (simp add: case_prod_beta add.commute add.left_commute)
qed

end

section \<open>Commands\<close>

text \<open>
  A crash keeps of each file what was synced and, for a file \<open>f\<close>, at least its first \<open>keep f\<close> bytes. After a clean
  close, a drop without a close and a crash the database is opened again with the same options.
\<close>

datatype command =
    CPut bytes bytes
  | CDelete bytes
  | CGet bytes
  | CScan "bytes bound" "bytes bound"
  | CFlush
  | CCompact
  | CBackground
  | CReopen
  | CDrop
  | CCrash "string \<Rightarrow> nat"

datatype response =
    RDone "unit result"
  | RValue "bytes option result"
  | RRows "(bytes \<times> bytes) list result"

definition open_again :: "options \<Rightarrow> unit result \<Rightarrow> engine \<times> world \<Rightarrow> response \<times> engine \<times> world" where
  "open_again opts r = (\<lambda>(e, w).
     case engine_open_with opts w of
       (Ok e', w') \<Rightarrow> (RDone r, e', w')
     | (Err err, w') \<Rightarrow> (RDone (Err err), e, w')
     | (Panic, w') \<Rightarrow> (RDone Panic, e, w'))"

definition crash_least :: "(string \<Rightarrow> nat) \<Rightarrow> world \<Rightarrow> string \<Rightarrow> nat" where
  "crash_least keep w f = max (durable (file_of f w)) (keep f)"

fun run_command :: "f64_math \<Rightarrow> options \<Rightarrow> command \<Rightarrow> engine \<times> world \<Rightarrow> response \<times> engine \<times> world" where
  "run_command fl opts (CPut k v) s = (case engine_put fl k v s of (r, s) \<Rightarrow> (RDone r, s))"
| "run_command fl opts (CDelete k) s = (case engine_delete fl k s of (r, s) \<Rightarrow> (RDone r, s))"
| "run_command fl opts (CGet k) s = (case engine_get k s of (r, s) \<Rightarrow> (RValue r, s))"
| "run_command fl opts (CScan start stop) s =
     (RRows (and_then (engine_scan start stop s) (engine_collect (snd s))), s)"
| "run_command fl opts CFlush s = (case engine_flush fl s of (r, s) \<Rightarrow> (RDone r, s))"
| "run_command fl opts CCompact s = (case engine_compact fl s of (r, s) \<Rightarrow> (RDone r, s))"
| "run_command fl opts CBackground s = (RDone (Ok ()), engine_background fl s)"
| "run_command fl opts CReopen s = (case engine_close fl s of (r, s) \<Rightarrow> open_again opts r (engine_drop fl s))"
| "run_command fl opts CDrop s = open_again opts (Ok ()) (engine_drop fl s)"
| "run_command fl opts (CCrash keep) s =
     (case s of (e, w) \<Rightarrow> open_again opts (Ok ()) (e, crash (crash_least keep w) w))"

section \<open>The reference\<close>

type_synonym reference = "(bytes \<times> bytes) list"

definition key_error :: "bytes \<Rightarrow> error option" where
  "key_error k = (if k = [] then Some EmptyKey else if length k > 64 * 1024 then Some KeyTooLarge else None)"

definition value_error :: "bytes \<Rightarrow> error option" where
  "value_error v = (if length v > 64 * 1024 * 1024 then Some ValueTooLarge else None)"

fun ref_command :: "command \<Rightarrow> reference \<Rightarrow> response \<times> reference" where
  "ref_command (CPut k v) kvs =
     (case key_error k of
        Some err \<Rightarrow> (RDone (Err err), kvs)
      | None \<Rightarrow>
          (case value_error v of
             Some err \<Rightarrow> (RDone (Err err), kvs)
           | None \<Rightarrow> (RDone (Ok ()), btree_insert k v kvs)))"
| "ref_command (CDelete k) kvs =
     (case key_error k of
        Some err \<Rightarrow> (RDone (Err err), kvs)
      | None \<Rightarrow> (RDone (Ok ()), filter (\<lambda>(k', _). k' \<noteq> k) kvs))"
| "ref_command (CGet k) kvs =
     (case key_error k of Some err \<Rightarrow> (RValue (Err err), kvs) | None \<Rightarrow> (RValue (Ok (map_of kvs k)), kvs))"
| "ref_command (CScan start stop) kvs = (RRows (Ok (filter (\<lambda>(k, _). in_range k start stop) kvs)), kvs)"
| "ref_command _ kvs = (RDone (Ok ()), kvs)"

text \<open>The keys a run may write.\<close>

fun written :: "command \<Rightarrow> bytes set" where
  "written (CPut k v) = {k} - {[]}"
| "written (CDelete k) = {k} - {[]}"
| "written _ = {}"

section \<open>Each command follows the reference\<close>

definition run_rel :: "f64_math \<Rightarrow> options \<Rightarrow> bytes set \<Rightarrow> nat \<Rightarrow> engine \<times> world \<Rightarrow> reference \<Rightarrow> bool" where
  "run_rel fl opts K n s kvs \<longleftrightarrow>
     (case s of (e, w) \<Rightarrow>
        engine_ok K e w \<and> eng_options e = opts \<and> eng_immutable e = None \<and> failpoint w = None \<and> id_use e \<le> n \<and>
        capacity fl opts K \<and> ksorted kvs \<and> map_of kvs = engine_map e w)"

lemma key_error_validate: "validate_key k = (case key_error k of Some err \<Rightarrow> Err err | None \<Rightarrow> Ok ())"
  by (simp add: validate_key_def key_error_def MAX_KEY_SIZE_def)

lemma value_error_validate: "validate_value v = (case value_error v of Some err \<Rightarrow> Err err | None \<Rightarrow> Ok ())"
  by (simp add: validate_value_def value_error_def MAX_VALUE_SIZE_def)

lemma run_rel_room: "run_rel fl opts K n (e, w) kvs \<Longrightarrow> n + 2 < 2 ^ 64 \<Longrightarrow> id_room (eng_shared e) \<and> id_use e < 2 ^ 64 - 1"
  by (auto simp: run_rel_def id_room_iff id_use_def next_no_def)

lemma run_rel_step:
  assumes "run_rel fl opts K n (e, w) kvs" and "good_step K m e w e' w'" and "m \<le> 2"
    and "ksorted kvs'" and "map_of kvs' = engine_map e' w'"
  shows "run_rel fl opts K (n + 2) (e', w') kvs'"
  using assms by (auto simp: run_rel_def good_step_def)

lemma run_rel_again:
  assumes rel: "run_rel fl opts K n (e, w) kvs"
    and new: "engine_open_with opts w' = (Ok e', w')" "engine_inv K n0 e' w'" "eng_options e' = opts"
      "eng_worker e' = worker_start" "eng_immutable e' = None" "next_no e' \<le> next_no e" "engine_map e' w' = engine_map e w"
    and fp: "failpoint w' = None"
  shows "open_again opts r (e0, w') = (RDone r, e', w')" and "run_rel fl opts K (n + 2) (e', w') kvs"
  using assms
  by (auto simp: run_rel_def open_again_def engine_ok_def worker_ok_def worker_start_def id_use_def)

lemma run_write:
  assumes rel: "run_rel fl opts K n (e, w) kvs" and op: "op_fits op" "fst (op_entry op) \<in> K" and n: "n + 2 < 2 ^ 64"
    and kvs': "ksorted kvs'" "map_of kvs' = (map_of kvs)(fst (op_entry op) := visible (Some (snd (op_entry op))))"
  obtains s' where "engine_write fl op (e, w) = (Ok (), s')" and "run_rel fl opts K (n + 2) s' kvs'"
proof -
  have pre: "engine_ok K e w" "eng_immutable e = None" "capacity fl (eng_options e) K" "failpoint w = None"
    "map_of kvs = engine_map e w"
    using rel by (auto simp: run_rel_def)
  obtain e' w' where "engine_write fl op (e, w) = (Ok (), e', w')" and "good_step K 2 e w e' w'"
      and "engine_map e' w' = (engine_map e w)(fst (op_entry op) := visible (Some (snd (op_entry op))))"
    using engine_write_ok [OF pre(1-3) op pre(4)] run_rel_room [OF rel n] by blast
  then show thesis
    using that run_rel_step [OF rel _ _ kvs'(1)] kvs'(2) pre(5) by auto
qed

lemma run_reopen:
  assumes rel: "run_rel fl opts K n (e, w) kvs" and good: "good_step K 0 e w e1 w1" and map1: "engine_map e1 w1 = engine_map e w"
  shows "\<exists>s'. open_again opts r (e1, w1) = (RDone r, s') \<and> run_rel fl opts K (n + 2) s' kvs"
proof -
  obtain n0 where inv: "engine_inv K n0 e1 w1"
    using good by (auto simp: good_step_def engine_ok_def)
  have len: "max_levels opts = max_levels (eng_options e1)"
    using rel good by (auto simp: run_rel_def good_step_def)
  have rel1: "run_rel fl opts K n (e1, w1) kvs"
    using rel good map1 by (auto simp: run_rel_def good_step_def)
  have fp: "failpoint w1 = None"
    using rel1 by (simp add: run_rel_def)
  show ?thesis
    by (rule engine_reopen_ok [OF inv len]) (use run_rel_again [OF rel1 _ _ _ _ _ _ _ fp] in blast)
qed

lemma engine_drop_ok:
  assumes "engine_ok K e w" and "capacity fl (eng_options e) K" and "failpoint w = None" and "id_use e < 2 ^ 64 - 1"
  obtains e' w' where "engine_drop fl (e, w) = (e', w')" and "good_step K 0 e w e' w'" and "engine_map e' w' = engine_map e w"
  by (rule engine_shutdown_ok [OF assms]) (simp add: engine_drop_def)

lemma good_step_trans: "good_step K m e w e1 w1 \<Longrightarrow> good_step K n e1 w1 e2 w2 \<Longrightarrow> good_step K (m + n) e w e2 w2"
  by (auto simp: good_step_def)

lemma ref_delete: "map_of (filter (\<lambda>(k', _). k' \<noteq> k) kvs) = (map_of kvs)(k := None)"
  by (induction kvs) (auto simp: fun_eq_iff)

lemma ref_scan: "map_of (filter (\<lambda>(k, _). in_range k start stop) kvs) k = (if in_range k start stop then map_of kvs k else None)"
  by (induction kvs) auto

text \<open>A command follows the reference from a state and a list when the responses agree and the new states are related.\<close>

definition follows :: "f64_math \<Rightarrow> options \<Rightarrow> bytes set \<Rightarrow> nat \<Rightarrow> command \<Rightarrow> engine \<times> world \<Rightarrow> reference \<Rightarrow> bool" where
  "follows fl opts K n c s kvs \<longleftrightarrow>
     fst (run_command fl opts c s) = fst (ref_command c kvs) \<and>
     run_rel fl opts K (n + 2) (snd (run_command fl opts c s)) (snd (ref_command c kvs))"

lemma run_rel_weaken: "run_rel fl opts K n s kvs \<Longrightarrow> n \<le> m \<Longrightarrow> run_rel fl opts K m s kvs"
  by (auto simp: run_rel_def)

lemma follows_writes:
  assumes rel: "run_rel fl opts K n (e, w) kvs" and n: "n + 2 < 2 ^ 64"
  shows "written (CPut k v) \<subseteq> K \<Longrightarrow> follows fl opts K n (CPut k v) (e, w) kvs"
    and "written (CDelete k) \<subseteq> K \<Longrightarrow> follows fl opts K n (CDelete k) (e, w) kvs"
proof -
  have s: "ksorted kvs"
    using rel by (simp add: run_rel_def)
  have keep: "run_rel fl opts K (n + 2) (e, w) kvs"
    using rel by (rule run_rel_weaken) simp
  show "follows fl opts K n (CPut k v) (e, w) kvs" if "written (CPut k v) \<subseteq> K"
  proof (cases "key_error k = None \<and> value_error v = None")
    case True
    then have op: "op_fits (Put k v)" "fst (op_entry (Put k v)) \<in> K"
      using that by (auto simp: key_error_def value_error_def op_fits_def record_consts split: if_splits)
    show ?thesis
      by (rule run_write [OF rel op n, of "btree_insert k v kvs"])
        (use True s in \<open>simp_all add: follows_def engine_put_def key_error_validate value_error_validate
          ksorted_btree_insert map_of_btree_insert\<close>)
  next
    case False
    then show ?thesis
      using keep by (auto simp: follows_def engine_put_def key_error_validate value_error_validate split: option.splits)
  qed
  show "follows fl opts K n (CDelete k) (e, w) kvs" if "written (CDelete k) \<subseteq> K"
  proof (cases "key_error k")
    case None
    then have op: "op_fits (Delete k)" "fst (op_entry (Delete k)) \<in> K"
      using that by (auto simp: key_error_def op_fits_def record_consts split: if_splits)
    show ?thesis
      by (rule run_write [OF rel op n, of "filter (\<lambda>(k', _). k' \<noteq> k) kvs"])
        (use None s in \<open>simp_all add: follows_def engine_delete_def key_error_validate ksorted_filter ref_delete\<close>)
  next
    case (Some err)
    then show ?thesis
      using keep by (simp add: follows_def engine_delete_def key_error_validate)
  qed
qed

lemma follows_reads:
  assumes rel: "run_rel fl opts K n (e, w) kvs"
  shows "follows fl opts K n (CGet k) (e, w) kvs" and "follows fl opts K n (CScan start stop) (e, w) kvs"
proof -
  obtain n0 where inv: "engine_inv K n0 e w" and wk: "worker_ok (eng_worker e)"
    using rel by (auto simp: run_rel_def engine_ok_def)
  have keep: "run_rel fl opts K (n + 2) (e, w) kvs"
    using rel by (rule run_rel_weaken) simp
  have kvs: "ksorted kvs" "map_of kvs = engine_map e w"
    using rel by (simp_all add: run_rel_def)
  show "follows fl opts K n (CGet k) (e, w) kvs"
  proof (cases "key_error k")
    case None
    then have valid: "validate_key k = Ok ()" by (simp add: key_error_validate)
    show ?thesis
    proof (rule engine_get_ok [OF inv valid])
      fix sh
      assume get: "engine_get k (e, w) = (Ok (engine_map e w k), e\<lparr>eng_shared := sh\<rparr>, w)"
        and after: "engine_inv K n0 (e\<lparr>eng_shared := sh\<rparr>) w" "engine_map (e\<lparr>eng_shared := sh\<rparr>) w = engine_map e w"
          "sh_manifest sh = sh_manifest (eng_shared e)"
      have "good_step K 0 e w (e\<lparr>eng_shared := sh\<rparr>) w"
        using after wk by (auto simp: good_step_def engine_ok_def id_use_def next_no_def)
      then have "run_rel fl opts K (n + 2) (e\<lparr>eng_shared := sh\<rparr>, w) kvs"
        using run_rel_step [OF rel _ _ kvs(1)] kvs(2) after(2) by simp
      then show ?thesis
        using get kvs(2) None by (simp add: follows_def)
    qed
  next
    case (Some err)
    then show ?thesis
      using keep by (simp add: follows_def engine_get_def key_error_validate)
  qed
  obtain it rows where scan: "engine_scan start stop (e, w) = Ok it" "engine_collect w it = Ok rows" "ksorted rows"
      "\<And>k. map_of rows k = (if in_range k start stop then engine_map e w k else None)"
    using engine_scan_spec [OF inv] by blast
  have "rows = filter (\<lambda>(k, _). in_range k start stop) kvs"
    using scan(3,4) kvs by (intro ksorted_map_of_eqI) (simp_all add: ksorted_filter ref_scan fun_eq_iff)
  then show "follows fl opts K n (CScan start stop) (e, w) kvs"
    using scan(1,2) keep by (simp add: follows_def)
qed

lemma follows_upkeep:
  assumes rel: "run_rel fl opts K n (e, w) kvs" and n: "n + 2 < 2 ^ 64"
  shows "follows fl opts K n CFlush (e, w) kvs" and "follows fl opts K n CCompact (e, w) kvs"
    and "follows fl opts K n CBackground (e, w) kvs"
proof -
  have pre: "engine_ok K e w" "eng_immutable e = None" "capacity fl (eng_options e) K" "failpoint w = None"
    "map_of kvs = engine_map e w" "ksorted kvs"
    using rel by (auto simp: run_rel_def)
  have room: "id_room (eng_shared e)"
    using run_rel_room [OF rel n] by simp
  note step = run_rel_step [OF rel _ _ pre(6)]
  show "follows fl opts K n CFlush (e, w) kvs"
    by (rule engine_flush_ok [OF pre(1-4) room]) (use step pre(5) in \<open>simp add: follows_def\<close>)
  show "follows fl opts K n CCompact (e, w) kvs"
    by (rule engine_compact_ok [OF pre(1,3,4) room]) (use step pre(5) in \<open>simp add: follows_def\<close>)
  obtain e' w' where bg: "engine_background fl (e, w) = (e', w')" by fastforce
  show "follows fl opts K n CBackground (e, w) kvs"
    using step engine_background_ok [OF pre(1,3,4) room bg] pre(5) bg by (simp add: follows_def)
qed

lemma follows_restarts:
  assumes rel: "run_rel fl opts K n (e, w) kvs" and n: "n + 2 < 2 ^ 64"
  shows "follows fl opts K n CReopen (e, w) kvs" and "follows fl opts K n CDrop (e, w) kvs"
    and "follows fl opts K n (CCrash keep) (e, w) kvs"
proof -
  have pre: "engine_ok K e w" "capacity fl (eng_options e) K" "failpoint w = None" "id_use e < 2 ^ 64 - 1"
    using rel run_rel_room [OF rel n] by (auto simp: run_rel_def)
  show "follows fl opts K n CReopen (e, w) kvs"
  proof (rule engine_close_ok [OF pre])
    fix e1 w1
    assume close: "engine_close fl (e, w) = (Ok (), e1, w1)" and good: "good_step K 0 e w e1 w1"
      and map1: "engine_map e1 w1 = engine_map e w"
    have "engine_ok K e1 w1" "capacity fl (eng_options e1) K" "failpoint w1 = None" "id_use e1 < 2 ^ 64 - 1"
      using good pre by (auto simp: good_step_def)
    then obtain e2 w2 where dropped: "engine_drop fl (e1, w1) = (e2, w2)" and "good_step K 0 e1 w1 e2 w2"
        and "engine_map e2 w2 = engine_map e1 w1"
      by (rule engine_drop_ok)
    then show ?thesis
      using run_reopen [OF rel, of e2 w2 "Ok ()"] good_step_trans [OF good] map1 close by (auto simp: follows_def)
  qed
  show "follows fl opts K n CDrop (e, w) kvs"
    by (rule engine_drop_ok [OF pre]) (use run_reopen [OF rel, of _ _ "Ok ()"] in \<open>force simp: follows_def\<close>)
  obtain n0 where inv: "engine_inv K n0 e w"
    using pre(1) by (auto simp: engine_ok_def)
  have keep: "crash_keeps (crash_least keep w) w"
    by (simp add: crash_keeps_def crash_least_def)
  have len: "max_levels opts = max_levels (eng_options e)"
    using rel by (simp add: run_rel_def)
  show "follows fl opts K n (CCrash keep) (e, w) kvs"
  proof (rule engine_restart_ok [OF inv keep len])
    fix e'
    assume new: "engine_open_with opts (crash (crash_least keep w) w) = (Ok e', crash (crash_least keep w) w)"
      "engine_inv K n0 e' (crash (crash_least keep w) w)" "eng_options e' = opts" "eng_worker e' = worker_start"
      "eng_immutable e' = None" "next_no e' \<le> next_no e" "engine_map e' (crash (crash_least keep w) w) = engine_map e w"
    show ?thesis
      using run_rel_again [OF rel new] by (simp add: follows_def)
  qed
qed

interpretation db: simulation "run_command fl opts" ref_command "run_rel fl opts K" "\<lambda>c. written c \<subseteq> K" "2 ^ 64"
  for fl opts K
proof unfold_locales
  fix n c s kvs
  assume "run_rel fl opts K n s kvs" "written c \<subseteq> K" "n + 2 < (2 :: nat) ^ 64"
  then have "follows fl opts K n c s kvs"
    using follows_writes follows_reads follows_upkeep follows_restarts by (cases s; cases c) metis+
  then show "fst (run_command fl opts c s) = fst (ref_command c kvs) \<and>
      run_rel fl opts K (n + 2) (snd (run_command fl opts c s)) (snd (ref_command c kvs))"
    by (simp add: follows_def)
qed

text \<open>Every run from an empty directory ends in a good state that holds the map of the reference.\<close>

lemma fresh_run:
  assumes "files w MANIFEST_FILE = None" and "files w WAL_FILE_NAME = None" and "failpoint w = None"
    and "0 < max_levels opts" and "max_levels opts \<le> 2 ^ 32"
    and "capacity fl opts K" and "(\<Union>c \<in> set cmds. written c) \<subseteq> K" and "2 * length cmds + 1 < 2 ^ 64"
  obtains e w' where "engine_open_with opts w = (Ok e, w')"
    and "fst (run_all (run_command fl opts) cmds (e, w')) = fst (run_all ref_command cmds [])"
    and "run_rel fl opts K (2 * length cmds + 1) (snd (run_all (run_command fl opts) cmds (e, w'))) (snd (run_all ref_command cmds []))"
proof -
  obtain e w' where new: "engine_open_with opts w = (Ok e, w')" "engine_ok K e w'" "eng_options e = opts"
      "eng_immutable e = None" "id_use e = 1" "failpoint w' = failpoint w" "engine_map e w' = (\<lambda>_. None)"
    using engine_open_fresh [OF assms(1,2,4,5), where K = K] by metis
  then have "run_rel fl opts K 1 (e, w') []"
    using assms(3,6) by (simp add: run_rel_def)
  moreover have "list_all (\<lambda>c. written c \<subseteq> K) cmds" "1 + 2 * length cmds < 2 ^ 64"
    using assms(7,8) by (auto simp: list_all_iff)
  ultimately show thesis
    using that db.run_follows [of fl opts K 1 "(e, w')" "[]" cmds] new(1) by (simp add: add.commute)
qed

lemma example_capacity: "K \<subseteq> {[97], [98]} \<Longrightarrow> capacity f64_example options_for_test K"
proof -
  assume K: "K \<subseteq> {[97], [98]}"
  then have "finite K" "card K \<le> card {[97 :: u8], [98]}"
    by (meson finite.emptyI finite_insert finite_subset, intro card_mono) simp_all
  then show ?thesis
    using K by (auto simp: capacity_def options_for_test_def bloom_new_def f64_example_def)
qed

lemma example_world: "files empty_world f = None" "failpoint empty_world = None"
  by (simp_all add: empty_world_def)

lemma example_options: "0 < max_levels options_for_test" "max_levels options_for_test \<le> 2 ^ 32"
  by (simp_all add: options_for_test_def)

text \<open>
  C1: the engine is an ordered map. Start it in an empty directory and run any sequence of puts, deletes, gets,
  scans, flushes, compactions, rounds of the background worker, clean restarts, drops and crashes: every response,
  rejected keys and values included, is the response of the reference map, which knows nothing of tables, logs or levels.
\<close>

theorem engine_refines_map:
  assumes "files w MANIFEST_FILE = None" and "files w WAL_FILE_NAME = None" and "failpoint w = None"
    and "0 < max_levels opts" and "max_levels opts \<le> 2 ^ 32"
    and "capacity fl opts (\<Union>c \<in> set cmds. written c)" and "2 * length cmds + 1 < 2 ^ 64"
  shows "\<exists>e w'. engine_open_with opts w = (Ok e, w') \<and>
    fst (run_all (run_command fl opts) cmds (e, w')) = fst (run_all ref_command cmds [])"
proof -
  show ?thesis
    by (rule fresh_run [OF assms(1-6) order_refl assms(7)]) blast
qed

definition example_commands :: "command list" where
  "example_commands =
     [CPut [97] [1], CFlush, CPut [97] [2], CPut [98] [3], CPut [] [4], CFlush, CBackground, CDelete [98],
      CCrash (\<lambda>_. 0), CGet [97], CGet [98], CReopen, CScan Unbounded (Excluded [99])]"

theorem engine_refines_map_witness:
  "\<exists>e w'. engine_open_with options_for_test empty_world = (Ok e, w') \<and>
     fst (run_all (run_command f64_example options_for_test) example_commands (e, w')) =
       [RDone (Ok ()), RDone (Ok ()), RDone (Ok ()), RDone (Ok ()), RDone (Err EmptyKey), RDone (Ok ()), RDone (Ok ()),
        RDone (Ok ()), RDone (Ok ()), RValue (Ok (Some [2])), RValue (Ok None), RDone (Ok ()), RRows (Ok [([97], [2])])]"
proof -
  have "capacity f64_example options_for_test (\<Union>c \<in> set example_commands. written c)"
    by (intro example_capacity) (simp add: example_commands_def)
  moreover have "2 * length example_commands + 1 < 2 ^ 64"
    by (simp add: example_commands_def)
  moreover have "fst (run_all ref_command example_commands []) =
     [RDone (Ok ()), RDone (Ok ()), RDone (Ok ()), RDone (Ok ()), RDone (Err EmptyKey), RDone (Ok ()), RDone (Ok ()),
      RDone (Ok ()), RDone (Ok ()), RValue (Ok (Some [2])), RValue (Ok None), RDone (Ok ()), RRows (Ok [([97], [2])])]"
    by (simp add: example_commands_def key_error_def value_error_def in_range_def)
  ultimately show ?thesis
    using engine_refines_map [OF example_world(1) example_world(1) example_world(2) example_options, of f64_example example_commands]
    by simp
qed

end
