(* ===== verification/Phases.thy ===== *)
theory Phases
  imports Engine_Run
begin

text \<open>
  The two threads of the database at the grain of its locks. \<^verbatim>\<open>compact_once\<close> and \<^verbatim>\<open>flush_memtable\<close> of
  \<^verbatim>\<open>src/src/engine.rs\<close> take the manifest lock and the version lock several times and hold neither while they write a
  table, so between two of these steps the other thread may run. Here both are cut at those points: \<open>pass_turn\<close> is the
  next step of a pass of the worker and \<open>call_turn\<close> the next step of a call that flushes. Run without interruption they
  are \<open>compact_once\<close> and \<open>engine_flush\<close>.

  What a thread does while it holds no lock and what it does to its own state and files is one step with what follows:
  nobody else sees it. A read keeps the version lock, so it is one step.
\<close>

section \<open>A pass of the worker\<close>

text \<open>Where the worker's thread is: waiting for a message, in a pass, or at its end.\<close>

datatype pass =
    Waiting
  | Started
  | Picked version compaction_job
  | Numbered version compaction_job u64
  | Built version compaction_job sstable
  | Recorded version compaction_job sstable
  | Installed version compaction_job
  | Returned "unit result"

definition pass_next :: "('a \<Rightarrow> pass) \<Rightarrow> 'a result \<times> 's \<Rightarrow> pass \<times> 's" where
  "pass_next f = (\<lambda>(r, s).
     (case r of Ok x \<Rightarrow> f x | Err err \<Rightarrow> Returned (Err err) | Panic \<Rightarrow> Returned Panic, s))"

fun pass_step :: "f64_math \<Rightarrow> pass \<Rightarrow> shared_state \<times> world \<Rightarrow> pass \<times> shared_state \<times> world" where
  "pass_step fl Waiting s = (Waiting, s)"
| "pass_step fl Started (sh, w) =
     (case pick_compaction (sh_version sh) (sh_options sh) of
        None \<Rightarrow> Returned (Ok ())
      | Some job \<Rightarrow> Picked (sh_version sh) job, sh, w)"
| "pass_step fl (Picked v job) s = pass_next (Numbered v job) (on_manifest man_next_table_id s)"
| "pass_step fl (Numbered v job output_id) (sh, w) =
     pass_next (\<lambda>output. Built v job (set_level (output_level job) output))
       (on_world sh (compact fl (inputs job) (table_file_name output_id) output_id
          (bloom_false_positive_rate (sh_options sh)) (opt_block_size (sh_options sh))
          (may_drop_tombstones v (sh_options sh) job) w))"
| "pass_step fl (Built v job output) s = pass_next (\<lambda>_. Recorded v job output) (compact_record job output s)"
| "pass_step fl (Recorded v job output) (sh, w) =
     pass_next (\<lambda>_. Installed v job)
       (andThen (apply_compaction job output (sh_version sh), sh, w) (\<lambda>v (sh, w). (Ok (), sh\<lparr>sh_version := v\<rparr>, w)))"
| "pass_step fl (Installed v job) (sh, w) =
     (Returned (Ok ()), sh, remove_files [v, sh_version sh] (inputs job) w)"
| "pass_step fl (Returned r) s = (Returned r, s)"

definition pass_turn :: "f64_math \<Rightarrow> pass \<times> shared_state \<times> world \<Rightarrow> pass \<times> shared_state \<times> world" where
  "pass_turn fl = (\<lambda>(p, s). pass_step fl p s)"

text \<open>
  One turn of the worker's thread: take the next message, go on with the pass, or note how it ended and
  wait again. The pass runs on its own thread, where no failpoint is set.
\<close>

definition worker_turn :: "f64_math \<Rightarrow> engine \<times> world \<times> pass \<Rightarrow> engine \<times> world \<times> pass" where
  "worker_turn fl = (\<lambda>(e, w, p).
     case p of
       Waiting \<Rightarrow>
         (let c = eng_worker e in
          if \<not> alive c then (e, w, Waiting)
          else case pending c of
            [] \<Rightarrow> (e, w, Waiting)
          | Shutdown # msgs \<Rightarrow> (e\<lparr>eng_worker := c\<lparr>pending := [], alive := False\<rparr>\<rparr>, w, Waiting)
          | Compact # msgs \<Rightarrow> (e\<lparr>eng_worker := c\<lparr>pending := msgs\<rparr>\<rparr>, w, Started))
     | Returned r \<Rightarrow>
         (case r of
            Ok _ \<Rightarrow> (e, w, Waiting)
          | Err err \<Rightarrow> (e\<lparr>eng_shared := (eng_shared e)\<lparr>last_error := Some (error_display err)\<rparr>\<rparr>, w, Waiting)
          | Panic \<Rightarrow> (e\<lparr>eng_worker := (eng_worker e)\<lparr>pending := [], alive := False, panicked := True\<rparr>\<rparr>, w, Waiting))
     | _ \<Rightarrow>
         (case off_thread (pass_step fl p) (eng_shared e, w) of (p, sh, w) \<Rightarrow> (e\<lparr>eng_shared := sh\<rparr>, w, p)))"

section \<open>A call that writes\<close>

text \<open>Where such a call is: in one of the steps of the flush, or back with a result.\<close>

datatype call =
    Frozen "(bytes \<times> entry) list"
  | Named "(bytes \<times> entry) list" u64
  | Created u64 sstable
  | Listed sstable
  | Inserted
  | Truncated
  | Finished "unit result"

definition call_next :: "('a \<Rightarrow> call) \<Rightarrow> 'a result \<times> 's \<Rightarrow> call \<times> 's" where
  "call_next f = (\<lambda>(r, s).
     (case r of Ok x \<Rightarrow> f x | Err err \<Rightarrow> Finished (Err err) | Panic \<Rightarrow> Finished Panic, s))"

definition flush_begin :: "engine \<times> world \<Rightarrow> call \<times> engine \<times> world" where
  "flush_begin = (\<lambda>(e, w).
     if mem_is_empty (eng_memtable e) then call_next (\<lambda>_. Truncated) (on_world e (wal_sync (eng_wal e) w))
     else case freeze_memtable e of (snapshot, e) \<Rightarrow> (Frozen snapshot, e, w))"

definition write_begin :: "operation \<Rightarrow> engine \<times> world \<Rightarrow> call \<times> engine \<times> world" where
  "write_begin op = (\<lambda>(e, w).
     case andThen (on_world e (wal_append (eng_wal e) op w)) (\<lambda>_ (e, w). on_world e (wal_sync (eng_wal e) w)) of
       (Ok _, e, w) \<Rightarrow>
         let e = e\<lparr>eng_memtable := apply_operation op (eng_memtable e)\<rparr> in
         if approximate_size (eng_memtable e) \<ge> memtable_size_bytes (eng_options e)
         then flush_begin (e, w) else (Finished (Ok ()), e, w)
     | (Err err, s) \<Rightarrow> (Finished (Err err), s)
     | (Panic, s) \<Rightarrow> (Finished Panic, s))"

text \<open>The calls of the user up to the first point where the worker can be noticed.\<close>

definition call_after :: "unit result \<Rightarrow> (engine \<times> world \<Rightarrow> call \<times> engine \<times> world) \<Rightarrow> engine \<times> world \<Rightarrow> call \<times> engine \<times> world" where
  "call_after r f s =
     (case r of Ok _ \<Rightarrow> f s | Err err \<Rightarrow> (Finished (Err err), s) | Panic \<Rightarrow> (Finished Panic, s))"

definition put_begin :: "bytes \<Rightarrow> bytes \<Rightarrow> engine \<times> world \<Rightarrow> call \<times> engine \<times> world" where
  "put_begin key v = call_after (validate_key key) (call_after (validate_value v) (write_begin (Put key v)))"

definition delete_begin :: "bytes \<Rightarrow> engine \<times> world \<Rightarrow> call \<times> engine \<times> world" where
  "delete_begin key = call_after (validate_key key) (write_begin (Delete key))"

definition call_step :: "f64_math \<Rightarrow> call \<Rightarrow> engine \<times> world \<Rightarrow> call \<times> engine \<times> world" where
  "call_step fl c = (\<lambda>(e, w).
     case c of
       Frozen snapshot \<Rightarrow> call_next (Named snapshot) (on_shared (on_manifest man_next_table_id) (e, w))
     | Named snapshot tid \<Rightarrow>
         call_next (Created tid) (on_world e (sst_create fl (table_file_name tid) tid snapshot
           (bloom_false_positive_rate (eng_options e)) (opt_block_size (eng_options e)) w))
     | Created tid table \<Rightarrow>
         call_next (\<lambda>_. Listed table) (on_shared (on_manifest (man_add_table tid 0)) (e, w))
     | Listed table \<Rightarrow>
         (case levels (sh_version (eng_shared e)) of
            [] \<Rightarrow> (Finished Panic, e, w)
          | l0 # ls \<Rightarrow>
              let v = (sh_version (eng_shared e))\<lparr>levels := (table # l0) # ls\<rparr>
              in (Inserted, e\<lparr>eng_shared := (eng_shared e)\<lparr>sh_version := v\<rparr>\<rparr>, w))
     | Inserted \<Rightarrow>
         call_next (\<lambda>_. Truncated)
           (andThen (on_world e (wal_truncate (eng_wal e) w)) (\<lambda>_ (e, w). (Ok (), e\<lparr>eng_immutable := None\<rparr>, w)))
     | Truncated \<Rightarrow> (Finished (Ok ()), maybe_request_compaction e, w)
     | Finished r \<Rightarrow> (Finished r, e, w))"

definition call_turn :: "f64_math \<Rightarrow> call \<times> engine \<times> world \<Rightarrow> call \<times> engine \<times> world" where
  "call_turn fl = (\<lambda>(c, s). call_step fl c s)"

section \<open>Without interruption\<close>

lemma pass_returned [simp]: "(pass_turn fl ^^ n) (Returned r, s) = (Returned r, s)"
  by (induction n) (simp_all add: pass_turn_def)

lemma pass_turns_next:
  "(pass_turn fl ^^ n) (pass_next f m) =
     (case m of (r, s) \<Rightarrow> case r of Ok x \<Rightarrow> (pass_turn fl ^^ n) (f x, s)
      | Err err \<Rightarrow> (Returned (Err err), s) | Panic \<Rightarrow> (Returned Panic, s))"
  by (cases m) (simp add: pass_next_def split: result.split)

lemma pass_turns_compact_once:
  "(pass_turn fl ^^ 6) (Started, s) = (case compact_once fl s of (r, s) \<Rightarrow> (Returned r, s))"
proof -
  have turn: "(pass_turn fl ^^ Suc n) (p, s) = (pass_turn fl ^^ n) (pass_step fl p s)" for n p s
    by (simp add: funpow_swap1 pass_turn_def)
  have six: "6 = Suc (Suc (Suc (Suc (Suc (Suc 0)))))"
    by simp
  show ?thesis
    by (cases s) (simp add: six turn pass_turns_next compact_once_def compact_output_def compact_install_def on_world_def
        andThen_case Let_def split: option.split result.split prod.split del: funpow.simps)
qed

lemma call_finished [simp]: "(call_turn fl ^^ n) (Finished r, s) = (Finished r, s)"
  by (induction n) (simp_all add: call_turn_def call_step_def case_prod_beta)

lemma call_turns_next:
  "(call_turn fl ^^ n) (call_next f m) =
     (case m of (r, s) \<Rightarrow> case r of Ok x \<Rightarrow> (call_turn fl ^^ n) (f x, s)
      | Err err \<Rightarrow> (Finished (Err err), s) | Panic \<Rightarrow> (Finished Panic, s))"
  by (cases m) (simp add: call_next_def split: result.split)

lemma call_turns_flush:
  "(call_turn fl ^^ 6) (flush_begin s) = (case engine_flush fl s of (r, s) \<Rightarrow> (Finished r, s))"
proof -
  have turn: "(call_turn fl ^^ Suc n) (c, s) = (call_turn fl ^^ n) (call_step fl c s)" for n c s
    by (simp add: funpow_swap1 call_turn_def)
  have six: "6 = Suc (Suc (Suc (Suc (Suc (Suc 0)))))"
    by simp
  show ?thesis
    by (cases s) (simp add: six turn call_turns_next flush_begin_def engine_flush_def flush_memtable_def flush_table_def
        flush_install_def call_step_def on_world_def andThen_case Let_def split: list.split result.split prod.split del: funpow.simps)
qed

lemma call_turns_write:
  "(call_turn fl ^^ 6) (write_begin op s) = (case engine_write fl op s of (r, s) \<Rightarrow> (Finished r, s))"
  by (cases s) (simp add: write_begin_def engine_write_def call_turns_flush andThen_case Let_def split: result.split prod.split)

lemma call_turns_put:
  "(call_turn fl ^^ 6) (put_begin key v s) = (case engine_put fl key v s of (r, s) \<Rightarrow> (Finished r, s))"
  "(call_turn fl ^^ 6) (delete_begin key s) = (case engine_delete fl key s of (r, s) \<Rightarrow> (Finished r, s))"
  by (simp_all add: put_begin_def delete_begin_def engine_put_def engine_delete_def call_after_def call_turns_write andThen_case
      split: result.split)

end
