(* ===== verification/Interleave_Inv.thy ===== *)
theory Interleave_Inv
  imports Phases
begin

text \<open>
  What holds between any two steps of the two threads. The version in memory and the one the manifest lists may
  differ while a flush or a pass is on its way: \<open>listed\<close> is the version of the manifest. Ids that were handed out but are
  not listed yet are \<open>reserved\<close>, tables that were written but are not listed yet are \<open>in flight\<close>.
\<close>

section \<open>Newer tables in front of L0\<close>

definition newer :: "sstable list \<Rightarrow> version \<Rightarrow> version" where
  "newer ns v = v\<lparr>levels := (ns @ hd (levels v)) # tl (levels v)\<rparr>"

lemma levels_newer [simp]: "levels (newer ns v) = (ns @ hd (levels v)) # tl (levels v)"
  by (simp add: newer_def)

lemma newer_newer [simp]: "newer ms (newer ns v) = newer (ms @ ns) v"
  by (simp add: newer_def)

lemma newer_Nil: "levels v \<noteq> [] \<Longrightarrow> newer [] v = v"
  by (cases v) (simp add: newer_def)

lemma concat_newer: "levels v \<noteq> [] \<Longrightarrow> concat (levels (newer ns v)) = ns @ concat (levels v)"
  by (cases "levels v") simp_all

lemma set_newer [simp]: "levels v \<noteq> [] \<Longrightarrow> set (concat (levels (newer ns v))) = set ns \<union> set (concat (levels v))"
  by (simp add: concat_newer del: levels_newer)

lemma length_newer: "levels v \<noteq> [] \<Longrightarrow> length (levels (newer ns v)) = length (levels v)"
  by (cases "levels v") simp_all

text \<open>A compaction into a level above L0 does not see tables that are not its inputs.\<close>

lemma apply_compaction_newer:
  assumes "apply_compaction job ot v = Ok v'" and "1 < length (levels v)" and "0 < output_level job"
    and "\<And>t. t \<in> set ns \<Longrightarrow> sst_id t \<notin> sst_id ` set (inputs job)"
  shows "apply_compaction job ot (newer ns v) = Ok (newer ns v')"
proof -
  obtain l0 l1 ls where v: "levels v = l0 # l1 # ls"
    using assms(2) by (cases "levels v"; cases "tl (levels v)") auto
  have ns: "filter (\<lambda>t. sst_id t \<notin> sst_id ` set (inputs job)) ns = ns"
    using assms(4) by (simp add: filter_id_conv)
  obtain d where d: "min (output_level job) (length (levels v) - 1) = Suc d"
    using assms(2,3) by (cases "min (output_level job) (length (levels v) - 1)") (auto simp: min_def split: if_splits)
  show ?thesis
    using assms(1) d v by (auto simp: apply_compaction_def newer_def Let_def index_def ns split: if_splits)
qed

lemma version_ok_newer:
  assumes "levels v \<noteq> []"
  shows "version_ok w (newer ns v) \<longleftrightarrow>
    list_all (sst_ok w) ns \<and> distinct (map sst_id ns) \<and> sst_id ` set ns \<inter> sst_id ` set (concat (levels v)) = {} \<and> version_ok w v"
proof -
  have c: "concat (levels (newer ns v)) = ns @ concat (levels v)" and d: "drop 1 (levels (newer ns v)) = drop 1 (levels v)"
    using assms by (simp_all add: concat_newer drop_Suc del: levels_newer) (simp add: drop_Suc)
  show ?thesis
    unfolding version_ok_def c d by auto
qed

lemma disjoint_insert: "A \<inter> C = {} \<Longrightarrow> x \<notin> A \<Longrightarrow> B \<subseteq> insert x C \<Longrightarrow> A \<inter> B = {}"
  by blast

lemma pick_above_L0:
  assumes "pick_compaction v opts = Some job" and "length (levels v) = max_levels opts" and "1 < max_levels opts"
  shows "0 < output_level job"
  using assms(1,2)
proof (cases rule: pick_compaction_shape)
  case (one X)
  then show ?thesis using assms(2,3) by simp
next
  case (two pre X Y rest XI YI s l)
  then show ?thesis by (simp add: two_level_job_def)
qed

text \<open>The job was picked from an older version, to which only newer tables came since.\<close>

lemma compaction_newer:
  assumes v: "v = newer ns v0" and vok: "version_ok w v" and len: "length (levels v) = max_levels opts" "1 < max_levels opts"
    and pick: "pick_compaction v0 opts = Some job" and out: "job_output w v0 opts job ot"
    and fresh: "sst_id ot \<notin> sst_id ` set (concat (levels v))"
  obtains v' where "apply_compaction job ot v = Ok v'" and "version_ok w v'" and "length (levels v') = length (levels v)"
    and "\<And>k. visible (tlook w (concat (levels v')) k) = visible (tlook w (concat (levels v)) k)"
    and "set (concat (levels v')) \<subseteq> insert ot (set (concat (levels v)))"
proof -
  have ne: "levels v0 \<noteq> []"
    using pick by (auto simp: pick_compaction_def split: list.splits)
  have len0: "length (levels v0) = max_levels opts"
    using len(1) length_newer [OF ne, of ns] v by simp
  have parts: "list_all (sst_ok w) ns" "distinct (map sst_id ns)"
      "sst_id ` set ns \<inter> sst_id ` set (concat (levels v0)) = {}" "version_ok w v0"
    using vok version_ok_newer [OF ne, of w ns] v by simp_all
  obtain v0' where v0': "apply_compaction job ot v0 = Ok v0'" "version_ok w v0'" "length (levels v0') = length (levels v0)"
      "\<And>k. visible (tlook w (concat (levels v0')) k) = visible (tlook w (concat (levels v0)) k)"
      "set (concat (levels v0')) \<subseteq> insert ot (set (concat (levels v0)))"
    by (rule compaction_sound [OF parts(4) len0 pick out]) (rule that)
  have ne': "levels v0' \<noteq> []"
    using v0'(3) ne by auto
  have "set (inputs job) \<subseteq> set (concat (levels v0))"
    by (rule pick_inputs_subset [OF parts(4) len0 pick])
  then have noin: "sst_id t \<notin> sst_id ` set (inputs job)" if "t \<in> set ns" for t
    using that parts(3) by blast
  have ot: "sst_id ot \<notin> sst_id ` set ns"
    using fresh unfolding v set_newer [OF ne] by blast
  show ?thesis
  proof (rule that)
    have "1 < length (levels v0)"
      using len0 len(2) by simp
    then show "apply_compaction job ot v = Ok (newer ns v0')"
      unfolding v by (rule apply_compaction_newer [OF v0'(1) _ pick_above_L0 [OF pick len0 len(2)]]) (rule noin)
    have "sst_id ` set (concat (levels v0')) \<subseteq> insert (sst_id ot) (sst_id ` set (concat (levels v0)))"
      using image_mono [OF v0'(5), of sst_id] by (simp only: image_insert)
    then have "sst_id ` set ns \<inter> sst_id ` set (concat (levels v0')) = {}"
      by (rule disjoint_insert [OF parts(3) ot])
    then show "version_ok w (newer ns v0')"
      using version_ok_newer [OF ne'] parts v0'(2) by blast
    show "length (levels (newer ns v0')) = length (levels v)"
      using v0'(3) length_newer [OF ne] length_newer [OF ne'] v by simp
    show "visible (tlook w (concat (levels (newer ns v0'))) k) = visible (tlook w (concat (levels v)) k)" for k
      unfolding v concat_newer [OF ne] concat_newer [OF ne'] tlook_append by (simp add: v0'(4) split: option.split)
    show "set (concat (levels (newer ns v0'))) \<subseteq> insert ot (set (concat (levels v)))"
      unfolding v set_newer [OF ne] set_newer [OF ne'] using v0'(5) by blast
  qed
qed

section \<open>The shared state in the middle of a flush and of a pass\<close>

abbreviation tables_of :: "version \<Rightarrow> sstable set" where
  "tables_of v \<equiv> set (concat (levels v))"

text \<open>A step that keeps the files of the tables in \<open>T\<close>.\<close>

definition kept :: "sstable set \<Rightarrow> world \<Rightarrow> world \<Rightarrow> bool" where
  "kept T w w' \<longleftrightarrow> (\<forall>t \<in> T. files w' (table_file_name (sst_id t)) = files w (table_file_name (sst_id t)))"

definition good_table :: "bytes set \<Rightarrow> world \<Rightarrow> sstable \<Rightarrow> bool" where
  "good_table K w t \<longleftrightarrow> sst_ok w t \<and> table_at K w (sst_level t) t"

text \<open>
  The tables \<open>A\<close> are those of the version in memory and of the version \<open>L\<close> the manifest lists. No id in \<open>I\<close> is used
  by them or by a cached block, and the tables in \<open>T\<close> have ids in \<open>I\<close>.
\<close>

definition mid_store :: "sstable set \<Rightarrow> u64 set \<Rightarrow> manifest \<Rightarrow> world \<Rightarrow> block_key \<Rightarrow> block_data \<Rightarrow> bool" where
  "mid_store A I m w k b \<longleftrightarrow> block_store A w k b \<and> key_table_id k < next_table_id m \<and> key_table_id k \<notin> I"

definition mid_tables :: "version \<Rightarrow> version \<Rightarrow> sstable set" where
  "mid_tables L v = tables_of v \<union> tables_of L"

definition mid_inv ::
  "bytes set \<Rightarrow> u64 \<Rightarrow> u64 set \<Rightarrow> sstable set \<Rightarrow> version \<Rightarrow> shared_state \<Rightarrow> world \<Rightarrow> bool" where
  "mid_inv K n0 I T L sh w \<longleftrightarrow>
     disk_inv K n0 (sh_manifest sh) L w \<and> version_ok w (sh_version sh) \<and> levels_at K w (sh_version sh) \<and>
     length (levels (sh_version sh)) = max_levels (sh_options sh) \<and> length (levels L) = max_levels (sh_options sh) \<and>
     inj_on sst_id (mid_tables L (sh_version sh)) \<and> (\<forall>t \<in> mid_tables L (sh_version sh). sst_id t < n0) \<and>
     (\<forall>i \<in> I. i < n0 \<and> i \<notin> sst_id ` mid_tables L (sh_version sh)) \<and>
     (\<forall>t \<in> T. good_table K w t \<and> sst_id t \<in> I) \<and>
     block_cache.coherent (mid_store (mid_tables L (sh_version sh)) I (sh_manifest sh) w) (sh_cache sh)"

lemma mid_invD:
  assumes "mid_inv K n0 I T L sh w"
  shows "disk_inv K n0 (sh_manifest sh) L w" and "version_ok w (sh_version sh)" and "levels_at K w (sh_version sh)"
    and "length (levels (sh_version sh)) = max_levels (sh_options sh)" and "length (levels L) = max_levels (sh_options sh)"
    and "inj_on sst_id (mid_tables L (sh_version sh))" and "t \<in> mid_tables L (sh_version sh) \<Longrightarrow> sst_id t < n0"
    and "i \<in> I \<Longrightarrow> i < n0" and "i \<in> I \<Longrightarrow> i \<notin> sst_id ` mid_tables L (sh_version sh)"
    and "t \<in> T \<Longrightarrow> good_table K w t" and "t \<in> T \<Longrightarrow> sst_id t \<in> I"
    and "block_cache.coherent (mid_store (mid_tables L (sh_version sh)) I (sh_manifest sh) w) (sh_cache sh)"
  using assms by (simp_all add: mid_inv_def)

lemma mid_good:
  assumes "mid_inv K n0 I T L sh w" and "t \<in> mid_tables L (sh_version sh)"
  shows "good_table K w t"
proof -
  have good: "good_table K w t" if "version_ok w v" "levels_at K w v" "t \<in> tables_of v" for v
    using live_table_at [OF that(2,3)] that(1,3) by (auto simp: good_table_def version_ok_def list_all_iff table_at_def)
  show ?thesis
    using assms(2) good [OF mid_invD(2,3) [OF assms(1)]] good [of L] mid_invD(1) [OF assms(1)]
    unfolding mid_tables_def disk_inv_def by blast
qed

lemma kept_mono: "kept T w w' \<Longrightarrow> S \<subseteq> T \<Longrightarrow> kept S w w'"
  by (auto simp: kept_def)

lemma kept_same_tables: "kept T w w' \<Longrightarrow> tables_of v \<subseteq> T \<Longrightarrow> same_tables v w w'"
  by (auto simp: kept_def same_tables_def)

lemma kept_good:
  assumes "good_table K w t" and "kept T w w'" and "t \<in> T"
  shows "good_table K w' t" and "sst_entries w' t = sst_entries w t"
  using assms table_at_cong [of K w "sst_level t" t w'] by (auto simp: good_table_def kept_def)

lemma kept_store:
  assumes "block_store A w k b" and "kept A w w'" and "\<And>t. t \<in> A \<Longrightarrow> good_table K w t"
  shows "block_store A w' k b"
  unfolding block_store_def
proof (intro ballI impI)
  fix t x
  assume t: "t \<in> A" and x: "x \<in> set (sst_index t)" "sst_id t = key_table_id k" "ie_offset x = key_offset k"
  then have "read_data_block (sst_path t) (ie_offset x) (ie_length x) w = Ok b"
    using assms(1) by (simp add: block_store_def)
  moreover have "files w' (sst_path t) = files w (sst_path t)"
    using assms(2) assms(3) [OF t] t by (simp add: kept_def good_table_def table_at_def)
  ultimately show "read_data_block (sst_path t) (ie_offset x) (ie_length x) w' = Ok b"
    using read_data_block_cong [of w "sst_path t" w'] by simp
qed

text \<open>
  How the state may move: the files of all tables stay, the new tables \<open>N\<close> have reserved ids, ids are handed out in
  order, and the cache is left alone.
\<close>

lemma mid_step:
  assumes inv: "mid_inv K n0 I T L sh w" and kept: "kept (mid_tables L (sh_version sh)) w w'"
    and disk: "disk_inv K n1 (sh_manifest sh') L' w'"
    and v': "version_ok w' (sh_version sh')" "levels_at K w' (sh_version sh')"
    and len: "length (levels (sh_version sh')) = max_levels (sh_options sh)" "length (levels L') = max_levels (sh_options sh)"
    and sub: "mid_tables L' (sh_version sh') \<subseteq> mid_tables L (sh_version sh) \<union> N"
    and new: "inj_on sst_id N" "sst_id ` N \<subseteq> I - I'"
    and ids: "I' \<subseteq> I \<union> {i. next_table_id (sh_manifest sh) \<le> i}" "\<And>i. i \<in> I' \<Longrightarrow> i < n1" "n0 \<le> n1"
    and tabs: "\<And>t. t \<in> T' \<Longrightarrow> good_table K w' t \<and> sst_id t \<in> I'"
    and nxt: "next_table_id (sh_manifest sh) \<le> next_table_id (sh_manifest sh')"
    and rest: "sh_options sh' = sh_options sh" "sh_cache sh' = sh_cache sh"
  shows "mid_inv K n1 I' T' L' sh' w'"
proof -
  let ?A = "mid_tables L (sh_version sh)" and ?A' = "mid_tables L' (sh_version sh')"
  let ?m = "sh_manifest sh" and ?m' = "sh_manifest sh'"
  have nA: "sst_id t < n0" if "t \<in> ?A \<union> N" for t
    using that mid_invD(7,8) [OF inv] new(2) by blast
  have n0: "n0 \<le> next_table_id ?m"
    using inv by (simp add: mid_inv_def disk_inv_def man_at_def)
  have sep: "sst_id a \<noteq> sst_id b" if "a \<in> ?A" "b \<in> N" for a b
    using that mid_invD(9) [OF inv] new(2) by blast
  have inj: "inj_on sst_id (?A \<union> N)"
    using mid_invD(6) [OF inv] new(1) sep by (auto simp: inj_on_Un)
  have fresh: "i \<notin> sst_id ` (?A \<union> N)" if i: "i \<in> I'" for i
  proof (cases "i \<in> I")
    case True
    then show ?thesis using mid_invD(9) [OF inv True] new(2) i by blast
  next
    case False
    then have "n0 \<le> i" using ids(1) i n0 by auto
    then show ?thesis using nA by fastforce
  qed
  have "mid_store ?A' I' ?m' w' k b" if "mid_store ?A I ?m w k b" for k b
  proof -
    have k: "block_store ?A w k b" "key_table_id k < next_table_id ?m" "key_table_id k \<notin> I"
      using that by (simp_all add: mid_store_def)
    have old: "block_store ?A w' k b"
      by (rule kept_store [OF k(1) kept mid_good [OF inv]])
    have "block_store ?A' w' k b"
      unfolding block_store_def
    proof (intro ballI impI)
      fix t x
      assume t: "t \<in> ?A'" and x: "x \<in> set (sst_index t)" "sst_id t = key_table_id k" "ie_offset x = key_offset k"
      have "t \<notin> N"
        using x(2) k(3) new(2) by auto
      then have "t \<in> ?A" using t sub by blast
      then show "read_data_block (sst_path t) (ie_offset x) (ie_length x) w' = Ok b"
        using old x by (simp add: block_store_def)
    qed
    moreover have "key_table_id k \<notin> I'"
      using k(2,3) ids(1) by fastforce
    ultimately show ?thesis
      using k(2) nxt by (simp add: mid_store_def)
  qed
  then have "block_cache.coherent (mid_store ?A' I' ?m' w') (sh_cache sh')"
    using mid_invD(12) [OF inv] block_cache.coherent_mono rest(2) by metis
  moreover have "inj_on sst_id ?A'"
    using inj sub by (rule inj_on_subset)
  moreover have "sst_id t < n1" if "t \<in> ?A'" for t
    using nA [of t] sub that ids(3) by (auto intro: less_le_trans)
  moreover have "i \<notin> sst_id ` ?A'" if "i \<in> I'" for i
    using fresh [OF that] sub by blast
  ultimately show ?thesis
    using disk v' len ids(2) tabs rest(1) by (simp add: mid_inv_def)
qed

section \<open>The steps\<close>

lemma kept_ok:
  assumes inv: "mid_inv K n0 I T L sh w" and kept: "kept (mid_tables L (sh_version sh)) w w'"
  shows "version_ok w' (sh_version sh)" and "levels_at K w' (sh_version sh)" and "version_ok w' L" and "levels_at K w' L"
proof -
  have "same_tables (sh_version sh) w w'" "same_tables L w w'"
    by (rule kept_same_tables [OF kept], simp add: mid_tables_def)+
  then show "version_ok w' (sh_version sh)" "levels_at K w' (sh_version sh)" "version_ok w' L" "levels_at K w' L"
    using same_tables_ok mid_invD(1-3) [OF inv] unfolding disk_inv_def by blast+
qed

text \<open>Other files change.\<close>

lemma mid_world:
  assumes inv: "mid_inv K n0 I T L sh w" and kept: "kept (mid_tables L (sh_version sh) \<union> T) w w'"
    and man: "files w' MANIFEST_FILE = files w MANIFEST_FILE"
  shows "mid_inv K n0 I T L sh w'"
proof -
  have kept': "kept (mid_tables L (sh_version sh)) w w'"
    using kept by (rule kept_mono) simp
  note ok = kept_ok [OF inv kept']
  have disk: "disk_inv K n0 (sh_manifest sh) L w'"
    using mid_invD(1) [OF inv] ok(3,4) man_at_cong [OF _ man] by (simp add: disk_inv_def)
  show ?thesis
    by (rule mid_step [OF inv kept' disk ok(1,2), where N = "{}"])
      (use mid_invD(4,5,8) [OF inv] kept_good(1) [OF mid_invD(10) [OF inv] kept] mid_invD(11) [OF inv] in auto)
qed

text \<open>An id is handed out.\<close>

lemma mid_number:
  assumes inv: "mid_inv K n0 I T L sh w" and fp: "failpoint w \<noteq> Some ManifestWrite" and room: "id_room sh"
    and tid: "tid = next_table_id (sh_manifest sh)"
  obtains sh' w' where "on_manifest man_next_table_id (sh, w) = (Ok tid, sh', w')"
    and "sh' = sh\<lparr>sh_manifest := (sh_manifest sh)\<lparr>next_table_id := tid + 1\<rparr>\<rparr>"
    and "mid_inv K (tid + 1) (insert tid I) T L sh' w'" and "tid \<notin> I" and "changes {MANIFEST_FILE} w w'"
proof -
  let ?m = "sh_manifest sh"
  let ?sh = "sh\<lparr>sh_manifest := ?m\<lparr>next_table_id := tid + 1\<rparr>\<rparr>"
  have disk: "disk_inv K n0 ?m L w" and at: "man_at n0 ?m w"
    using mid_invD(1) [OF inv] by (simp_all add: disk_inv_def)
  obtain w' where w': "man_next_table_id (?m, w) = (Ok tid, ?m\<lparr>next_table_id := tid + 1\<rparr>, w')"
      "man_at (tid + 1) (?m\<lparr>next_table_id := tid + 1\<rparr>) w'" "changes {MANIFEST_FILE} w w'"
    using man_at_next_id [OF at fp] room tid by metis
  have keptx: "kept X w w'" for X
    using w'(3) by (simp add: kept_def changes_def)
  note ok = kept_ok [OF inv keptx]
  have n0: "n0 \<le> tid" and up: "tid < tid + 1"
    using at room tid by (simp_all add: man_at_def)
  have new: "tid \<notin> I"
    using mid_invD(8) [OF inv, of tid] n0 by auto
  have low: "i < tid + 1" if "i \<in> I" for i
    using mid_invD(8) [OF inv that] n0 up by (meson less_le_trans less_trans)
  have disk': "disk_inv K (tid + 1) (sh_manifest ?sh) L w'"
    using disk_inv_next [OF disk _ w'(2)] keptx [of "tables_of L"] by (simp add: same_tables_def kept_def)
  have "mid_inv K (tid + 1) (insert tid I) T L ?sh w'"
    by (rule mid_step [OF inv keptx disk', where N = "{}"])
      (use ok mid_invD(4,5) [OF inv] low n0 up tid kept_good(1) [OF mid_invD(10) [OF inv] keptx]
        mid_invD(11) [OF inv] in auto)
  then show ?thesis
    using w'(1,3) new by (intro that [OF _ refl]) (simp_all add: on_manifest_def)
qed

text \<open>The file of a reserved id is written.\<close>

lemma mid_create:
  assumes inv: "mid_inv K n0 I T L sh w" and tid: "tid \<in> I" "\<And>t. t \<in> T \<Longrightarrow> sst_id t \<noteq> tid"
    and cap: "capacity fl opts K" and es: "ksorted es" "layer_ok K (map_of es)" and fp: "failpoint w \<notin> table_faults"
  obtains t w' where
    "sst_create fl (table_file_name tid) tid es (bloom_false_positive_rate opts) (opt_block_size opts) w = (Ok t, w')"
    and "sst_entries w' t = es" and "sst_id t = tid" and "sst_level t = 0" and "good_table K w' t"
    and "mid_inv K n0 I T L sh w'" and "kept (mid_tables L (sh_version sh) \<union> T) w w'"
    and "changes {table_file_name tid, tmp_path (table_file_name tid)} w w'"
proof -
  obtain t w' where create:
      "sst_create fl (table_file_name tid) tid es (bloom_false_positive_rate opts) (opt_block_size opts) w = (Ok t, w')"
      and t: "sst_ok w' t" "sst_entries w' t = es" "sst_id t = tid" "table_at K w' 0 t"
      and ch: "changes {table_file_name tid, tmp_path (table_file_name tid)} w w'"
    by (rule create_ok [OF cap es fp])
  have other: "sst_id u \<noteq> tid" if "u \<in> mid_tables L (sh_version sh) \<union> T" for u
    using that mid_invD(9) [OF inv tid(1)] tid(2) by blast
  have kept: "kept (mid_tables L (sh_version sh) \<union> T) w w'"
    using ch other by (auto simp: kept_def changes_def)
  have lv: "sst_level t = 0"
    using t(4) by (simp add: table_at_def)
  have "mid_inv K n0 I T L sh w'"
    by (rule mid_world [OF inv kept]) (use ch in \<open>simp add: changes_def\<close>)
  then show ?thesis
    using that [OF create t(2,3) lv] t(1,4) lv kept ch by (simp add: good_table_def)
qed

text \<open>A table in flight is one of the tables the shared state keeps.\<close>

lemma mid_flight:
  assumes "mid_inv K n0 I T L sh w" and "good_table K w t" and "sst_id t \<in> I"
  shows "mid_inv K n0 I (insert t T) L sh w"
  using assms by (simp add: mid_inv_def)

lemma man_ids:
  assumes "disk_inv K n0 m v w"
  shows "fst ` set (man_tables m) = sst_id ` tables_of v"
proof -
  have "set (man_tables m) = (\<Union>l < length (levels v). (\<lambda>t. (sst_id t, as_u32 l)) ` set (levels v ! l))"
    using assms by (simp add: disk_inv_def man_matches_def)
  then have "fst ` set (man_tables m) = (\<Union>l < length (levels v). sst_id ` set (levels v ! l))"
    by (simp add: image_UN image_image)
  also have "\<dots> = sst_id ` (\<Union>l < length (levels v). set (levels v ! l))"
    by (simp only: image_UN)
  also have "(\<Union>l < length (levels v). set (levels v ! l)) = tables_of v"
  proof (intro equalityI subsetI)
    fix t
    assume "t \<in> tables_of v"
    then obtain l where "l < length (levels v)" "t \<in> set (levels v ! l)"
      by (rule in_concat_nth)
    then show "t \<in> (\<Union>l < length (levels v). set (levels v ! l))" by blast
  qed auto
  finally show ?thesis .
qed

text \<open>A flush lists its table, then inserts it.\<close>

lemma mid_list:
  assumes inv: "mid_inv K n0 I T L sh w" and t: "good_table K w t" "sst_level t = 0" "sst_id t \<in> I"
    and T': "T' \<subseteq> T" "\<And>u. u \<in> T' \<Longrightarrow> sst_id u \<noteq> sst_id t" and fp: "failpoint w \<noteq> Some ManifestWrite"
  obtains sh' w' where "on_manifest (man_add_table (sst_id t) 0) (sh, w) = (Ok (), sh', w')"
    and "sh' = sh\<lparr>sh_manifest := (sh_manifest sh)\<lparr>man_tables := man_tables (sh_manifest sh) @ [(sst_id t, 0)]\<rparr>\<rparr>"
    and "mid_inv K n0 (I - {sst_id t}) T' (newer [t] L) sh' w'" and "changes {MANIFEST_FILE} w w'"
proof -
  let ?m = "sh_manifest sh" and ?L = "newer [t] L"
  let ?m' = "?m\<lparr>man_tables := man_tables ?m @ [(sst_id t, 0)]\<rparr>"
  have disk: "disk_inv K n0 ?m L w" and at: "man_at n0 ?m w" and ne: "levels L \<noteq> []"
    using mid_invD(1) [OF inv] by (simp_all add: disk_inv_def)
  have fresh: "sst_id t \<notin> sst_id ` tables_of L" "sst_id t < n0"
    using mid_invD(8,9) [OF inv t(3)] by (auto simp: mid_tables_def)
  then have fresh': "sst_id t \<notin> fst ` set (man_tables ?m)"
    by (simp add: man_ids [OF disk])
  obtain w' where w': "man_add_table (sst_id t) 0 (?m, w) = (Ok (), ?m', w')" "man_at n0 ?m' w'" "changes {MANIFEST_FILE} w w'"
    by (rule man_at_add [OF at fp fresh(2) fresh'])
  have keptx: "kept X w w'" for X
    using w'(3) by (simp add: kept_def changes_def)
  note ok = kept_ok [OF inv keptx]
  have t': "good_table K w' t"
    by (rule kept_good(1) [OF t(1) keptx [of "{t}"]]) simp
  have same: "same_tables L w w'"
    by (rule kept_same_tables [OF keptx [of "tables_of L"]]) simp
  have "disk_inv K n0 ?m' (L\<lparr>levels := (t # hd (levels L)) # tl (levels L)\<rparr>) w'"
    by (rule disk_inv_newest [OF disk _ _ fresh(1) _ w'(2) _ same]) (use ne t' t(2) in \<open>simp_all add: good_table_def\<close>)
  then have disk': "disk_inv K n0 ?m' ?L w'"
    by (simp add: newer_def)
  have "mid_inv K n0 (I - {sst_id t}) T' ?L (sh\<lparr>sh_manifest := ?m'\<rparr>) w'"
    by (rule mid_step [OF inv keptx, where N = "{t}"])
      (use disk' ok mid_invD(4,5) [OF inv] mid_invD(8) [OF inv] length_newer [OF ne] t(3) T' mid_invD(11) [OF inv]
        kept_good(1) [OF mid_invD(10) [OF inv] keptx] in \<open>auto simp: mid_tables_def set_newer [OF ne] simp del: levels_newer set_concat\<close>)
  then show ?thesis
    using w'(1,3) by (intro that [OF _ refl]) (simp_all add: on_manifest_def)
qed

text \<open>The version in memory moves to tables that are known already.\<close>

lemma mid_version:
  assumes inv: "mid_inv K n0 I T L sh w" and v: "version_ok w v" "levels_at K w v"
    and len: "length (levels v) = max_levels (sh_options sh)" and sub: "tables_of v \<subseteq> mid_tables L (sh_version sh)"
  shows "mid_inv K n0 I T L (sh\<lparr>sh_version := v\<rparr>) w"
proof -
  have n0: "n0 \<le> n0" by simp
  show ?thesis
    by (rule mid_step [OF inv, where N = "{}"])
      (use v len sub mid_invD(1,5) [OF inv] mid_invD(8) [OF inv] mid_invD(10,11) [OF inv] in
        \<open>auto simp: mid_tables_def kept_def simp del: set_concat\<close>)
qed

text \<open>A pass records its output in the manifest, which lists the compacted version from then on.\<close>

lemma mid_record:
  assumes inv: "mid_inv K n0 I T L sh w" and ot: "good_table K w ot" "sst_level ot = output_level job" "sst_id ot \<in> I"
    and T': "T' \<subseteq> T" "\<And>u. u \<in> T' \<Longrightarrow> sst_id u \<noteq> sst_id ot" and fp: "failpoint w \<noteq> Some ManifestWrite"
    and app: "apply_compaction job ot L = Ok L'" and L': "version_ok w L'" "length (levels L') = length (levels L)"
      "tables_of L' \<subseteq> insert ot (tables_of L)"
    and job: "0 < output_level job" "output_level job < length (levels L)" "set (inputs job) \<subseteq> tables_of L"
  obtains m' w' where "compact_record job ot (sh, w) = (Ok (), sh\<lparr>sh_manifest := m'\<rparr>, w')"
    and "next_table_id m' = next_table_id (sh_manifest sh)"
    and "mid_inv K n0 (I - {sst_id ot}) T' L' (sh\<lparr>sh_manifest := m'\<rparr>) w'" and "changes {MANIFEST_FILE} w w'"
proof -
  let ?m = "sh_manifest sh"
  define m' where "m' = ?m\<lparr>man_tables := filter (\<lambda>(i, _). i \<notin> sst_id ` set (inputs job)) (man_tables ?m) @
      [(sst_id ot, as_u32 (output_level job))]\<rparr>"
  have disk: "disk_inv K n0 ?m L w" and at: "man_at n0 ?m w" and big: "length (levels L) \<le> 2 ^ 32"
    using mid_invD(1) [OF inv] by (simp_all add: disk_inv_def)
  have fresh: "sst_id ot \<notin> sst_id ` tables_of L" "sst_id ot < n0"
    using mid_invD(8,9) [OF inv ot(3)] by (auto simp: mid_tables_def)
  have ids: "sst_id ot \<notin> fst ` set (man_tables ?m)" "sst_id ot \<notin> sst_id ` set (inputs job)"
    using fresh(1) job(3) by (auto simp: man_ids [OF disk] simp del: set_concat)
  obtain w' where w': "compact_record job ot (sh, w) = (Ok (), sh\<lparr>sh_manifest := m'\<rparr>, w')" "man_at n0 m' w'" "changes {MANIFEST_FILE} w w'"
    by (rule compact_record_ok [OF at fp refl fresh(2) ids m'_def])
  have keptx: "kept X w w'" for X
    using w'(3) by (simp add: kept_def changes_def)
  note ok = kept_ok [OF inv keptx]
  have ot': "good_table K w' ot"
    by (rule kept_good(1) [OF ot(1) keptx [of "{ot}"]]) simp
  have "sst_ok w' t" if "t \<in> tables_of L'" for t
    using that L'(3) ot' ok(3) by (auto simp: good_table_def version_ok_def list_all_iff simp del: set_concat)
  then have vok: "version_ok w' L'"
    by (rule version_ok_cong [OF L'(1)])
  have lv: "levels_at K w' L'"
    by (rule levels_at_compacted [OF ok(4) _ job(2) app L'(2)]) (use ot' ot(2) in \<open>simp add: good_table_def\<close>)
  have "man_matches m' L'"
    by (rule man_matches_compacted [OF _ job(2) big app L'(2)]) (use disk job(1) in \<open>simp_all add: disk_inv_def m'_def\<close>)
  then have disk': "disk_inv K n0 m' L' w'"
    using vok lv w'(2) L'(2) disk by (auto simp: disk_inv_def)
  have "mid_inv K n0 (I - {sst_id ot}) T' L' (sh\<lparr>sh_manifest := m'\<rparr>) w'"
    by (rule mid_step [OF inv keptx, where N = "{ot}"])
      (use disk' ok mid_invD(4,5) [OF inv] mid_invD(8) [OF inv] L'(2,3) ot(3) T' mid_invD(11) [OF inv]
        kept_good(1) [OF mid_invD(10) [OF inv] keptx] in \<open>auto simp: mid_tables_def m'_def simp del: set_concat\<close>)
  then show ?thesis
    using w'(1,3) by (intro that [of m' w']) (simp_all add: m'_def)
qed

section \<open>Both threads\<close>

text \<open>What a pass of the worker and a call hold on to: ids, tables in flight, and what they know.\<close>

fun pass_ids :: "pass \<Rightarrow> u64 set" where
  "pass_ids (Numbered v job i) = {i}"
| "pass_ids (Built v job ot) = {sst_id ot}"
| "pass_ids _ = {}"

fun pass_tabs :: "pass \<Rightarrow> sstable set" where
  "pass_tabs (Built v job ot) = {ot}"
| "pass_tabs _ = {}"

fun call_ids :: "call \<Rightarrow> u64 set" where
  "call_ids (Named es i) = {i}"
| "call_ids (Created i t) = {i}"
| "call_ids _ = {}"

fun call_tabs :: "call \<Rightarrow> sstable set" where
  "call_tabs (Created i t) = {t}"
| "call_tabs _ = {}"

text \<open>The version the manifest lists.\<close>

fun pass_view :: "pass \<Rightarrow> version \<Rightarrow> version" where
  "pass_view (Recorded v0 job ot) v = (case apply_compaction job ot v of Ok v' \<Rightarrow> v' | _ \<Rightarrow> v)"
| "pass_view _ v = v"

fun call_view :: "call \<Rightarrow> version \<Rightarrow> version" where
  "call_view (Listed t) v = newer [t] v"
| "call_view _ v = v"

definition listed :: "pass \<Rightarrow> call \<Rightarrow> version \<Rightarrow> version" where
  "listed p c v = call_view c (pass_view p v)"

definition picked_from :: "version \<Rightarrow> options \<Rightarrow> version \<Rightarrow> compaction_job \<Rightarrow> bool" where
  "picked_from v opts v0 job \<longleftrightarrow> pick_compaction v0 opts = Some job \<and> (\<exists>ns. v = newer ns v0)"

fun pass_inv :: "world \<Rightarrow> options \<Rightarrow> version \<Rightarrow> pass \<Rightarrow> bool" where
  "pass_inv w opts v (Picked v0 job) \<longleftrightarrow> picked_from v opts v0 job"
| "pass_inv w opts v (Numbered v0 job i) \<longleftrightarrow> picked_from v opts v0 job"
| "pass_inv w opts v (Built v0 job ot) \<longleftrightarrow>
     picked_from v opts v0 job \<and> sst_level ot = output_level job \<and> sst_entries w ot = merged_for w v0 opts job"
| "pass_inv w opts v (Recorded v0 job ot) \<longleftrightarrow>
     picked_from v opts v0 job \<and> sst_level ot = output_level job \<and> sst_entries w ot = merged_for w v0 opts job \<and>
     sst_ok w ot \<and> sst_id ot \<notin> sst_id ` tables_of v"
| "pass_inv w opts v (Installed v0 job) \<longleftrightarrow> set (inputs job) \<subseteq> tables_of v0"
| "pass_inv w opts v (Returned r) \<longleftrightarrow> r = Ok ()"
| "pass_inv w opts v _ \<longleftrightarrow> True"

fun call_inv :: "world \<Rightarrow> engine \<Rightarrow> call \<Rightarrow> bool" where
  "call_inv w e (Frozen es) \<longleftrightarrow> eng_memtable e = mem_new \<and> ksorted es \<and> map_of es = buffer_look e"
| "call_inv w e (Named es i) \<longleftrightarrow> eng_memtable e = mem_new \<and> ksorted es \<and> map_of es = buffer_look e"
| "call_inv w e (Created i t) \<longleftrightarrow>
     eng_memtable e = mem_new \<and> sst_id t = i \<and> sst_level t = 0 \<and> entries_map w t = buffer_look e"
| "call_inv w e (Listed t) \<longleftrightarrow>
     eng_memtable e = mem_new \<and> entries_map w t = buffer_look e \<and> sst_id t \<notin> sst_id ` set (engine_tables e)"
| "call_inv w e Inserted \<longleftrightarrow>
     eng_memtable e = mem_new \<and>
     (\<forall>k x. buffer_look e k = Some x \<longrightarrow> visible (tlook w (engine_tables e) k) = visible (Some x))"
| "call_inv w e Truncated \<longleftrightarrow> eng_immutable e = None"
| "call_inv w e (Finished r) \<longleftrightarrow> eng_immutable e = None \<and> r = Ok ()"

definition mid_engine :: "bytes set \<Rightarrow> u64 \<Rightarrow> pass \<Rightarrow> call \<Rightarrow> engine \<Rightarrow> world \<Rightarrow> bool" where
  "mid_engine K n0 p c e w \<longleftrightarrow>
     mid_inv K n0 (pass_ids p \<union> call_ids c) (pass_tabs p \<union> call_tabs c) (listed p c (sh_version (eng_shared e))) (eng_shared e) w \<and>
     pass_ids p \<inter> call_ids c = {} \<and> 1 < max_levels (eng_options e) \<and>
     log_inv K e w \<and> eng_options e = sh_options (eng_shared e) \<and>
     mem_inv (eng_memtable e) \<and> pred_option mem_inv (eng_immutable e) \<and> layer_ok K (buffer_look e) \<and>
     pass_inv w (eng_options e) (sh_version (eng_shared e)) p \<and> call_inv w e c"

end
