(* ===== verification/Interleave_Pass.thy ===== *)
theory Interleave_Pass
  imports Interleave_Inv
begin

text \<open>
  What the invariant of \<open>Interleave_Inv\<close> says of the two threads together, and the turns of the worker's thread:
  each keeps the invariant and the map the user sees, wherever the caller is.
\<close>

section \<open>What the invariant gives\<close>

lemma picked_live:
  assumes "picked_from v opts v0 job" and "version_ok w v" and "length (levels v) = max_levels opts" and "1 < max_levels opts"
  shows "set (inputs job) \<subseteq> tables_of v0" and "tables_of v0 \<subseteq> tables_of v" and "0 < output_level job"
    and "output_level job < length (levels v)" and "levels v0 \<noteq> []"
proof -
  obtain ns where pick: "pick_compaction v0 opts = Some job" and v: "v = newer ns v0"
    using assms(1) by (auto simp: picked_from_def)
  show ne: "levels v0 \<noteq> []"
    using pick by (auto simp: pick_compaction_def split: list.splits)
  have len0: "length (levels v0) = max_levels opts" and vok: "version_ok w v0"
    using assms(2,3) length_newer [OF ne, of ns] version_ok_newer [OF ne, of w ns] v by simp_all
  show "set (inputs job) \<subseteq> tables_of v0"
    by (rule pick_inputs_subset [OF vok len0 pick])
  show "tables_of v0 \<subseteq> tables_of v"
    unfolding v set_newer [OF ne] by blast
  show "0 < output_level job"
    by (rule pick_above_L0 [OF pick len0 assms(4)])
  show "output_level job < length (levels v)"
    using pick_output_level(1) [OF pick len0] len0 assms(3) by simp
qed

text \<open>Applying a recorded output to the version in memory works, and no lookup changes.\<close>

lemma compaction_picked:
  assumes "picked_from v opts v0 job" and vok: "version_ok w v" and len: "length (levels v) = max_levels opts" "1 < max_levels opts"
    and ot: "sst_ok w ot" "sst_entries w ot = merged_for w v0 opts job" "sst_id ot \<notin> sst_id ` tables_of v"
  obtains v' where "apply_compaction job ot v = Ok v'" and "version_ok w v'" and "length (levels v') = length (levels v)"
    and "\<And>k. visible (tlook w (concat (levels v')) k) = visible (tlook w (concat (levels v)) k)"
    and "tables_of v' \<subseteq> insert ot (tables_of v)"
proof -
  note live = picked_live [OF assms(1) vok len]
  obtain ns where pick: "pick_compaction v0 opts = Some job" and v: "v = newer ns v0"
    using assms(1) by (auto simp: picked_from_def)
  have "sst_id ot \<notin> sst_id ` tables_of v0"
    using ot(3) live(2) by blast
  then have "job_output w v0 opts job ot"
    using ot(1,2) by (simp add: job_output_def merged_for_def)
  then show ?thesis
    by (rule compaction_newer [OF v vok len pick _ ot(3)]) (rule that)
qed

lemma mid_engineD:
  assumes "mid_engine K n0 p c e w"
  shows "mid_inv K n0 (pass_ids p \<union> call_ids c) (pass_tabs p \<union> call_tabs c) (listed p c (sh_version (eng_shared e))) (eng_shared e) w"
    and "pass_ids p \<inter> call_ids c = {}" and "1 < max_levels (eng_options e)" and "log_inv K e w"
    and "eng_options e = sh_options (eng_shared e)" and "mem_inv (eng_memtable e)" and "pred_option mem_inv (eng_immutable e)"
    and "layer_ok K (buffer_look e)" and "pass_inv w (eng_options e) (sh_version (eng_shared e)) p" and "call_inv w e c"
  using assms unfolding mid_engine_def by blast+

lemma mid_engine_version:
  assumes "mid_engine K n0 p c e w"
  shows "version_ok w (sh_version (eng_shared e))" and "levels_at K w (sh_version (eng_shared e))"
    and "length (levels (sh_version (eng_shared e))) = max_levels (eng_options e)" and "levels (sh_version (eng_shared e)) \<noteq> []"
  using mid_invD(2-4) [OF mid_engineD(1) [OF assms]] mid_engineD(3,5) [OF assms] by auto

lemma pass_view_ok:
  assumes "pass_inv w opts v p" and "version_ok w v" and "length (levels v) = max_levels opts" and "1 < max_levels opts"
  shows "visible (tlook w (concat (levels (pass_view p v))) k) = visible (tlook w (concat (levels v)) k)"
    and "length (levels (pass_view p v)) = length (levels v)"
proof (atomize (full), cases p)
  case (Recorded v0 job ot)
  then show "visible (tlook w (concat (levels (pass_view p v))) k) = visible (tlook w (concat (levels v)) k) \<and>
      length (levels (pass_view p v)) = length (levels v)"
    using assms by (auto elim: compaction_picked [of v opts v0 job w ot])
qed simp_all

text \<open>What a restart would read from the log and the manifest is what the user sees.\<close>

lemma listed_map:
  assumes mid: "mid_engine K n0 p c e w"
  shows "visible (case buffer_look e k of Some x \<Rightarrow> Some x
    | None \<Rightarrow> tlook w (concat (levels (listed p c (sh_version (eng_shared e))))) k) = engine_map e w k"
proof -
  let ?v = "sh_version (eng_shared e)"
  note v = mid_engine_version [OF mid]
  note view = pass_view_ok [OF mid_engineD(9) [OF mid] v(1,3) mid_engineD(3) [OF mid]]
  have ne: "levels (pass_view p ?v) \<noteq> []"
    using view(2) v(4) by auto
  show ?thesis
  proof (cases "buffer_look e k")
    case None
    have "tlook w (concat (levels (listed p c ?v))) k = tlook w (concat (levels (pass_view p ?v))) k"
    proof (cases c)
      case (Listed t)
      then have "entries_map w t k = None"
        using None mid_engineD(10) [OF mid] by simp
      then show ?thesis
        using Listed ne by (simp add: listed_def concat_newer del: levels_newer)
    qed (simp_all add: listed_def)
    then show ?thesis
      using None view(1) [of k] by (simp add: engine_map_def engine_look_def)
  qed (simp add: engine_map_def engine_look_def)
qed

section \<open>Steps that keep the map\<close>

text \<open>
  Ids that were used before: no step touches their files again. \<open>mid_use\<close> counts the ids handed out and those that
  passes and calls may still ask for.
\<close>

definition safe_id :: "pass \<Rightarrow> call \<Rightarrow> engine \<Rightarrow> u64 \<Rightarrow> bool" where
  "safe_id p c e i \<longleftrightarrow> i < next_table_id (sh_manifest (eng_shared e)) \<and> i \<notin> pass_ids p \<union> call_ids c"

fun pass_need :: "pass \<Rightarrow> nat" where
  "pass_need Started = 1"
| "pass_need (Picked v job) = 1"
| "pass_need _ = 0"

fun call_need :: "call \<Rightarrow> nat" where
  "call_need (Frozen es) = 2"
| "call_need (Finished r) = 0"
| "call_need _ = 1"

definition mid_use :: "pass \<Rightarrow> call \<Rightarrow> engine \<Rightarrow> nat" where
  "mid_use p c e = id_use e + pass_need p + call_need c"

text \<open>Any number of steps, after which the user sees the map \<open>M\<close> and \<open>n\<close> more ids may be in use.\<close>

definition mid_to ::
  "nat \<Rightarrow> (bytes \<Rightarrow> bytes option) \<Rightarrow> bytes set \<Rightarrow> pass \<Rightarrow> call \<Rightarrow> engine \<Rightarrow> world \<Rightarrow> pass \<Rightarrow> call \<Rightarrow> engine \<Rightarrow> world \<Rightarrow> bool" where
  "mid_to n M K p c e w p' c' e' w' \<longleftrightarrow>
     (\<exists>n0. mid_engine K n0 p' c' e' w') \<and> worker_ok (eng_worker e') \<and> engine_map e' w' = M \<and>
     failpoint w' = failpoint w \<and> eng_options e' = eng_options e \<and> mid_use p' c' e' \<le> mid_use p c e + n \<and>
     (\<forall>i. safe_id p c e i \<longrightarrow> safe_id p' c' e' i \<and> files w' (table_file_name i) = files w (table_file_name i))"

definition mid_move :: "bytes set \<Rightarrow> pass \<Rightarrow> call \<Rightarrow> engine \<Rightarrow> world \<Rightarrow> pass \<Rightarrow> call \<Rightarrow> engine \<Rightarrow> world \<Rightarrow> bool" where
  "mid_move K p c e w = mid_to 0 (engine_map e w) K p c e w"

lemmas mid_move_defs = mid_move_def mid_to_def

lemma mid_to_trans:
  "mid_to m M K p c e w p1 c1 e1 w1 \<Longrightarrow> mid_to n N K p1 c1 e1 w1 p2 c2 e2 w2 \<Longrightarrow> mid_to (m + n) N K p c e w p2 c2 e2 w2"
  by (auto simp: mid_to_def)

lemma mid_to_move: "mid_to m M K p c e w p1 c1 e1 w1 \<Longrightarrow> mid_move K p1 c1 e1 w1 p2 c2 e2 w2 \<Longrightarrow> mid_to m M K p c e w p2 c2 e2 w2"
  by (auto simp: mid_move_defs)

lemma mid_move_trans:
  "mid_move K p c e w p1 c1 e1 w1 \<Longrightarrow> mid_move K p1 c1 e1 w1 p2 c2 e2 w2 \<Longrightarrow> mid_move K p c e w p2 c2 e2 w2"
  by (auto simp: mid_move_defs)

lemma mid_move_refl: "mid_engine K n0 p c e w \<Longrightarrow> worker_ok (eng_worker e) \<Longrightarrow> mid_move K p c e w p c e w"
  by (auto simp: mid_move_defs)

text \<open>The files a thread writes: the manifest, the log, and those of the ids it holds.\<close>

definition own_files :: "u64 set \<Rightarrow> string set" where
  "own_files I = (\<Union>i \<in> I. {table_file_name i, tmp_path (table_file_name i)})"

lemma own_files_iff [simp]:
  "table_file_name i \<in> own_files I \<longleftrightarrow> i \<in> I" "MANIFEST_FILE \<notin> own_files I" "WAL_FILE_NAME \<notin> own_files I"
  by (auto simp: own_files_def)

lemma mid_safe:
  assumes "mid_engine K n0 p c e w" and "t \<in> mid_tables (listed p c (sh_version (eng_shared e))) (sh_version (eng_shared e))"
  shows "sst_id t \<notin> pass_ids p" and "sst_id t \<notin> call_ids c"
  using mid_invD(9) [OF mid_engineD(1) [OF assms(1)]] assms(2) by blast+

lemma mid_kept:
  assumes mid: "mid_engine K n0 p c e w"
  shows "changes ({MANIFEST_FILE} \<union> own_files (pass_ids p)) w w' \<Longrightarrow>
      kept (mid_tables (listed p c (sh_version (eng_shared e))) (sh_version (eng_shared e)) \<union> call_tabs c) w w'"
    and "changes ({MANIFEST_FILE, WAL_FILE_NAME} \<union> own_files (call_ids c)) w w' \<Longrightarrow>
      kept (mid_tables (listed p c (sh_version (eng_shared e))) (sh_version (eng_shared e)) \<union> pass_tabs p) w w'"
proof -
  have "sst_id t \<notin> pass_ids p" if "t \<in> call_tabs c" for t
    using that mid_engineD(2,10) [OF mid] by (cases c) auto
  then show "kept (mid_tables (listed p c (sh_version (eng_shared e))) (sh_version (eng_shared e)) \<union> call_tabs c) w w'"
    if "changes ({MANIFEST_FILE} \<union> own_files (pass_ids p)) w w'"
    using that mid_safe(1) [OF mid] by (auto simp: kept_def changes_def)
  have "sst_id t \<notin> call_ids c" if "t \<in> pass_tabs p" for t
    using that mid_engineD(2) [OF mid] by (cases p) auto
  then show "kept (mid_tables (listed p c (sh_version (eng_shared e))) (sh_version (eng_shared e)) \<union> pass_tabs p) w w'"
    if "changes ({MANIFEST_FILE, WAL_FILE_NAME} \<union> own_files (call_ids c)) w w'"
    using that mid_safe(2) [OF mid] by (auto simp: kept_def changes_def)
qed

lemma mid_entries:
  assumes mid: "mid_engine K n0 p c e w" and kept: "kept T w w'" and t: "t \<in> T"
    and known: "t \<in> mid_tables (listed p c (sh_version (eng_shared e))) (sh_version (eng_shared e)) \<union> pass_tabs p \<union> call_tabs c"
  shows "sst_ok w' t" and "sst_entries w' t = sst_entries w t"
proof -
  note inv = mid_engineD(1) [OF mid]
  have "good_table K w t"
    using known mid_good [OF inv] mid_invD(10) [OF inv] by blast
  then show "sst_ok w' t" "sst_entries w' t = sst_entries w t"
    using kept_good [OF _ kept t] by (auto simp: good_table_def)
qed

text \<open>A step of the worker as the engine and the call see it.\<close>

lemma pass_moves:
  assumes mid: "mid_engine K n0 p c e w" and wk: "worker_ok wk"
    and e': "e' = e\<lparr>eng_shared := sh', eng_worker := wk\<rparr>"
    and inv': "mid_inv K n1 (pass_ids p' \<union> call_ids c) (pass_tabs p' \<union> call_tabs c) (listed p' c (sh_version sh')) sh' w'"
    and ids: "pass_ids p' \<subseteq> pass_ids p \<union> {i. next_table_id (sh_manifest (eng_shared e)) \<le> i}" "pass_ids p' \<inter> call_ids c = {}"
      "next_table_id (sh_manifest (eng_shared e)) \<le> next_table_id (sh_manifest sh')"
    and opts: "sh_options sh' = sh_options (eng_shared e)"
    and ch: "changes ({MANIFEST_FILE} \<union> own_files (pass_ids p)) w w'"
    and pinv: "pass_inv w' (eng_options e) (sh_version sh') p'"
    and look: "\<And>k. visible (tlook w' (concat (levels (sh_version sh'))) k) = visible (tlook w (engine_tables e) k)"
    and out: "\<And>t. c = Listed t \<Longrightarrow> sst_id t \<notin> sst_id ` set (engine_tables e) \<Longrightarrow> sst_id t \<notin> sst_id ` tables_of (sh_version sh')"
    and use: "mid_use p' c e' \<le> mid_use p c e"
  shows "mid_move K p c e w p' c e' w'"
proof -
  note inv = mid_engineD(1) [OF mid]
  have buf: "buffer_look e' = buffer_look e" by (simp add: e')
  have path: "wal_path (eng_wal e) = WAL_FILE_NAME"
    using mid_engineD(4) [OF mid] by (simp add: log_inv_def)
  have wal: "files w' WAL_FILE_NAME = files w WAL_FILE_NAME"
    using ch by (simp add: changes_def)
  have log: "log_inv K e' w'"
    using mid_engineD(4) [OF mid] wal wal_holds_other [of "eng_wal e" _ w w'] path unfolding log_inv_def buf
    by (auto simp: e' wal_synced_def file_of_def)
  note kept = mid_kept(1) [OF mid ch]
  have "call_inv w' e' c"
  proof (cases c)
    case (Created i t)
    then show ?thesis
      using mid_engineD(10) [OF mid] mid_entries(2) [OF mid kept, of t] by (simp add: buf) (simp add: e')
  next
    case (Listed t)
    then have "t \<in> mid_tables (listed p c (sh_version (eng_shared e))) (sh_version (eng_shared e))"
      by (simp add: mid_tables_def listed_def)
    then show ?thesis
      using Listed out mid_engineD(10) [OF mid] mid_entries(2) [OF mid kept, of t] by (simp add: buf) (simp add: e')
  next
    case Inserted
    then show ?thesis
      using mid_engineD(10) [OF mid] look by (simp add: buf) (simp add: e')
  qed (use mid_engineD(10) [OF mid] in \<open>simp_all add: buf\<close>, simp_all add: e')
  then have "mid_engine K n1 p' c e' w'"
    using mid_engineD(3,5-8) [OF mid] inv' ids(2) opts log pinv unfolding mid_engine_def buf by (simp add: e')
  moreover have "engine_map e' w' = engine_map e w"
    by (rule engine_map_cong [OF buf]) (use look in \<open>simp add: e'\<close>)
  moreover have "safe_id p' c e' i \<and> files w' (table_file_name i) = files w (table_file_name i)" if "safe_id p c e i" for i
    using that ids(1,3) ch by (auto simp: safe_id_def e' changes_def intro: less_le_trans)
  ultimately show ?thesis
    using wk use ch by (auto simp: mid_move_defs changes_def e')
qed

section \<open>The worker\<close>

text \<open>A step of a pass that succeeds, as a turn of the worker's thread.\<close>

lemma worker_turn_pass:
  assumes "pass_step fl p (eng_shared e, w) = (p', sh', w')" and "p \<noteq> Waiting" and "\<forall>r. p \<noteq> Returned r"
    and "failpoint w = None" and "failpoint w' = None"
  shows "worker_turn fl (e, w, p) = (e\<lparr>eng_shared := sh', eng_worker := eng_worker e\<rparr>, w', p')"
  using off_thread_clear [where f = "pass_step fl p", OF assms(1,4,5)] assms(2,3)
  by (cases p) (simp_all add: worker_turn_def)

lemma turn_started:
  assumes mid: "mid_engine K n0 Started c e w" and wk: "worker_ok (eng_worker e)" and fp: "failpoint w = None"
  shows "\<exists>p' e' w'. worker_turn fl (e, w, Started) = (e', w', p') \<and> mid_move K Started c e w p' c e' w'"
proof -
  let ?v = "sh_version (eng_shared e)" and ?opts = "sh_options (eng_shared e)"
  define p' where "p' = (case pick_compaction ?v ?opts of None \<Rightarrow> Returned (Ok ()) | Some job \<Rightarrow> Picked ?v job)"
  note inv = mid_engineD(1) [OF mid]
  have same: "pass_ids p' = {}" "pass_tabs p' = {}" "listed p' c ?v = listed Started c ?v" "pass_need p' \<le> 1"
    by (simp_all add: p'_def listed_def split: option.split)
  have "pass_inv w (eng_options e) ?v p'"
    using newer_Nil [OF mid_engine_version(4) [OF mid]] mid_engineD(5) [OF mid]
    by (auto simp: p'_def picked_from_def split: option.split intro: sym)
  then have "mid_move K Started c e w p' c (e\<lparr>eng_shared := eng_shared e, eng_worker := eng_worker e\<rparr>) w"
    by (intro pass_moves [OF mid wk refl]) (use inv same in \<open>simp_all add: mid_use_def\<close>)
  moreover have "worker_turn fl (e, w, Started) = (e\<lparr>eng_shared := eng_shared e, eng_worker := eng_worker e\<rparr>, w, p')"
    by (rule worker_turn_pass) (use fp in \<open>simp_all add: p'_def\<close>)
  ultimately show ?thesis by blast
qed

lemma turn_picked:
  assumes mid: "mid_engine K n0 (Picked v0 job) c e w" and wk: "worker_ok (eng_worker e)" and fp: "failpoint w = None"
    and room: "mid_use (Picked v0 job) c e < 2 ^ 64"
  shows "\<exists>p' e' w'. worker_turn fl (e, w, Picked v0 job) = (e', w', p') \<and> mid_move K (Picked v0 job) c e w p' c e' w'"
proof -
  let ?sh = "eng_shared e"
  let ?tid = "next_table_id (sh_manifest ?sh)"
  note inv = mid_engineD(1) [OF mid]
  have idr: "id_room ?sh"
    using room unfolding id_room_iff by (simp add: mid_use_def id_use_def next_no_def)
  obtain sh' w' where step: "on_manifest man_next_table_id (?sh, w) = (Ok ?tid, sh', w')"
      and sh': "sh' = ?sh\<lparr>sh_manifest := (sh_manifest ?sh)\<lparr>next_table_id := ?tid + 1\<rparr>\<rparr>"
      and inv': "mid_inv K (?tid + 1) (insert ?tid (pass_ids (Picked v0 job) \<union> call_ids c)) (pass_tabs (Picked v0 job) \<union> call_tabs c)
        (listed (Picked v0 job) c (sh_version ?sh)) sh' w'"
      and new: "?tid \<notin> pass_ids (Picked v0 job) \<union> call_ids c" and ch: "changes {MANIFEST_FILE} w w'"
    by (rule mid_number [OF inv _ idr refl]) (use fp in simp)
  let ?p = "Numbered v0 job ?tid"
  have same: "kept T w w'" for T
    using ch by (simp add: kept_def changes_def)
  have look: "tlook w' (engine_tables e) k = tlook w (engine_tables e) k" for k
    by (rule same_tables_tlook [OF mid_engine_version(2,1) [OF mid] kept_same_tables [OF same order_refl]]) simp
  have "mid_move K (Picked v0 job) c e w ?p c (e\<lparr>eng_shared := sh', eng_worker := eng_worker e\<rparr>) w'"
  proof (rule pass_moves [OF mid wk refl])
    show "mid_inv K (?tid + 1) (pass_ids ?p \<union> call_ids c) (pass_tabs ?p \<union> call_tabs c) (listed ?p c (sh_version sh')) sh' w'"
      using inv' by (simp add: listed_def sh')
    show "changes ({MANIFEST_FILE} \<union> own_files (pass_ids (Picked v0 job))) w w'"
      using ch by (rule changes_mono) simp
  qed (use new look idr next_plus_one [OF idr] mid_engineD(9) [OF mid] in \<open>simp_all add: sh' mid_use_def id_use_def next_no_def\<close>)
  moreover have "worker_turn fl (e, w, Picked v0 job) = (e\<lparr>eng_shared := sh', eng_worker := eng_worker e\<rparr>, w', ?p)"
    by (rule worker_turn_pass) (use step fp ch in \<open>simp_all add: pass_next_def changes_def\<close>)
  ultimately show ?thesis by blast
qed

lemma turn_numbered:
  assumes mid: "mid_engine K n0 (Numbered v0 job i) c e w" and wk: "worker_ok (eng_worker e)" and fp: "failpoint w = None"
    and cap: "capacity fl (eng_options e) K"
  shows "\<exists>p' e' w'. worker_turn fl (e, w, Numbered v0 job i) = (e', w', p') \<and> mid_move K (Numbered v0 job i) c e w p' c e' w'"
proof -
  let ?sh = "eng_shared e" and ?p = "Numbered v0 job i" and ?opts = "eng_options e"
  let ?v = "sh_version ?sh" and ?d = "may_drop_tombstones v0 ?opts job"
  note inv = mid_engineD(1) [OF mid]
  have pick: "picked_from ?v ?opts v0 job"
    using mid_engineD(9) [OF mid] by simp
  note v = mid_engine_version [OF mid]
  note live = picked_live [OF pick v(1,3) mid_engineD(3) [OF mid]]
  have known: "t \<in> mid_tables (listed ?p c ?v) ?v" if "t \<in> set (inputs job)" for t
    using that live(1,2) unfolding mid_tables_def by blast
  have ts: "list_all (sst_ok w) (inputs job)" "\<And>t. t \<in> set (inputs job) \<Longrightarrow> layer_ok K (entries_map w t)"
    using mid_good [OF inv known] by (auto simp: list_all_iff good_table_def table_at_def)
  let ?es = "filter (keep_entry ?d) (merge_ref (map (sst_entries w) (inputs job)))"
  note merged = merged_entries [OF ts(1), of ?d]
  obtain t w' where create: "sst_create fl (table_file_name i) i ?es (bloom_false_positive_rate ?opts) (opt_block_size ?opts) w = (Ok t, w')"
      and t: "sst_entries w' t = ?es" "sst_id t = i" "sst_level t = 0" "good_table K w' t"
      and inv1: "mid_inv K n0 (pass_ids ?p \<union> call_ids c) (pass_tabs ?p \<union> call_tabs c) (listed ?p c ?v) ?sh w'"
      and kept: "kept (mid_tables (listed ?p c ?v) ?v \<union> (pass_tabs ?p \<union> call_tabs c)) w w'"
      and ch: "changes {table_file_name i, tmp_path (table_file_name i)} w w'"
  proof (rule mid_create [OF inv, of i])
    show "sst_id u \<noteq> i" if "u \<in> pass_tabs ?p \<union> call_tabs c" for u
      using that mid_engineD(2,10) [OF mid] by (cases c) auto
    show "failpoint w \<notin> table_faults"
      using fp by (simp add: table_faults_def)
  qed (use cap merged(2) merged_layer [OF ts] in auto)
  let ?ot = "set_level (output_level job) t"
  let ?p' = "Built v0 job ?ot"
  have ot: "good_table K w' ?ot" "sst_id ?ot = i"
    using t table_at_set_level [of K w' t] by (simp_all add: good_table_def) (simp_all add: set_level_def)
  have entries: "sst_entries w' u = sst_entries w u" if "u \<in> set (inputs job)" for u
    by (rule mid_entries(2) [OF mid kept]) (use known [OF that] in simp_all)
  then have "map (sst_entries w') (inputs job) = map (sst_entries w) (inputs job)"
    by simp
  then have es: "sst_entries w' ?ot = merged_for w' v0 ?opts job"
    using t(1) by (simp add: merged_for_def del: map_eq_conv)
  have look: "tlook w' (engine_tables e) k = tlook w (engine_tables e) k" for k
    by (rule same_tables_tlook [OF v(2,1) kept_same_tables [OF kept]]) (auto simp: mid_tables_def)
  have "mid_move K ?p c e w ?p' c (e\<lparr>eng_shared := ?sh, eng_worker := eng_worker e\<rparr>) w'"
  proof (rule pass_moves [OF mid wk refl])
    show "mid_inv K n0 (pass_ids ?p' \<union> call_ids c) (pass_tabs ?p' \<union> call_tabs c) (listed ?p' c ?v) ?sh w'"
      using mid_flight [OF inv1 ot(1)] ot(2) by (simp add: listed_def)
    show "changes ({MANIFEST_FILE} \<union> own_files (pass_ids ?p)) w w'"
      using ch by (rule changes_mono) (simp add: own_files_def)
    show "pass_inv w' ?opts ?v ?p'"
      using pick es by (simp add: set_level_def)
  qed (use ot(2) look mid_engineD(2) [OF mid] in \<open>simp_all add: mid_use_def id_use_def next_no_def\<close>)
  moreover have "worker_turn fl (e, w, ?p) = (e\<lparr>eng_shared := ?sh, eng_worker := eng_worker e\<rparr>, w', ?p')"
    by (rule worker_turn_pass) (use create merged(1) mid_engineD(5) [OF mid] fp ch in \<open>simp_all add: pass_next_def on_world_def compact_def changes_def\<close>)
  ultimately show ?thesis by blast
qed

text \<open>A call in flight and a recorded pass look at the levels in either order.\<close>

lemma call_view_newer: "levels v \<noteq> [] \<Longrightarrow> \<exists>ms. call_view c v = newer ms v \<and> (ms = [] \<or> (\<exists>t. c = Listed t \<and> ms = [t]))"
  using newer_Nil [of v] by (cases c) (auto intro: exI [of _ "[]"])

lemma call_view_picked:
  assumes "picked_from v opts v0 job" and "levels v \<noteq> []"
  shows "picked_from (call_view c v) opts v0 job"
proof -
  obtain ns where "pick_compaction v0 opts = Some job" and "v = newer ns v0"
    using assms(1) by (auto simp: picked_from_def)
  then show ?thesis
    using call_view_newer [OF assms(2), of c] by (auto simp: picked_from_def)
qed

lemma call_view_apply:
  assumes "apply_compaction job ot v = Ok v'" and "1 < length (levels v)" and "0 < output_level job"
    and "\<And>t. c = Listed t \<Longrightarrow> sst_id t \<notin> sst_id ` set (inputs job)"
  shows "apply_compaction job ot (call_view c v) = Ok (call_view c v')"
  using assms(1) apply_compaction_newer [OF assms(1-3), of "[t]" for t] assms(4) by (cases c) simp_all

lemma call_out_inputs:
  assumes mid: "mid_engine K n0 p c e w" and pick: "picked_from (sh_version (eng_shared e)) (eng_options e) v0 job" and "c = Listed t"
  shows "sst_id t \<notin> sst_id ` set (inputs job)"
proof -
  note v = mid_engine_version [OF mid]
  have "sst_id t \<notin> sst_id ` set (engine_tables e)"
    using mid_engineD(10) [OF mid] assms(3) by simp
  then show ?thesis
    using picked_live(1,2) [OF pick v(1,3) mid_engineD(3) [OF mid]] by blast
qed

lemma turn_built:
  assumes mid: "mid_engine K n0 (Built v0 job ot) c e w" and wk: "worker_ok (eng_worker e)" and fp: "failpoint w = None"
  shows "\<exists>p' e' w'. worker_turn fl (e, w, Built v0 job ot) = (e', w', p') \<and> mid_move K (Built v0 job ot) c e w p' c e' w'"
proof -
  let ?sh = "eng_shared e" and ?p = "Built v0 job ot" and ?opts = "eng_options e" and ?p' = "Recorded v0 job ot"
  let ?v = "sh_version ?sh"
  let ?L = "call_view c ?v"
  have L: "listed ?p c ?v = ?L" by (simp add: listed_def)
  note inv = mid_engineD(1) [OF mid, unfolded L]
  have pick: "picked_from ?v ?opts v0 job" and lv: "sst_level ot = output_level job" and es: "sst_entries w ot = merged_for w v0 ?opts job"
    using mid_engineD(9) [OF mid] by simp_all
  note v = mid_engine_version [OF mid] and big = mid_engineD(3) [OF mid]
  note live = picked_live [OF pick v(1,3) big]
  have ot: "good_table K w ot" "sst_id ot \<in> pass_ids ?p \<union> call_ids c"
    using mid_invD(10,11) [OF inv, of ot] by simp_all
  have fresh: "sst_id ot \<notin> sst_id ` tables_of ?v" "sst_id ot \<notin> sst_id ` tables_of ?L"
    using mid_invD(9) [OF inv ot(2)] by (auto simp: mid_tables_def simp del: set_concat)
  have ok: "sst_ok w ot" using ot(1) by (simp add: good_table_def)
  have Lok: "version_ok w ?L" "length (levels ?L) = max_levels ?opts"
    using mid_invD(1,5) [OF inv] mid_engineD(5) [OF mid] by (simp_all add: disk_inv_def)
  note pickL = call_view_picked [OF pick v(4), of c]
  note liveL = picked_live [OF pickL Lok big]
  obtain v' where app: "apply_compaction job ot ?v = Ok v'"
    by (rule compaction_picked [OF pick v(1,3) big ok es fresh(1)])
  obtain L' where appL: "apply_compaction job ot ?L = Ok L'" and L': "version_ok w L'" "length (levels L') = length (levels ?L)"
      "tables_of L' \<subseteq> insert ot (tables_of ?L)"
    by (rule compaction_picked [OF pickL Lok big ok es fresh(2)])
  have "apply_compaction job ot ?L = Ok (call_view c v')"
    by (rule call_view_apply [OF app _ live(3)]) (use v(3) big call_out_inputs [OF mid pick] in simp_all)
  then have L'eq: "L' = listed ?p' c ?v"
    using appL app by (simp add: listed_def)
  have otherT: "sst_id u \<noteq> sst_id ot" if "u \<in> call_tabs c" for u
    using that mid_engineD(2,10) [OF mid] by (cases c) auto
  obtain m' w' where rec: "compact_record job ot (?sh, w) = (Ok (), ?sh\<lparr>sh_manifest := m'\<rparr>, w')"
      and nxt: "next_table_id m' = next_table_id (sh_manifest ?sh)"
      and inv': "mid_inv K n0 (pass_ids ?p \<union> call_ids c - {sst_id ot}) (call_tabs c) L' (?sh\<lparr>sh_manifest := m'\<rparr>) w'"
      and ch: "changes {MANIFEST_FILE} w w'"
    by (rule mid_record [OF inv ot(1) lv ot(2) _ otherT _ appL L' live(3) liveL(4) subset_trans [OF liveL(1,2)]]) (use fp in auto)
  have keptx: "kept T w w'" for T
    using ch by (simp add: kept_def changes_def)
  have look: "tlook w' (engine_tables e) k = tlook w (engine_tables e) k" for k
    by (rule same_tables_tlook [OF v(2,1) kept_same_tables [OF keptx order_refl]]) simp
  have "sst_entries w' t = sst_entries w t" if "t \<in> set (inputs job)" for t
    by (rule mid_entries(2) [OF mid keptx, of t UNIV]) (use that live(1,2) in \<open>auto simp: mid_tables_def simp del: set_concat\<close>)
  then have "map (sst_entries w') (inputs job) = map (sst_entries w) (inputs job)" by simp
  moreover have ot': "sst_ok w' ot" "sst_entries w' ot = sst_entries w ot"
    by (rule mid_entries [OF mid keptx, of ot UNIV]; simp)+
  ultimately have es': "sst_entries w' ot = merged_for w' v0 ?opts job"
    using es by (simp add: merged_for_def del: map_eq_conv)
  have "mid_move K ?p c e w ?p' c (e\<lparr>eng_shared := ?sh\<lparr>sh_manifest := m'\<rparr>, eng_worker := eng_worker e\<rparr>) w'"
  proof (rule pass_moves [OF mid wk refl])
    have "pass_ids ?p \<union> call_ids c - {sst_id ot} = pass_ids ?p' \<union> call_ids c"
      using mid_engineD(2) [OF mid] by auto
    then show "mid_inv K n0 (pass_ids ?p' \<union> call_ids c) (pass_tabs ?p' \<union> call_tabs c)
        (listed ?p' c (sh_version (?sh\<lparr>sh_manifest := m'\<rparr>))) (?sh\<lparr>sh_manifest := m'\<rparr>) w'"
      using inv' L'eq by simp
    show "changes ({MANIFEST_FILE} \<union> own_files (pass_ids ?p)) w w'"
      using ch by (rule changes_mono) simp
    show "pass_inv w' ?opts (sh_version (?sh\<lparr>sh_manifest := m'\<rparr>)) ?p'"
      using pick lv es' ot'(1) fresh(1) by simp
  qed (use nxt look in \<open>simp_all add: mid_use_def id_use_def next_no_def\<close>)
  moreover have "worker_turn fl (e, w, ?p) = (e\<lparr>eng_shared := ?sh\<lparr>sh_manifest := m'\<rparr>, eng_worker := eng_worker e\<rparr>, w', ?p')"
    by (rule worker_turn_pass) (use rec fp ch in \<open>simp_all add: pass_next_def changes_def\<close>)
  ultimately show ?thesis by blast
qed

lemma levels_at_newer:
  assumes "levels_at K w (newer ns v)" and "levels v \<noteq> []"
  shows "levels_at K w v"
  unfolding levels_at_def
proof (intro allI impI ballI)
  fix l t
  assume "l < length (levels v)" and "t \<in> set (levels v ! l)"
  then show "table_at K w l t"
    using assms by (cases l; cases "levels v") (auto simp: levels_at_def)
qed

lemma turn_recorded:
  assumes mid: "mid_engine K n0 (Recorded v0 job ot) c e w" and wk: "worker_ok (eng_worker e)" and fp: "failpoint w = None"
  shows "\<exists>p' e' w'. worker_turn fl (e, w, Recorded v0 job ot) = (e', w', p') \<and> mid_move K (Recorded v0 job ot) c e w p' c e' w'"
proof -
  let ?sh = "eng_shared e" and ?p = "Recorded v0 job ot" and ?opts = "eng_options e" and ?p' = "Installed v0 job"
  let ?v = "sh_version ?sh"
  note inv = mid_engineD(1) [OF mid]
  have pick: "picked_from ?v ?opts v0 job" and ot: "sst_ok w ot" "sst_entries w ot = merged_for w v0 ?opts job"
      "sst_id ot \<notin> sst_id ` tables_of ?v"
    using mid_engineD(9) [OF mid] by simp_all
  note v = mid_engine_version [OF mid] and big = mid_engineD(3) [OF mid]
  note live = picked_live [OF pick v(1,3) big]
  obtain v' where app: "apply_compaction job ot ?v = Ok v'" and v': "version_ok w v'" "length (levels v') = length (levels ?v)"
      "\<And>k. visible (tlook w (concat (levels v')) k) = visible (tlook w (concat (levels ?v)) k)"
    by (rule compaction_picked [OF pick v(1,3) big ot]) (rule that)
  have ne: "levels v' \<noteq> []"
    using v'(2) v(4) by auto
  have L: "listed ?p c ?v = call_view c v'"
    by (simp add: listed_def app)
  have disk: "version_ok w (call_view c v')" "levels_at K w (call_view c v')"
    using mid_invD(1) [OF inv] by (simp_all add: L disk_inv_def)
  obtain ms where ms: "call_view c v' = newer ms v'" "ms = [] \<or> (\<exists>t. c = Listed t \<and> ms = [t])"
    using call_view_newer [OF ne] by blast
  have lv: "levels_at K w v'"
    by (rule levels_at_newer [OF _ ne]) (use disk(2) ms(1) in simp)
  have sub: "tables_of v' \<subseteq> mid_tables (listed ?p c ?v) ?v"
    unfolding mid_tables_def L ms(1) set_newer [OF ne] by blast
  have "mid_inv K n0 (pass_ids ?p \<union> call_ids c) (pass_tabs ?p \<union> call_tabs c) (listed ?p c ?v) (?sh\<lparr>sh_version := v'\<rparr>) w"
    by (rule mid_version [OF inv v'(1) lv _ sub]) (use v'(2) v(3) mid_engineD(5) [OF mid] in simp)
  then have inv': "mid_inv K n0 (pass_ids ?p' \<union> call_ids c) (pass_tabs ?p' \<union> call_tabs c)
      (listed ?p' c (sh_version (?sh\<lparr>sh_version := v'\<rparr>))) (?sh\<lparr>sh_version := v'\<rparr>) w"
    unfolding L by (simp add: listed_def)
  have out: "sst_id t \<notin> sst_id ` tables_of v'" if "c = Listed t" for t
    using disk(1) version_ok_newer [OF ne, of w "[t]"] that by simp
  have "mid_move K ?p c e w ?p' c (e\<lparr>eng_shared := ?sh\<lparr>sh_version := v'\<rparr>, eng_worker := eng_worker e\<rparr>) w"
    by (rule pass_moves [OF mid wk refl inv'])
      (use v'(3) out live(1) in \<open>simp_all add: mid_use_def id_use_def next_no_def del: set_concat\<close>)
  moreover have "worker_turn fl (e, w, ?p) = (e\<lparr>eng_shared := ?sh\<lparr>sh_version := v'\<rparr>, eng_worker := eng_worker e\<rparr>, w, ?p')"
    by (rule worker_turn_pass) (use app fp in \<open>simp_all add: pass_next_def\<close>)
  ultimately show ?thesis by blast
qed

lemma turn_installed:
  assumes mid: "mid_engine K n0 (Installed v0 job) c e w" and wk: "worker_ok (eng_worker e)" and fp: "failpoint w = None"
  shows "\<exists>p' e' w'. worker_turn fl (e, w, Installed v0 job) = (e', w', p') \<and> mid_move K (Installed v0 job) c e w p' c e' w'"
proof -
  let ?sh = "eng_shared e" and ?p = "Installed v0 job" and ?p' = "Returned (Ok ())"
  have inputs: "set (inputs job) \<subseteq> tables_of v0"
    using mid_engineD(9) [OF mid] by simp
  have "mid_move K ?p c e w ?p' c (e\<lparr>eng_shared := ?sh, eng_worker := eng_worker e\<rparr>) w"
    by (rule pass_moves [OF mid wk refl])
      (use mid_engineD(1) [OF mid] in \<open>simp_all add: mid_use_def id_use_def next_no_def listed_def\<close>)
  moreover have "worker_turn fl (e, w, ?p) = (e\<lparr>eng_shared := ?sh, eng_worker := eng_worker e\<rparr>, w, ?p')"
    by (rule worker_turn_pass) (use remove_files_snapshot [OF inputs] fp in simp_all)
  ultimately show ?thesis by blast
qed

lemma turn_between:
  assumes mid: "mid_engine K n0 p c e w" and wk: "worker_ok (eng_worker e)" and p: "p = Waiting \<or> p = Returned r"
  shows "\<exists>p' e' w'. worker_turn fl (e, w, p) = (e', w', p') \<and> mid_move K p c e w p' c e' w'"
proof -
  let ?sh = "eng_shared e" and ?c = "eng_worker e"
  have move: "mid_move K p c e w p' c (e\<lparr>eng_shared := ?sh, eng_worker := x\<rparr>) w"
    if "p' \<in> {Waiting, Started}" "worker_ok x" "length (pending x) + pass_need p' \<le> length (pending ?c)" for p' x
    by (rule pass_moves [OF mid that(2) refl])
      (use that(1,3) p mid_engineD(1) [OF mid] in \<open>auto simp: mid_use_def id_use_def next_no_def listed_def\<close>)
  consider (idle) "p = Waiting" "\<not> alive ?c \<or> pending ?c = []" | (msg) m msgs where "p = Waiting" "alive ?c" "pending ?c = m # msgs"
    | (ended) "p = Returned r"
    using p by (cases "pending ?c") auto
  then show ?thesis
  proof cases
    case idle
    then have "worker_turn fl (e, w, p) = (e\<lparr>eng_shared := ?sh, eng_worker := ?c\<rparr>, w, Waiting)"
      by (auto simp: worker_turn_def Let_def)
    then show ?thesis
      using move [of Waiting ?c] wk by auto
  next
    case (msg m msgs)
    show ?thesis
    proof (cases m)
      case Compact
      then have "worker_turn fl (e, w, p) = (e\<lparr>eng_shared := ?sh, eng_worker := ?c\<lparr>pending := msgs\<rparr>\<rparr>, w, Started)"
        using msg by (simp add: worker_turn_def)
      then show ?thesis
        using move [of Started "?c\<lparr>pending := msgs\<rparr>"] wk msg by (auto simp: worker_ok_def)
    next
      case Shutdown
      then have "worker_turn fl (e, w, p) = (e\<lparr>eng_shared := ?sh, eng_worker := ?c\<lparr>pending := [], alive := False\<rparr>\<rparr>, w, Waiting)"
        using msg by (simp add: worker_turn_def)
      then show ?thesis
        using move [of Waiting "?c\<lparr>pending := [], alive := False\<rparr>"] wk msg by (auto simp: worker_ok_def)
    qed
  next
    case ended
    then have "r = Ok ()"
      using mid_engineD(9) [OF mid] by simp
    then have "worker_turn fl (e, w, p) = (e\<lparr>eng_shared := ?sh, eng_worker := ?c\<rparr>, w, Waiting)"
      using ended by (simp add: worker_turn_def)
    then show ?thesis
      using move [of Waiting ?c] wk by auto
  qed
qed

lemma worker_turn_ok:
  assumes mid: "mid_engine K n0 p c e w" and wk: "worker_ok (eng_worker e)" and fp: "failpoint w = None"
    and cap: "capacity fl (eng_options e) K" and room: "mid_use p c e < 2 ^ 64"
  shows "\<exists>p' e' w'. worker_turn fl (e, w, p) = (e', w', p') \<and> mid_move K p c e w p' c e' w'"
proof (cases p)
  case Waiting
  then show ?thesis using turn_between [OF mid wk] by simp
next
  case Started
  then show ?thesis using turn_started mid wk fp by simp
next
  case (Picked v0 job)
  then show ?thesis using turn_picked mid wk fp room by simp
next
  case (Numbered v0 job i)
  then show ?thesis using turn_numbered mid wk fp cap by simp
next
  case (Built v0 job ot)
  then show ?thesis using turn_built mid wk fp by simp
next
  case (Recorded v0 job ot)
  then show ?thesis using turn_recorded mid wk fp by simp
next
  case (Installed v0 job)
  then show ?thesis using turn_installed mid wk fp by simp
next
  case (Returned r)
  then show ?thesis using turn_between [OF mid wk] by simp
qed

text \<open>Any number of turns.\<close>

lemma worker_turns_ok:
  assumes mid: "mid_engine K n0 p c e w" and wk: "worker_ok (eng_worker e)" and fp: "failpoint w = None"
    and cap: "capacity fl (eng_options e) K" and room: "mid_use p c e < 2 ^ 64"
  shows "\<exists>p' e' w'. (worker_turn fl ^^ n) (e, w, p) = (e', w', p') \<and> mid_move K p c e w p' c e' w'"
proof (induction n)
  case 0
  then show ?case using mid_move_refl [OF mid wk] by auto
next
  case (Suc n)
  then obtain p1 e1 w1 where 1: "(worker_turn fl ^^ n) (e, w, p) = (e1, w1, p1)" "mid_move K p c e w p1 c e1 w1"
    by blast
  then obtain n1 where "mid_engine K n1 p1 c e1 w1" "worker_ok (eng_worker e1)" "failpoint w1 = None"
      "capacity fl (eng_options e1) K" "mid_use p1 c e1 < 2 ^ 64"
    using fp cap room by (auto simp: mid_move_defs)
  then obtain p2 e2 w2 where "worker_turn fl (e1, w1, p1) = (e2, w2, p2)" "mid_move K p1 c e1 w1 p2 c e2 w2"
    using worker_turn_ok by metis
  then show ?case
    using 1 mid_move_trans by auto
qed

end
