(* ===== verification/Interleave_Call.thy ===== *)
theory Interleave_Call
  imports Interleave_Pass
begin

text \<open>
  The steps of a call that writes keep the invariant and the map the user sees, wherever the worker's pass is.
\<close>

section \<open>A step of the call as the pass sees it\<close>

lemma apply_compaction_mem:
  assumes "apply_compaction job ot v = Ok v'" and ol: "output_level job < length (levels v)"
  shows "ot \<in> tables_of v'"
proof -
  have "ot \<in> set (levels v' ! output_level job)"
    using apply_compaction_nth [OF ol assms(1) ol] by (simp add: Let_def)
  moreover have "length (levels v') = length (levels v)"
    using assms(1) by (auto simp: apply_compaction_def Let_def index_def split: if_splits)
  ultimately show ?thesis
    using ol by (auto intro: nth_mem)
qed

lemma pass_view_newer:
  assumes mid: "mid_engine K n0 p (Listed t) e w" and v: "v = sh_version (eng_shared e)"
  shows "pass_view p (newer [t] v) = newer [t] (pass_view p v)"
proof (cases p)
  case (Recorded v0 job ot)
  note vok = mid_engine_version [OF mid, folded v] and big = mid_engineD(3) [OF mid]
  have pick: "picked_from v (eng_options e) v0 job" and ot: "sst_ok w ot" "sst_entries w ot = merged_for w v0 (eng_options e) job"
      "sst_id ot \<notin> sst_id ` tables_of v"
    using mid_engineD(9) [OF mid] Recorded v by simp_all
  note live = picked_live [OF pick vok(1,3) big]
  obtain v' where app: "apply_compaction job ot v = Ok v'"
    by (rule compaction_picked [OF pick vok(1,3) big ot])
  have "apply_compaction job ot (newer [t] v) = Ok (newer [t] v')"
    by (rule apply_compaction_newer [OF app _ live(3)])
      (use vok(3) big call_out_inputs [OF mid pick [unfolded v]] in simp_all)
  then show ?thesis
    using app Recorded by simp
qed simp_all

text \<open>The version stays, or gets the flushed table in front.\<close>

lemma pass_inv_call:
  assumes mid: "mid_engine K n0 p c e w" and kept: "kept (mid_tables (listed p c (sh_version (eng_shared e))) (sh_version (eng_shared e)) \<union> pass_tabs p) w w'"
    and v': "v' = sh_version (eng_shared e) \<or> (\<exists>t. c = Listed t \<and> v' = newer [t] (sh_version (eng_shared e)))"
  shows "pass_inv w' (eng_options e) v' p"
proof -
  let ?v = "sh_version (eng_shared e)" and ?opts = "eng_options e"
  note v = mid_engine_version [OF mid] and big = mid_engineD(3) [OF mid]
  have pick': "picked_from v' ?opts v0 job" if "picked_from ?v ?opts v0 job" for v0 job
    using v' that by (auto simp: picked_from_def)
  have merged: "merged_for w' v0 ?opts job = merged_for w v0 ?opts job" if "picked_from ?v ?opts v0 job" for v0 job
  proof -
    have "sst_entries w' t = sst_entries w t" if t: "t \<in> set (inputs job)" for t
    proof (rule mid_entries(2) [OF mid kept])
      have "t \<in> tables_of ?v"
        using t picked_live(1,2) [OF \<open>picked_from ?v ?opts v0 job\<close> v(1,3) big] by blast
      then show "t \<in> mid_tables (listed p c ?v) ?v \<union> pass_tabs p" "t \<in> mid_tables (listed p c ?v) ?v \<union> pass_tabs p \<union> call_tabs c"
        unfolding mid_tables_def by blast+
    qed
    then have "map (sst_entries w') (inputs job) = map (sst_entries w) (inputs job)" by simp
    then show ?thesis by (simp only: merged_for_def)
  qed
  show ?thesis
  proof (cases p)
    case (Built v0 job ot)
    then show ?thesis
      using mid_engineD(9) [OF mid] pick' merged mid_entries(2) [OF mid kept, of ot] by simp
  next
    case (Recorded v0 job ot)
    then have pick: "picked_from ?v ?opts v0 job" and ot: "sst_ok w ot" "sst_entries w ot = merged_for w v0 ?opts job"
        "sst_id ot \<notin> sst_id ` tables_of ?v"
      using mid_engineD(9) [OF mid] by simp_all
    obtain v1 where app: "apply_compaction job ot ?v = Ok v1" and len: "length (levels v1) = length (levels ?v)"
      by (rule compaction_picked [OF pick v(1,3) big ot])
    have ne: "levels v1 \<noteq> []" using len v(4) by auto
    have L: "listed p c ?v = call_view c v1"
      by (simp add: listed_def Recorded app)
    have vok: "version_ok w (call_view c v1)"
      using mid_invD(1) [OF mid_engineD(1) [OF mid]] by (simp add: L disk_inv_def)
    have in1: "ot \<in> tables_of v1"
      by (rule apply_compaction_mem [OF app picked_live(4) [OF pick v(1,3) big]])
    obtain ms where ms: "call_view c v1 = newer ms v1"
      using call_view_newer [OF ne] by blast
    have inL: "ot \<in> tables_of (call_view c v1)"
      unfolding ms set_newer [OF ne] using in1 by blast
    then have known: "ot \<in> mid_tables (listed p c ?v) ?v"
      unfolding mid_tables_def L by blast
    have new: "sst_id ot \<noteq> sst_id t" if "c = Listed t" for t
      using vok version_ok_newer [OF ne, of w "[t]"] that imageI [OF in1, of sst_id] by (auto simp del: set_concat)
    have "sst_id ot \<notin> sst_id ` tables_of v'"
      using v'
    proof (elim disjE exE conjE)
      fix t
      assume "c = Listed t" and "v' = newer [t] ?v"
      then show ?thesis
        using ot(3) new by (simp add: set_newer [OF v(4)] image_Un del: levels_newer set_concat)
    qed (use ot(3) in simp)
    then show ?thesis
      using Recorded mid_engineD(9) [OF mid] pick' merged mid_entries [OF mid kept, of ot] known by simp
  qed (use mid_engineD(9) [OF mid] pick' in auto)
qed

lemma call_moves:
  assumes mid: "mid_engine K n0 p c e w" and wk: "worker_ok (eng_worker e')"
    and inv': "mid_inv K n1 (pass_ids p \<union> call_ids c') (pass_tabs p \<union> call_tabs c') (listed p c' (sh_version (eng_shared e'))) (eng_shared e') w'"
    and ids: "call_ids c' \<subseteq> call_ids c \<union> {i. next_table_id (sh_manifest (eng_shared e)) \<le> i}" "pass_ids p \<inter> call_ids c' = {}"
      "next_table_id (sh_manifest (eng_shared e)) \<le> next_table_id (sh_manifest (eng_shared e'))"
    and opts: "eng_options e' = eng_options e" "sh_options (eng_shared e') = sh_options (eng_shared e)"
    and log: "log_inv K e' w'" and bufs: "mem_inv (eng_memtable e')" "pred_option mem_inv (eng_immutable e')" "layer_ok K (buffer_look e')"
    and ch: "changes ({MANIFEST_FILE, WAL_FILE_NAME} \<union> own_files (call_ids c)) w w'"
    and ver: "sh_version (eng_shared e') = sh_version (eng_shared e) \<or>
      (\<exists>t. c = Listed t \<and> sh_version (eng_shared e') = newer [t] (sh_version (eng_shared e)))"
    and cinv: "call_inv w' e' c'" and map: "engine_map e' w' = engine_map e w" and use: "mid_use p c' e' \<le> mid_use p c e"
  shows "mid_move K p c e w p c' e' w'"
proof -
  have "pass_inv w' (eng_options e) (sh_version (eng_shared e')) p"
    by (rule pass_inv_call [OF mid mid_kept(2) [OF mid ch] ver])
  then have "mid_engine K n1 p c' e' w'"
    using mid_engineD(3,5) [OF mid] inv' ids(2) opts log bufs cinv unfolding mid_engine_def by simp
  moreover have "safe_id p c' e' i \<and> files w' (table_file_name i) = files w (table_file_name i)" if "safe_id p c e i" for i
    using that ids(1,3) ch by (auto simp: safe_id_def changes_def intro: less_le_trans)
  ultimately show ?thesis
    using wk use ch map opts(1) by (auto simp: mid_move_defs changes_def)
qed

text \<open>Steps that leave the log and the memtables alone.\<close>

lemma call_moves_shared:
  assumes mid: "mid_engine K n0 p c e w" and wk: "worker_ok (eng_worker e)"
    and inv': "mid_inv K n1 (pass_ids p \<union> call_ids c') (pass_tabs p \<union> call_tabs c') (listed p c' (sh_version sh')) sh' w'"
    and ids: "call_ids c' \<subseteq> call_ids c \<union> {i. next_table_id (sh_manifest (eng_shared e)) \<le> i}" "pass_ids p \<inter> call_ids c' = {}"
      "next_table_id (sh_manifest (eng_shared e)) \<le> next_table_id (sh_manifest sh')"
    and opts: "sh_options sh' = sh_options (eng_shared e)"
    and ch: "changes ({MANIFEST_FILE} \<union> own_files (call_ids c)) w w'"
    and ver: "sh_version sh' = sh_version (eng_shared e) \<or> (\<exists>t. c = Listed t \<and> sh_version sh' = newer [t] (sh_version (eng_shared e)))"
    and cinv: "call_inv w' (e\<lparr>eng_shared := sh'\<rparr>) c'"
    and look: "\<And>k. buffer_look e k = None \<Longrightarrow> tlook w' (concat (levels (sh_version sh'))) k = tlook w (engine_tables e) k"
    and use: "mid_use p c' (e\<lparr>eng_shared := sh'\<rparr>) \<le> mid_use p c e"
  shows "mid_move K p c e w p c' (e\<lparr>eng_shared := sh'\<rparr>) w'"
proof (rule call_moves [OF mid])
  have path: "wal_path (eng_wal e) = WAL_FILE_NAME"
    using mid_engineD(4) [OF mid] by (simp add: log_inv_def)
  have wal: "files w' WAL_FILE_NAME = files w WAL_FILE_NAME"
    using ch by (simp add: changes_def)
  show "log_inv K (e\<lparr>eng_shared := sh'\<rparr>) w'"
    using mid_engineD(4) [OF mid] wal wal_holds_other [of "eng_wal e" _ w w'] path
    by (auto simp: log_inv_def wal_synced_def file_of_def)
  show "changes ({MANIFEST_FILE, WAL_FILE_NAME} \<union> own_files (call_ids c)) w w'"
    using ch by (rule changes_mono) auto
  show "engine_map (e\<lparr>eng_shared := sh'\<rparr>) w' = engine_map e w"
    using look by (auto simp: engine_map_def engine_look_def fun_eq_iff split: option.split)
qed (use wk inv' ids opts ver cinv use mid_engineD(6-8) [OF mid] in simp_all)

section \<open>The steps of a flush\<close>

lemma call_frozen:
  assumes mid: "mid_engine K n0 p (Frozen es) e w" and wk: "worker_ok (eng_worker e)" and fp: "failpoint w = None"
    and room: "mid_use p (Frozen es) e < 2 ^ 64"
  shows "\<exists>c' e' w'. call_turn fl (Frozen es, e, w) = (c', e', w') \<and> mid_move K p (Frozen es) e w p c' e' w'"
proof -
  let ?sh = "eng_shared e" and ?c = "Frozen es"
  let ?tid = "next_table_id (sh_manifest ?sh)"
  let ?c' = "Named es ?tid"
  note inv = mid_engineD(1) [OF mid]
  have idr: "id_room ?sh"
    using room unfolding id_room_iff by (simp add: mid_use_def id_use_def next_no_def)
  obtain sh' w' where step: "on_manifest man_next_table_id (?sh, w) = (Ok ?tid, sh', w')"
      and sh': "sh' = ?sh\<lparr>sh_manifest := (sh_manifest ?sh)\<lparr>next_table_id := ?tid + 1\<rparr>\<rparr>"
      and inv': "mid_inv K (?tid + 1) (insert ?tid (pass_ids p \<union> call_ids ?c)) (pass_tabs p \<union> call_tabs ?c)
        (listed p ?c (sh_version ?sh)) sh' w'"
      and new: "?tid \<notin> pass_ids p \<union> call_ids ?c" and ch: "changes {MANIFEST_FILE} w w'"
    by (rule mid_number [OF inv _ idr refl]) (use fp in simp)
  have keptx: "kept T w w'" for T
    using ch by (simp add: kept_def changes_def)
  have look: "tlook w' (engine_tables e) k = tlook w (engine_tables e) k" for k
    by (rule same_tables_tlook [OF mid_engine_version(2,1) [OF mid] kept_same_tables [OF keptx order_refl]]) simp
  have "mid_move K p ?c e w p ?c' (e\<lparr>eng_shared := sh'\<rparr>) w'"
  proof (rule call_moves_shared [OF mid wk])
    show "mid_inv K (?tid + 1) (pass_ids p \<union> call_ids ?c') (pass_tabs p \<union> call_tabs ?c') (listed p ?c' (sh_version sh')) sh' w'"
      using inv' by (simp add: listed_def sh')
    show "changes ({MANIFEST_FILE} \<union> own_files (call_ids ?c)) w w'"
      using ch by (rule changes_mono) simp
  qed (use new look idr next_plus_one [OF idr] mid_engineD(10) [OF mid] in \<open>simp_all add: sh' mid_use_def id_use_def next_no_def\<close>)
  moreover have "call_turn fl (?c, e, w) = (?c', e\<lparr>eng_shared := sh'\<rparr>, w')"
    using step by (simp add: call_turn_def call_step_def call_next_def on_shared_def)
  ultimately show ?thesis by blast
qed

lemma call_named:
  assumes mid: "mid_engine K n0 p (Named es i) e w" and wk: "worker_ok (eng_worker e)" and fp: "failpoint w = None"
    and cap: "capacity fl (eng_options e) K"
  shows "\<exists>c' e' w'. call_turn fl (Named es i, e, w) = (c', e', w') \<and> mid_move K p (Named es i) e w p c' e' w'"
proof -
  let ?sh = "eng_shared e" and ?c = "Named es i" and ?opts = "eng_options e"
  let ?v = "sh_version ?sh"
  note inv = mid_engineD(1) [OF mid] and v = mid_engine_version [OF mid]
  have es: "ksorted es" "map_of es = buffer_look e" and mt: "eng_memtable e = mem_new"
    using mid_engineD(10) [OF mid] by simp_all
  obtain t w' where create: "sst_create fl (table_file_name i) i es (bloom_false_positive_rate ?opts) (opt_block_size ?opts) w = (Ok t, w')"
      and t: "sst_entries w' t = es" "sst_id t = i" "sst_level t = 0" "good_table K w' t"
      and inv1: "mid_inv K n0 (pass_ids p \<union> call_ids ?c) (pass_tabs p \<union> call_tabs ?c) (listed p ?c ?v) ?sh w'"
      and kept: "kept (mid_tables (listed p ?c ?v) ?v \<union> (pass_tabs p \<union> call_tabs ?c)) w w'"
      and ch: "changes {table_file_name i, tmp_path (table_file_name i)} w w'"
  proof (rule mid_create [OF inv, of i])
    show "sst_id u \<noteq> i" if "u \<in> pass_tabs p \<union> call_tabs ?c" for u
      using that mid_engineD(2) [OF mid] by (cases p) auto
    show "failpoint w \<notin> table_faults"
      using fp by (simp add: table_faults_def)
  qed (use cap es mid_engineD(8) [OF mid] in auto)
  let ?c' = "Created i t"
  have look: "tlook w' (engine_tables e) k = tlook w (engine_tables e) k" for k
    by (rule same_tables_tlook [OF v(2,1) kept_same_tables [OF kept]]) (auto simp: mid_tables_def)
  have "mid_move K p ?c e w p ?c' (e\<lparr>eng_shared := ?sh\<rparr>) w'"
  proof (rule call_moves_shared [OF mid wk])
    show "mid_inv K n0 (pass_ids p \<union> call_ids ?c') (pass_tabs p \<union> call_tabs ?c') (listed p ?c' ?v) ?sh w'"
      using mid_flight [OF inv1 t(4)] t(2) by (simp add: listed_def)
    show "changes ({MANIFEST_FILE} \<union> own_files (call_ids ?c)) w w'"
      using ch by (rule changes_mono) (simp add: own_files_def)
  qed (use t es mt look mid_engineD(2) [OF mid] in \<open>simp_all add: mid_use_def id_use_def next_no_def\<close>)
  moreover have "call_turn fl (?c, e, w) = (?c', e\<lparr>eng_shared := ?sh\<rparr>, w')"
    using create by (simp add: call_turn_def call_step_def call_next_def on_world_def)
  ultimately show ?thesis by blast
qed

lemma call_created:
  assumes mid: "mid_engine K n0 p (Created i t) e w" and wk: "worker_ok (eng_worker e)" and fp: "failpoint w = None"
  shows "\<exists>c' e' w'. call_turn fl (Created i t, e, w) = (c', e', w') \<and> mid_move K p (Created i t) e w p c' e' w'"
proof -
  let ?sh = "eng_shared e" and ?c = "Created i t" and ?c' = "Listed t"
  let ?v = "sh_version ?sh"
  note inv = mid_engineD(1) [OF mid] and v = mid_engine_version [OF mid]
  have t: "sst_id t = i" "sst_level t = 0" "entries_map w t = buffer_look e" and mt: "eng_memtable e = mem_new"
    using mid_engineD(10) [OF mid] by simp_all
  have good: "good_table K w t" and tin: "sst_id t \<in> pass_ids p \<union> call_ids ?c"
    using mid_invD(10,11) [OF inv, of t] by simp_all
  have fresh: "sst_id t \<notin> sst_id ` tables_of ?v"
    using mid_invD(9) [OF inv tin] by (auto simp: mid_tables_def simp del: set_concat)
  have otherT: "sst_id u \<noteq> sst_id t" if "u \<in> pass_tabs p" for u
    using that mid_engineD(2) [OF mid] t(1) by (cases p) auto
  obtain sh' w' where step: "on_manifest (man_add_table (sst_id t) 0) (?sh, w) = (Ok (), sh', w')"
      and sh': "sh' = ?sh\<lparr>sh_manifest := (sh_manifest ?sh)\<lparr>man_tables := man_tables (sh_manifest ?sh) @ [(sst_id t, 0)]\<rparr>\<rparr>"
      and inv': "mid_inv K n0 (pass_ids p \<union> call_ids ?c - {sst_id t}) (pass_tabs p) (newer [t] (listed p ?c ?v)) sh' w'"
      and ch: "changes {MANIFEST_FILE} w w'"
    by (rule mid_list [OF inv good t(2) tin _ otherT]) (use fp in auto)
  have keptx: "kept T w w'" for T
    using ch by (simp add: kept_def changes_def)
  have look: "tlook w' (engine_tables e) k = tlook w (engine_tables e) k" for k
    by (rule same_tables_tlook [OF v(2,1) kept_same_tables [OF keptx order_refl]]) simp
  have entries: "sst_entries w' t = sst_entries w t"
    by (rule mid_entries(2) [OF mid keptx, of t UNIV]) simp_all
  have "mid_move K p ?c e w p ?c' (e\<lparr>eng_shared := sh'\<rparr>) w'"
  proof (rule call_moves_shared [OF mid wk])
    have "pass_ids p \<union> call_ids ?c - {sst_id t} = pass_ids p \<union> call_ids ?c'"
      using mid_engineD(2) [OF mid] t(1) by auto
    then show "mid_inv K n0 (pass_ids p \<union> call_ids ?c') (pass_tabs p \<union> call_tabs ?c') (listed p ?c' (sh_version sh')) sh' w'"
      using inv' by (simp add: listed_def sh')
    show "changes ({MANIFEST_FILE} \<union> own_files (call_ids ?c)) w w'"
      using ch by (rule changes_mono) simp
  qed (use t mt look entries fresh in \<open>simp_all add: sh' mid_use_def id_use_def next_no_def\<close>)
  moreover have "call_turn fl (?c, e, w) = (?c', e\<lparr>eng_shared := sh'\<rparr>, w')"
    using step t(1) by (simp add: call_turn_def call_step_def call_next_def on_shared_def)
  ultimately show ?thesis by blast
qed

lemma call_listed:
  assumes mid: "mid_engine K n0 p (Listed t) e w" and wk: "worker_ok (eng_worker e)"
  shows "\<exists>c' e' w'. call_turn fl (Listed t, e, w) = (c', e', w') \<and> mid_move K p (Listed t) e w p c' e' w'"
proof -
  let ?sh = "eng_shared e" and ?c = "Listed t"
  let ?v = "sh_version ?sh"
  let ?sh' = "?sh\<lparr>sh_version := newer [t] ?v\<rparr>"
  note inv = mid_engineD(1) [OF mid] and v = mid_engine_version [OF mid]
  have t: "entries_map w t = buffer_look e" "sst_id t \<notin> sst_id ` tables_of ?v" and mt: "eng_memtable e = mem_new"
    using mid_engineD(10) [OF mid] by simp_all
  have L: "listed p ?c ?v = newer [t] (pass_view p ?v)" "listed p Inserted (newer [t] ?v) = newer [t] (pass_view p ?v)"
    using pass_view_newer [OF mid refl] by (simp_all add: listed_def)
  have tL: "t \<in> mid_tables (listed p ?c ?v) ?v"
    by (simp add: mid_tables_def L)
  have good: "sst_ok w t"
    using mid_good [OF inv tL] by (simp add: good_table_def)
  have "levels_at K w (newer [t] (pass_view p ?v))"
    using mid_invD(1) [OF inv] by (simp add: L disk_inv_def)
  then have "table_at K w 0 t"
    by (auto simp: levels_at_def)
  then have lv: "levels_at K w (newer [t] ?v)"
    using v(2,4) by (cases "levels ?v") (auto simp: levels_at_def nth_Cons' split: if_splits)
  have vok: "version_ok w (newer [t] ?v)"
    using version_ok_newer [OF v(4), of w "[t]"] v(1) good t(2) by simp
  have sub: "tables_of (newer [t] ?v) \<subseteq> mid_tables (listed p ?c ?v) ?v"
    unfolding set_newer [OF v(4)] using tL by (auto simp: mid_tables_def simp del: set_concat)
  have "mid_inv K n0 (pass_ids p \<union> call_ids ?c) (pass_tabs p \<union> call_tabs ?c) (listed p ?c ?v) ?sh' w"
    by (rule mid_version [OF inv vok lv _ sub]) (use v(3) length_newer [OF v(4)] mid_engineD(5) [OF mid] in simp)
  then have inv': "mid_inv K n0 (pass_ids p \<union> call_ids Inserted) (pass_tabs p \<union> call_tabs Inserted)
      (listed p Inserted (sh_version ?sh')) ?sh' w"
    by (simp add: L)
  have look: "tlook w (concat (levels (newer [t] ?v))) k =
      (case buffer_look e k of Some x \<Rightarrow> Some x | None \<Rightarrow> tlook w (engine_tables e) k)" for k
    unfolding concat_newer [OF v(4)] by (simp add: t(1) cong: option.case_cong)
  have "mid_move K p ?c e w p Inserted (e\<lparr>eng_shared := ?sh'\<rparr>) w"
    by (rule call_moves_shared [OF mid wk inv'])
      (use mt look in \<open>simp_all add: mid_use_def id_use_def next_no_def del: levels_newer\<close>)
  moreover have "call_turn fl (?c, e, w) = (Inserted, e\<lparr>eng_shared := ?sh'\<rparr>, w)"
    using v(4) by (cases "levels ?v") (simp_all add: call_turn_def call_step_def newer_def)
  ultimately show ?thesis by blast
qed

lemma call_inserted:
  assumes mid: "mid_engine K n0 p Inserted e w" and wk: "worker_ok (eng_worker e)"
  shows "\<exists>c' e' w'. call_turn fl (Inserted, e, w) = (c', e', w') \<and> mid_move K p Inserted e w p c' e' w'"
proof -
  let ?e = "e\<lparr>eng_immutable := None\<rparr>" and ?w = "file_clear WAL_FILE_NAME w"
  note inv = mid_engineD(1) [OF mid] and v = mid_engine_version [OF mid]
  have mt: "eng_memtable e = mem_new"
    and held: "\<And>k x. buffer_look e k = Some x \<Longrightarrow> visible (tlook w (engine_tables e) k) = visible (Some x)"
    using mid_engineD(10) [OF mid] by simp_all
  have path: "wal_path (eng_wal e) = WAL_FILE_NAME"
    using mid_engineD(4) [OF mid] by (simp add: log_inv_def)
  have keptx: "kept T w ?w" for T
    by (simp add: kept_def)
  have buf: "buffer_look ?e k = None" for k
    using mt by (simp add: buffer_look_def)
  have look: "tlook ?w (engine_tables e) k = tlook w (engine_tables e) k" for k
    by (rule same_tables_tlook [OF v(2,1) kept_same_tables [OF keptx order_refl]]) simp
  have "mid_move K p Inserted e w p Truncated ?e ?w"
  proof (rule call_moves [OF mid])
    show "mid_inv K n0 (pass_ids p \<union> call_ids Truncated) (pass_tabs p \<union> call_tabs Truncated) (listed p Truncated (sh_version (eng_shared ?e)))
        (eng_shared ?e) ?w"
      using mid_world [OF inv keptx] by (simp add: listed_def)
    show "log_inv K ?e ?w"
      unfolding log_inv_def
    proof (intro conjI exI [of _ "[]"])
      show "wal_holds (eng_wal ?e) [] ?w"
        using wal_holds_truncate [of "eng_wal e"] path by simp
    qed (simp_all add: path wal_synced_def empty_file_def file_of_def buf fun_eq_iff)
    show "engine_map ?e ?w = engine_map e w"
    proof
      fix k
      show "engine_map ?e ?w k = engine_map e w k"
        using held [of k] by (auto simp: engine_map_def engine_look_def buf look split: option.split)
    qed
  qed (use wk mt in \<open>simp_all add: changes_def mid_use_def id_use_def next_no_def layer_ok_def buf\<close>)
  moreover have "call_turn fl (Inserted, e, w) = (Truncated, ?e, ?w)"
    using path by (simp add: call_turn_def call_step_def call_next_def on_world_def wal_truncate_def)
  ultimately show ?thesis by blast
qed

lemma call_truncated:
  assumes mid: "mid_engine K n0 p Truncated e w" and wk: "worker_ok (eng_worker e)"
  shows "\<exists>c' e' w'. call_turn fl (Truncated, e, w) = (c', e', w') \<and> mid_move K p Truncated e w p c' e' w'"
proof -
  let ?e = "maybe_request_compaction e" and ?c' = "Finished (Ok ())"
  have "mid_move K p Truncated e w p ?c' ?e w"
    by (rule call_moves [OF mid])
      (use wk mid_engineD(1,4,6-8,10) [OF mid] maybe_request_id_use [of e] in \<open>simp_all add: listed_def log_inv_def mid_use_def\<close>)
  moreover have "call_turn fl (Truncated, e, w) = (?c', ?e, w)"
    by (simp add: call_turn_def call_step_def)
  ultimately show ?thesis by blast
qed

lemma call_turn_ok:
  assumes mid: "mid_engine K n0 p c e w" and wk: "worker_ok (eng_worker e)" and fp: "failpoint w = None"
    and cap: "capacity fl (eng_options e) K" and room: "mid_use p c e < 2 ^ 64"
  shows "\<exists>c' e' w'. call_turn fl (c, e, w) = (c', e', w') \<and> mid_move K p c e w p c' e' w'"
proof (cases c)
  case (Frozen es)
  then show ?thesis using call_frozen mid wk fp room by simp
next
  case (Named es i)
  then show ?thesis using call_named mid wk fp cap by simp
next
  case (Created i t)
  then show ?thesis using call_created mid wk fp by simp
next
  case (Listed t)
  then show ?thesis using call_listed mid wk by simp
next
  case Inserted
  then show ?thesis using call_inserted mid wk by simp
next
  case Truncated
  then show ?thesis using call_truncated mid wk by simp
next
  case (Finished r)
  then show ?thesis using mid_move_refl [OF mid wk] by (simp add: call_turn_def call_step_def)
qed

section \<open>Beginning a call\<close>

lemma flush_begin_ok:
  assumes mid: "mid_engine K n0 p (Finished r) e w" and wk: "worker_ok (eng_worker e)" and fp: "failpoint w = None"
  shows "\<exists>c' e' w'. flush_begin (e, w) = (c', e', w') \<and> mid_to 2 (engine_map e w) K p (Finished r) e w p c' e' w'"
proof -
  let ?c = "Finished r"
  note inv = mid_engineD(1) [OF mid] and v = mid_engine_version [OF mid]
  have imm: "eng_immutable e = None"
    using mid_engineD(10) [OF mid] by simp
  have path: "wal_path (eng_wal e) = WAL_FILE_NAME"
    using mid_engineD(4) [OF mid] by (simp add: log_inv_def)
  have lift: "mid_to 2 (engine_map e w) K p ?c e w p c' e' w'"
    if "mid_engine K n0 p c' e' w'" "eng_worker e' = eng_worker e" "engine_map e' w' = engine_map e w" "failpoint w' = None"
      "eng_options e' = eng_options e" "eng_shared e' = eng_shared e" "call_ids c' = {}" "\<And>i. files w' (table_file_name i) = files w (table_file_name i)"
    for c' e' w'
  proof -
    have "call_need c' \<le> 2" by (cases c') simp_all
    then show ?thesis
      using that wk fp by (auto simp: mid_to_def mid_use_def id_use_def next_no_def safe_id_def)
  qed
  show ?thesis
  proof (cases "mem_is_empty (eng_memtable e)")
    case True
    let ?w = "file_sync WAL_FILE_NAME w"
    have keptx: "kept T w ?w" for T by (simp add: kept_def)
    have look: "tlook ?w (engine_tables e) k = tlook w (engine_tables e) k" for k
      by (rule same_tables_tlook [OF v(2,1) kept_same_tables [OF keptx order_refl]]) simp
    have "log_inv K e ?w"
      using mid_engineD(4) [OF mid] wal_holds_sync [of "eng_wal e"] wal_synced_sync [of "eng_wal e"] path
      unfolding log_inv_def by metis
    moreover have "mid_inv K n0 (pass_ids p \<union> call_ids Truncated) (pass_tabs p \<union> call_tabs Truncated) (listed p Truncated (sh_version (eng_shared e))) (eng_shared e) ?w"
      using mid_world [OF inv keptx] by (simp add: listed_def)
    moreover have "pass_inv ?w (eng_options e) (sh_version (eng_shared e)) p"
      by (rule pass_inv_call [OF mid keptx]) simp
    ultimately have "mid_engine K n0 p Truncated e ?w"
      using mid_engineD(3,5-8) [OF mid] imm unfolding mid_engine_def by simp
    moreover have "engine_map e ?w = engine_map e w"
      by (rule engine_map_cong [OF refl]) (simp add: look)
    moreover have "flush_begin (e, w) = (Truncated, e, ?w)"
      using True path fp by (simp add: flush_begin_def call_next_def on_world_def wal_sync_def should_fail_def)
    ultimately show ?thesis
      using lift [of Truncated e ?w] fp by auto
  next
    case False
    let ?es = "entries (eng_memtable e)"
    obtain imm' where frozen: "freeze_memtable e = (?es, e\<lparr>eng_memtable := mem_new, eng_immutable := Some imm'\<rparr>)"
        and get: "mem_get imm' = mem_get (eng_memtable e)" and minv: "mem_inv imm'"
      by (rule freeze_ok [OF mid_engineD(6) [OF mid]])
    let ?e = "e\<lparr>eng_memtable := mem_new, eng_immutable := Some imm'\<rparr>"
    have buf: "buffer_look ?e = buffer_look e" and buf': "buffer_look e = mem_get (eng_memtable e)"
      by (simp_all add: buffer_look_def imm get fun_eq_iff split: option.split)
    have es: "ksorted ?es" "map_of ?es = buffer_look e"
      using mem.items_look [OF mid_engineD(6) [OF mid]] by (simp_all add: mem_iter_def buf')
    have log: "log_inv K ?e w"
      using mid_engineD(4) [OF mid] unfolding log_inv_def buf by simp
    have "mid_engine K n0 p (Frozen ?es) ?e w"
      using mid_engineD(1-3,5,8,9) [OF mid] es log minv unfolding mid_engine_def buf by (simp add: listed_def buf)
    moreover have "engine_map ?e w = engine_map e w"
      by (rule engine_map_cong [OF buf]) simp
    moreover have "flush_begin (e, w) = (Frozen ?es, ?e, w)"
      using False frozen by (simp add: flush_begin_def)
    ultimately show ?thesis
      using lift [of "Frozen ?es" ?e w] fp by auto
  qed
qed

text \<open>The record goes into the log and the memtable; nothing the pass holds is touched.\<close>

lemma mid_log_step:
  assumes mid: "mid_engine K n0 p (Finished r) e w" and wk: "worker_ok (eng_worker e)" and op: "op_fits op" "fst (op_entry op) \<in> K"
    and w': "w' = file_sync WAL_FILE_NAME (file_append WAL_FILE_NAME (op_bytes op) w)"
    and e': "e' = e\<lparr>eng_memtable := apply_operation op (eng_memtable e)\<rparr>"
  shows "mid_to 0 ((engine_map e w)(fst (op_entry op) := visible (Some (snd (op_entry op))))) K p (Finished r) e w p (Finished (Ok ())) e' w'"
proof -
  note inv = mid_engineD(1) [OF mid] and v = mid_engine_version [OF mid]
  note log = log_inv_append [OF mid_engineD(4,8) [OF mid] op w' e']
  have keptx: "kept T w w'" for T by (simp add: kept_def w')
  have look: "tlook w' (engine_tables e) k = tlook w (engine_tables e) k" for k
    by (rule same_tables_tlook [OF v(2,1) kept_same_tables [OF keptx order_refl]]) simp
  have "mid_inv K n0 (pass_ids p \<union> call_ids (Finished r)) (pass_tabs p \<union> call_tabs (Finished r))
      (listed p (Finished r) (sh_version (eng_shared e))) (eng_shared e) w'"
    by (rule mid_world [OF inv keptx]) (simp add: w')
  moreover have "pass_inv w' (eng_options e) (sh_version (eng_shared e)) p"
    by (rule pass_inv_call [OF mid keptx]) simp
  ultimately have "mid_engine K n0 p (Finished (Ok ())) e' w'"
    using mid_engineD(3,5-7,10) [OF mid] log(1,2) unfolding mid_engine_def by (simp add: e' listed_def)
  moreover have "engine_map e' w' = (engine_map e w)(fst (op_entry op) := visible (Some (snd (op_entry op))))"
    by (simp add: engine_map_def engine_look_def log(3) fun_eq_iff split: option.split) (simp add: e' look)
  ultimately show ?thesis
    using wk by (auto simp: mid_to_def e' w' mid_use_def id_use_def next_no_def safe_id_def)
qed

lemma write_begin_ok:
  assumes mid: "mid_engine K n0 p (Finished r) e w" and wk: "worker_ok (eng_worker e)" and fp: "failpoint w = None"
    and op: "op_fits op" "fst (op_entry op) \<in> K"
  shows "\<exists>c' e' w'. write_begin op (e, w) = (c', e', w') \<and>
    mid_to 2 ((engine_map e w)(fst (op_entry op) := visible (Some (snd (op_entry op))))) K p (Finished r) e w p c' e' w'"
proof -
  let ?M = "(engine_map e w)(fst (op_entry op) := visible (Some (snd (op_entry op))))"
  let ?w1 = "file_sync WAL_FILE_NAME (file_append WAL_FILE_NAME (op_bytes op) w)"
  let ?e1 = "e\<lparr>eng_memtable := apply_operation op (eng_memtable e)\<rparr>"
  have path: "wal_path (eng_wal e) = WAL_FILE_NAME"
    using mid_engineD(4) [OF mid] by (simp add: log_inv_def)
  note step = mid_log_step [OF mid wk op refl refl]
  have wr: "write_begin op (e, w) =
      (if approximate_size (eng_memtable ?e1) \<ge> memtable_size_bytes (eng_options e)
       then flush_begin (?e1, ?w1) else (Finished (Ok ()), ?e1, ?w1))"
    using fp op(1) path
    by (cases rule: wal_append_cases [of w "eng_wal e" op])
      (simp_all add: write_begin_def on_world_def wal_sync_def should_fail_def Let_def)
  obtain n1 where mid1: "mid_engine K n1 p (Finished (Ok ())) ?e1 ?w1" and wk1: "worker_ok (eng_worker ?e1)"
      and fp1: "failpoint ?w1 = None" and map1: "engine_map ?e1 ?w1 = ?M"
    using step fp by (auto simp: mid_to_def)
  obtain c' e' w' where flush: "flush_begin (?e1, ?w1) = (c', e', w')"
      "mid_to 2 (engine_map ?e1 ?w1) K p (Finished (Ok ())) ?e1 ?w1 p c' e' w'"
    using flush_begin_ok [OF mid1 wk1 fp1] by blast
  have "mid_to 2 ?M K p (Finished r) e w p c' e' w'"
    using mid_to_trans [OF step flush(2)] map1 by (simp only: add_0)
  moreover have "mid_to 2 ?M K p (Finished r) e w p (Finished (Ok ())) ?e1 ?w1"
    using step by (auto simp: mid_to_def)
  ultimately show ?thesis
    using wr flush(1) by (cases "approximate_size (eng_memtable ?e1) \<ge> memtable_size_bytes (eng_options e)") simp_all
qed

end
