(* ===== verification/Interleave_Run.thy ===== *)
theory Interleave_Run
  imports Interleave_Call
begin

text \<open>
  Whole runs of the database with its background thread. A run is any sequence of calls, each with the number of turns the
  worker takes before each of its steps, of restarts and of crashes, also in the middle of a call; the pass of the worker
  goes on across calls. Every response is the one of the reference map of \<open>Engine_Run\<close>.
\<close>

section \<open>Calls and turns of the worker\<close>

text \<open>A call of which each step comes after some turns of the worker.\<close>

fun drive :: "f64_math \<Rightarrow> nat list \<Rightarrow> call \<times> engine \<times> world \<Rightarrow> pass \<Rightarrow> call \<times> engine \<times> world \<times> pass" where
  "drive fl [] (c, e, w) p = (c, e, w, p)"
| "drive fl (n # ns) (c, e, w) p =
     (case (worker_turn fl ^^ n) (e, w, p) of (e, w, p) \<Rightarrow> drive fl ns (call_turn fl (c, e, w)) p)"

text \<open>\<^verbatim>\<open>shutdown\<close> waits until the pass is over before the messages that are left are worked off.\<close>

fun finish_pass :: "nat \<Rightarrow> f64_math \<Rightarrow> engine \<times> world \<times> pass \<Rightarrow> engine \<times> world \<times> pass" where
  "finish_pass 0 fl s = s"
| "finish_pass (Suc n) fl (e, w, p) =
     (case p of Waiting \<Rightarrow> (e, w, p) | _ \<Rightarrow> finish_pass n fl (worker_turn fl (e, w, p)))"

fun call_begin :: "command \<Rightarrow> engine \<times> world \<Rightarrow> call \<times> engine \<times> world" where
  "call_begin (CPut k v) s = put_begin k v s"
| "call_begin (CDelete k) s = delete_begin k s"
| "call_begin CFlush s = flush_begin s"
| "call_begin _ s = (Finished (Ok ()), s)"

text \<open>
  A call with its schedule, or a call that a crash cuts off after \<open>i\<close> steps. Six steps end every call. The iterator of a scan
  is made at once and drained after the worker's turns.
\<close>

datatype concurrent =
    Call command "nat \<Rightarrow> nat"
  | Cut command "nat \<Rightarrow> nat" nat "string \<Rightarrow> nat"

definition call_response :: "call \<Rightarrow> response" where
  "call_response c = RDone (case c of Finished r \<Rightarrow> r | _ \<Rightarrow> Panic)"

definition run_call :: "f64_math \<Rightarrow> command \<Rightarrow> (nat \<Rightarrow> nat) \<Rightarrow> engine \<times> world \<times> pass \<Rightarrow> response \<times> engine \<times> world \<times> pass" where
  "run_call fl c sched = (\<lambda>(e, w, p).
     case drive fl (map sched [0..<6]) (call_begin c (e, w)) p of (c, s) \<Rightarrow> (call_response c, s))"

definition run_restart :: "f64_math \<Rightarrow> options \<Rightarrow> command \<Rightarrow> engine \<times> world \<Rightarrow> response \<times> engine \<times> world \<times> pass" where
  "run_restart fl opts c s = (case run_command fl opts c s of (r, e, w) \<Rightarrow> (r, e, w, Waiting))"

fun run_concurrent :: "f64_math \<Rightarrow> options \<Rightarrow> concurrent \<Rightarrow> engine \<times> world \<times> pass \<Rightarrow> response \<times> engine \<times> world \<times> pass" where
  "run_concurrent fl opts (Call c sched) (e, w, p) =
     (case c of
        CGet k \<Rightarrow> (case engine_get k (e, w) of (r, e, w) \<Rightarrow> (RValue r, e, w, p))
      | CScan start stop \<Rightarrow>
          (let it = engine_scan start stop (e, w) in
           case (worker_turn fl ^^ sched 0) (e, w, p) of (e, w, p) \<Rightarrow> (RRows (and_then it (engine_collect w)), e, w, p))
      | CCompact \<Rightarrow> (case engine_compact fl (e, w) of (r, e, w) \<Rightarrow> (RDone r, e, w, p))
      | CReopen \<Rightarrow> (case finish_pass 7 fl (e, w, p) of (e, w, p) \<Rightarrow> run_restart fl opts CReopen (e, w))
      | CDrop \<Rightarrow> (case finish_pass 7 fl (e, w, p) of (e, w, p) \<Rightarrow> run_restart fl opts CDrop (e, w))
      | CCrash keep \<Rightarrow> run_restart fl opts (CCrash keep) (e, w)
      | _ \<Rightarrow> run_call fl c sched (e, w, p))"
| "run_concurrent fl opts (Cut c sched i keep) (e, w, p) =
     (case drive fl (map sched [0..<i]) (call_begin c (e, w)) p of (c, e, w, p) \<Rightarrow> run_restart fl opts (CCrash keep) (e, w))"

text \<open>The reference knows nothing of the worker; a call that is cut off has taken effect.\<close>

fun ref_concurrent :: "concurrent \<Rightarrow> reference \<Rightarrow> response \<times> reference" where
  "ref_concurrent (Call c sched) kvs = ref_command c kvs"
| "ref_concurrent (Cut c sched i keep) kvs = (RDone (Ok ()), snd (ref_command c kvs))"

fun concurrent_written :: "concurrent \<Rightarrow> bytes set" where
  "concurrent_written (Call c sched) = written c"
| "concurrent_written (Cut c sched i keep) = written c"

text \<open>Compaction by the caller is left out: it races with the worker (\<open>Races\<close>).\<close>

fun no_compact :: "concurrent \<Rightarrow> bool" where
  "no_compact (Call c sched) \<longleftrightarrow> c \<noteq> CCompact"
| "no_compact (Cut c sched i keep) \<longleftrightarrow> True"

section \<open>Between two calls\<close>

lemma mid_store_shared:
  "mid_store (tables_of (sh_version sh)) {} (sh_manifest sh) w = shared_store sh w"
  by (simp add: mid_store_def shared_store_def fun_eq_iff)

lemma mid_engine_idle:
  assumes "c = Finished (Ok ())"
  shows "mid_engine K n0 Waiting c e w \<longleftrightarrow> engine_inv K n0 e w \<and> eng_immutable e = None \<and> 1 < max_levels (eng_options e)"
proof -
  let ?sh = "eng_shared e"
  have l: "listed Waiting c (sh_version ?sh) = sh_version ?sh" "mid_tables (sh_version ?sh) (sh_version ?sh) = set (engine_tables e)"
    by (simp_all add: listed_def assms mid_tables_def)
  have "mid_inv K n0 {} {} (sh_version ?sh) ?sh w \<longleftrightarrow> shared_inv K n0 ?sh w"
    using live_inj [of K n0 ?sh w] live_id_bound(1) [of K n0 ?sh w]
    by (auto simp: mid_inv_def shared_inv_def mid_store_shared l(2) disk_inv_def simp del: set_concat)
  then show ?thesis
    unfolding mid_engine_def l(1) by (auto simp: engine_inv_def assms)
qed

text \<open>Reads.\<close>

lemma mid_readable:
  assumes "mid_engine K n0 p c e w"
  shows "readable e w"
  using mid_engineD(6,7) [OF assms] mid_engine_version(1) [OF assms] by (auto simp: readable_def version_ok_def list_all_iff)

lemma mid_serves:
  assumes inv: "mid_inv K n0 I T L sh w" and t: "t \<in> mid_tables L (sh_version sh)"
  shows "serves (mid_store (mid_tables L (sh_version sh)) I (sh_manifest sh) w) t w"
proof -
  have ok: "sst_ok w t"
    using mid_good [OF inv t] by (simp add: good_table_def)
  have "serves (block_store (mid_tables L (sh_version sh)) w) t w"
    using ok unfolding sst_ok_def by (rule block_store_serves [OF _ t mid_invD(6) [OF inv]])
  moreover have "n0 \<le> next_table_id (sh_manifest sh)"
    using mid_invD(1) [OF inv] by (simp add: disk_inv_def man_at_def)
  then have "sst_id t < next_table_id (sh_manifest sh)"
    using mid_invD(7) [OF inv t] by (rule less_le_trans [rotated])
  moreover have "sst_id t \<notin> I"
    using mid_invD(9) [OF inv] t by blast
  ultimately show ?thesis
    by (auto simp: serves_def mid_store_def)
qed

lemma mid_table_safe:
  assumes mid: "mid_engine K n0 p c e w" and t: "t \<in> set (engine_tables e)"
  shows "safe_id p c e (sst_id t)"
proof -
  note inv = mid_engineD(1) [OF mid]
  have "t \<in> mid_tables (listed p c (sh_version (eng_shared e))) (sh_version (eng_shared e))"
    using t by (simp add: mid_tables_def)
  moreover have "n0 \<le> next_table_id (sh_manifest (eng_shared e))"
    using mid_invD(1) [OF inv] by (simp add: disk_inv_def man_at_def)
  ultimately show ?thesis
    using mid_invD(7,9) [OF inv] by (auto simp: safe_id_def intro: less_le_trans simp del: set_concat)
qed

lemma mid_get:
  assumes mid: "mid_engine K n0 p c e w" and key: "validate_key key = Ok ()"
  obtains sh where "engine_get key (e, w) = (Ok (engine_map e w key), e\<lparr>eng_shared := sh\<rparr>, w)"
    and "mid_engine K n0 p c (e\<lparr>eng_shared := sh\<rparr>) w" and "engine_map (e\<lparr>eng_shared := sh\<rparr>) w = engine_map e w"
    and "mid_use p c (e\<lparr>eng_shared := sh\<rparr>) = mid_use p c e"
proof -
  let ?sh = "eng_shared e" and ?I = "pass_ids p \<union> call_ids c"
  let ?v = "sh_version ?sh"
  let ?P = "mid_store (mid_tables (listed p c ?v) ?v) ?I (sh_manifest ?sh) w"
  note inv = mid_engineD(1) [OF mid]
  have serve: "serves ?P t w" if "t \<in> set (engine_tables e)" for t
    by (rule mid_serves [OF inv]) (use that in \<open>simp add: mid_tables_def\<close>)
  obtain k a b where get: "engine_get key (e, w) = (Ok (engine_map e w key),
      e\<lparr>eng_shared := ?sh\<lparr>sh_cache := k, bloom_skips := a, sstable_reads := b\<rparr>\<rparr>, w)" and k: "block_cache.coherent ?P k"
    by (rule engine_get_reads [OF mid_readable [OF mid] serve mid_invD(12) [OF inv] key])
  let ?sh' = "?sh\<lparr>sh_cache := k, bloom_skips := a, sstable_reads := b\<rparr>"
  have "mid_inv K n0 ?I (pass_tabs p \<union> call_tabs c) (listed p c ?v) ?sh' w"
    using inv k by (simp add: mid_inv_def)
  moreover have "call_inv w (e\<lparr>eng_shared := ?sh'\<rparr>) c"
    using mid_engineD(10) [OF mid] by (cases c) simp_all
  moreover have "log_inv K (e\<lparr>eng_shared := ?sh'\<rparr>) w"
    using mid_engineD(4) [OF mid] by (simp add: log_inv_def)
  ultimately have "mid_engine K n0 p c (e\<lparr>eng_shared := ?sh'\<rparr>) w"
    using mid_engineD(2,3,5-9) [OF mid] unfolding mid_engine_def by simp
  moreover have "engine_map (e\<lparr>eng_shared := ?sh'\<rparr>) w = engine_map e w"
    by (rule engine_map_cong) simp_all
  ultimately show ?thesis
    using that [of ?sh'] get by (simp add: mid_use_def id_use_def next_no_def)
qed

text \<open>
  A crash, wherever the two threads are. The other files of the directory may hold anything: recovery reads the manifest,
  the log and the tables the manifest lists.
\<close>

definition same_recovery :: "version \<Rightarrow> world \<Rightarrow> world \<Rightarrow> bool" where
  "same_recovery v w w' \<longleftrightarrow> same_tables v w w' \<and>
     files w' MANIFEST_FILE = files w MANIFEST_FILE \<and> files w' WAL_FILE_NAME = files w WAL_FILE_NAME"

lemma mid_crash:
  assumes mid: "mid_engine K n0 p c e w" and same: "same_recovery (listed p c (sh_version (eng_shared e))) w w'"
    and keep: "crash_keeps keep w'" and opts: "max_levels opts = max_levels (eng_options e)"
  obtains e' where "engine_open_with opts (crash keep w') = (Ok e', crash keep w')"
    and "engine_inv K n0 e' (crash keep w')" and "eng_options e' = opts" and "eng_worker e' = worker_start"
    and "eng_immutable e' = None" and "next_no e' \<le> next_no e" and "engine_map e' (crash keep w') = engine_map e w"
proof -
  let ?L = "listed p c (sh_version (eng_shared e))" and ?w = "crash keep w'"
  note inv = mid_engineD(1) [OF mid]
  have before: "version_ok w ?L" "levels_at K w ?L" and at: "man_at n0 (sh_manifest (eng_shared e)) w"
    using mid_invD(1) [OF inv] by (simp_all add: disk_inv_def)
  have tabs: "same_tables ?L w w'" and man: "files w' MANIFEST_FILE = files w MANIFEST_FILE"
    and log: "files w' WAL_FILE_NAME = files w WAL_FILE_NAME"
    using same by (simp_all add: same_recovery_def)
  have disk: "disk_inv K n0 (sh_manifest (eng_shared e)) ?L w'"
    using mid_invD(1) [OF inv] same_tables_ok [OF before(2,1) tabs] man_at_cong [OF at man] by (simp add: disk_inv_def)
  have look: "tlook w' (concat (levels ?L)) k = tlook w (concat (levels ?L)) k" for k
    by (rule same_tables_tlook [OF before(2,1) tabs order_refl])
  have len: "max_levels opts = length (levels ?L)"
    using mid_invD(5) [OF inv] mid_engineD(5) [OF mid] opts by simp
  have wal: "eng_wal e = wal_here"
    using mid_engineD(4) [OF mid] by (cases "eng_wal e") (simp add: log_inv_def)
  obtain ops where ops: "wal_holds wal_here ops w'" "wal_synced wal_here w'" "fst ` op_entry ` set ops \<subseteq> K"
      "mem_get (fold apply_operation ops mem_new) = buffer_look e"
    using mid_engineD(4) [OF mid] wal log by (auto simp: log_inv_def wal_holds_def wal_synced_def file_of_def)
  have bound: "unat n0 \<le> next_no e"
    using disk by (simp add: disk_inv_def man_at_def next_no_def word_le_nat_alt)
  show ?thesis
  proof (rule engine_open_ok [OF disk_inv_crash(1) [OF disk keep] len wal_crash [OF ops(1,2) keep] ops(3)])
    fix e'
    assume e': "engine_open_with opts ?w = (Ok e', ?w)" "engine_inv K n0 e' ?w" "eng_options e' = opts"
      "eng_worker e' = worker_start" "eng_immutable e' = None" "next_no e' = unat n0"
      and found: "\<And>k. engine_look e' ?w k = (case mem_get (fold apply_operation ops mem_new) k of
        Some x \<Rightarrow> Some x | None \<Rightarrow> tlook ?w (concat (levels ?L)) k)"
    have "engine_map e' ?w k = engine_map e w k" for k
      using listed_map [OF mid, of k] unfolding engine_map_def [of e'] found ops(4) disk_inv_crash(2) [OF disk keep] look .
    then show thesis
      using that e' bound by (simp add: fun_eq_iff)
  qed
qed

section \<open>Calls end and passes end\<close>

fun call_left :: "call \<Rightarrow> nat" where
  "call_left (Frozen es) = 6"
| "call_left (Named es i) = 5"
| "call_left (Created i t) = 4"
| "call_left (Listed t) = 3"
| "call_left Inserted = 2"
| "call_left Truncated = 1"
| "call_left (Finished r) = 0"

lemma call_left_0: "call_left c = 0 \<longleftrightarrow> (\<exists>r. c = Finished r)"
  by (cases c) simp_all

lemma call_left_6: "call_left c \<le> 6"
  by (cases c) simp_all

lemma call_turn_left: "call_turn fl (c, e, w) = (c', e', w') \<Longrightarrow> call_left c' \<le> call_left c - 1"
  by (cases c) (auto simp: call_turn_def call_step_def call_next_def Let_def split: result.splits list.splits prod.splits)

fun pass_left :: "pass \<Rightarrow> nat" where
  "pass_left Started = 7"
| "pass_left (Picked v job) = 6"
| "pass_left (Numbered v job i) = 5"
| "pass_left (Built v job ot) = 4"
| "pass_left (Recorded v job ot) = 3"
| "pass_left (Installed v job) = 2"
| "pass_left (Returned r) = 1"
| "pass_left Waiting = 0"

lemma pass_left_0: "pass_left p = 0 \<longleftrightarrow> p = Waiting"
  by (cases p) simp_all

lemma pass_left_7: "pass_left p \<le> 7"
  by (cases p) simp_all

lemma worker_turn_left:
  assumes "worker_turn fl (e, w, p) = (e', w', p')" and "p \<noteq> Waiting"
  shows "pass_left p' < pass_left p"
  using assms by (cases p)
    (auto simp: worker_turn_def off_thread_def pass_next_def Let_def split: result.splits option.splits prod.splits)

lemma drive_ok:
  assumes "mid_engine K n0 p c e w" and "worker_ok (eng_worker e)" and "failpoint w = None"
    and "capacity fl (eng_options e) K" and "mid_use p c e < 2 ^ 64"
  shows "\<exists>c' e' w' p'. drive fl ns (c, e, w) p = (c', e', w', p') \<and> mid_move K p c e w p' c' e' w' \<and>
    call_left c' \<le> call_left c - length ns"
  using assms
proof (induction ns arbitrary: n0 c e w p)
  case Nil
  then show ?case using mid_move_refl by auto
next
  case (Cons n ns)
  obtain p1 e1 w1 where 1: "(worker_turn fl ^^ n) (e, w, p) = (e1, w1, p1)" "mid_move K p c e w p1 c e1 w1"
    using worker_turns_ok [OF Cons.prems] by blast
  then obtain n1 where pre1: "mid_engine K n1 p1 c e1 w1" "worker_ok (eng_worker e1)" "failpoint w1 = None"
      "capacity fl (eng_options e1) K" "mid_use p1 c e1 < 2 ^ 64"
    using Cons.prems by (auto simp: mid_move_defs)
  then obtain c2 e2 w2 where 2: "call_turn fl (c, e1, w1) = (c2, e2, w2)" "mid_move K p1 c e1 w1 p1 c2 e2 w2"
    using call_turn_ok by blast
  then obtain n2 where "mid_engine K n2 p1 c2 e2 w2" "worker_ok (eng_worker e2)" "failpoint w2 = None"
      "capacity fl (eng_options e2) K" "mid_use p1 c2 e2 < 2 ^ 64"
    using pre1 by (auto simp: mid_move_defs)
  then obtain c3 e3 w3 p3 where 3: "drive fl ns (c2, e2, w2) p1 = (c3, e3, w3, p3)" "mid_move K p1 c2 e2 w2 p3 c3 e3 w3"
      "call_left c3 \<le> call_left c2 - length ns"
    using Cons.IH by blast
  have "mid_move K p c e w p3 c3 e3 w3"
    by (rule mid_move_trans [OF 1(2) mid_move_trans [OF 2(2) 3(2)]])
  then show ?case
    using 1(1) 2(1) 3(1,3) call_turn_left [OF 2(1)] by simp
qed

lemma drive_finished: "drive fl ns (Finished r, e, w) p = (Finished r, (worker_turn fl ^^ sum_list ns) (e, w, p))"
proof (induction ns arbitrary: e w p)
  case (Cons n ns)
  obtain e1 w1 p1 where "(worker_turn fl ^^ n) (e, w, p) = (e1, w1, p1)"
    by (cases "(worker_turn fl ^^ n) (e, w, p)")
  then show ?case
    using Cons.IH by (simp add: call_turn_def call_step_def funpow_add add.commute [of n])
qed simp

lemma finish_pass_ok:
  assumes "mid_engine K n0 p c e w" and "worker_ok (eng_worker e)" and "failpoint w = None"
    and "capacity fl (eng_options e) K" and "mid_use p c e < 2 ^ 64" and "pass_left p \<le> n"
  shows "\<exists>e' w'. finish_pass n fl (e, w, p) = (e', w', Waiting) \<and> mid_move K p c e w Waiting c e' w'"
  using assms
proof (induction n arbitrary: n0 e w p)
  case 0
  then have "p = Waiting" by (simp add: pass_left_0)
  then show ?case using 0 mid_move_refl by auto
next
  case (Suc n)
  show ?case
  proof (cases "p = Waiting")
    case True
    then show ?thesis using Suc.prems mid_move_refl by auto
  next
    case False
    obtain p1 e1 w1 where 1: "worker_turn fl (e, w, p) = (e1, w1, p1)" "mid_move K p c e w p1 c e1 w1"
      using worker_turn_ok [OF Suc.prems(1-5)] by blast
    then obtain n1 where pre1: "mid_engine K n1 p1 c e1 w1" "worker_ok (eng_worker e1)" "failpoint w1 = None"
        "capacity fl (eng_options e1) K" "mid_use p1 c e1 < 2 ^ 64"
      using Suc.prems by (auto simp: mid_move_defs)
    have "pass_left p1 \<le> n"
      using worker_turn_left [OF 1(1) False] Suc.prems(6) by simp
    then obtain e2 w2 where 2: "finish_pass n fl (e1, w1, p1) = (e2, w2, Waiting)" "mid_move K p1 c e1 w1 Waiting c e2 w2"
      using Suc.IH [OF pre1] by blast
    have "finish_pass (Suc n) fl (e, w, p) = finish_pass n fl (worker_turn fl (e, w, p))"
      using False by (cases p) simp_all
    then show ?thesis
      using 1 2 mid_move_trans by auto
  qed
qed

section \<open>Each step of a run follows the reference\<close>

abbreviation idle :: call where
  "idle \<equiv> Finished (Ok ())"

definition conc_rel :: "f64_math \<Rightarrow> options \<Rightarrow> bytes set \<Rightarrow> nat \<Rightarrow> engine \<times> world \<times> pass \<Rightarrow> reference \<Rightarrow> bool" where
  "conc_rel fl opts K n s kvs \<longleftrightarrow>
     (case s of (e, w, p) \<Rightarrow>
        (\<exists>n0. mid_engine K n0 p idle e w) \<and> worker_ok (eng_worker e) \<and> eng_options e = opts \<and> failpoint w = None \<and>
        mid_use p idle e \<le> n \<and> capacity fl opts K \<and> ksorted kvs \<and> map_of kvs = engine_map e w)"

lemma conc_relD:
  assumes "conc_rel fl opts K n (e, w, p) kvs"
  obtains n0 where "mid_engine K n0 p idle e w" and "worker_ok (eng_worker e)" and "failpoint w = None"
    and "capacity fl (eng_options e) K" and "eng_options e = opts" and "mid_use p idle e \<le> n"
    and "ksorted kvs" and "map_of kvs = engine_map e w"
  using assms by (auto simp: conc_rel_def)

lemma conc_rel_weaken: "conc_rel fl opts K n s kvs \<Longrightarrow> n \<le> m \<Longrightarrow> conc_rel fl opts K m s kvs"
  by (auto simp: conc_rel_def)

lemma conc_rel_to:
  assumes rel: "conc_rel fl opts K n (e, w, p) kvs" and to: "mid_to m M K p idle e w p' idle e' w'" and "m \<le> 2"
    and "ksorted kvs'" and "map_of kvs' = M"
  shows "conc_rel fl opts K (n + 2) (e', w', p') kvs'"
  using assms by (auto simp: conc_rel_def mid_to_def)

lemma conc_rel_move: "conc_rel fl opts K n (e, w, p) kvs \<Longrightarrow> mid_move K p idle e w p' idle e' w' \<Longrightarrow> conc_rel fl opts K n (e', w', p') kvs"
  by (auto simp: conc_rel_def mid_move_defs)

lemma conc_turns:
  assumes rel: "conc_rel fl opts K n (e, w, p) kvs" and n: "n < 2 ^ 64"
  obtains e' w' p' where "(worker_turn fl ^^ m) (e, w, p) = (e', w', p')" and "conc_rel fl opts K n (e', w', p') kvs"
    and "mid_move K p idle e w p' idle e' w'"
proof (rule conc_relD [OF rel])
  fix n0
  assume pre: "mid_engine K n0 p idle e w" "worker_ok (eng_worker e)" "failpoint w = None" "capacity fl (eng_options e) K"
    and "mid_use p idle e \<le> n"
  then have "mid_use p idle e < 2 ^ 64" using n by simp
  then show thesis
    using worker_turns_ok [OF pre] conc_rel_move [OF rel] that by blast
qed

definition conc_follows :: "f64_math \<Rightarrow> options \<Rightarrow> bytes set \<Rightarrow> nat \<Rightarrow> concurrent \<Rightarrow> engine \<times> world \<times> pass \<Rightarrow> reference \<Rightarrow> bool" where
  "conc_follows fl opts K n c s kvs \<longleftrightarrow>
     fst (run_concurrent fl opts c s) = fst (ref_concurrent c kvs) \<and>
     conc_rel fl opts K (n + 2) (snd (run_concurrent fl opts c s)) (snd (ref_concurrent c kvs))"

text \<open>A call that begins, and the same call after some of its steps.\<close>

lemma begin_follows:
  assumes rel: "conc_rel fl opts K n (e, w, p) kvs" and k: "written c \<subseteq> K"
  shows "(\<exists>c' e' w'. call_begin c (e, w) = (c', e', w') \<and> fst (ref_command c kvs) = RDone (Ok ()) \<and>
      mid_to 2 (map_of (snd (ref_command c kvs))) K p idle e w p c' e' w' \<and> ksorted (snd (ref_command c kvs)))
    \<or> (\<exists>err. call_begin c (e, w) = (Finished (Err err), e, w) \<and> ref_command c kvs = (RDone (Err err), kvs))
    \<or> (call_begin c (e, w) = (idle, e, w) \<and> c \<notin> {CFlush} \<and> snd (ref_command c kvs) = kvs)"
proof (rule conc_relD [OF rel])
  fix n0
  assume pre: "mid_engine K n0 p idle e w" "worker_ok (eng_worker e)" "failpoint w = None" and kvs: "ksorted kvs" "map_of kvs = engine_map e w"
  show ?thesis
  proof (cases c)
    case (CPut k v)
    show ?thesis
    proof (cases "key_error k = None \<and> value_error v = None")
      case True
      then have op: "op_fits (Put k v)" "fst (op_entry (Put k v)) \<in> K"
        using CPut k by (auto simp: key_error_def value_error_def op_fits_def record_consts split: if_splits)
      then show ?thesis
        using write_begin_ok [OF pre op] True CPut kvs
        by (auto simp: put_begin_def call_after_def key_error_validate value_error_validate ksorted_btree_insert map_of_btree_insert)
    next
      case False
      then show ?thesis
        using CPut by (auto simp: put_begin_def call_after_def key_error_validate value_error_validate split: option.splits)
    qed
  next
    case (CDelete k')
    show ?thesis
    proof (cases "key_error k'")
      case None
      then have op: "op_fits (Delete k')" "fst (op_entry (Delete k')) \<in> K"
        using CDelete k by (auto simp: key_error_def op_fits_def record_consts split: if_splits)
      then show ?thesis
        using write_begin_ok [OF pre op] None CDelete kvs
        by (auto simp: delete_begin_def call_after_def key_error_validate ksorted_filter ref_delete)
    next
      case (Some err)
      then show ?thesis
        using CDelete by (auto simp: delete_begin_def call_after_def key_error_validate)
    qed
  next
    case CFlush
    then show ?thesis
      using flush_begin_ok [OF pre] kvs by auto
  qed (auto split: option.splits)
qed

lemma drive_to:
  assumes to: "mid_to m M K p idle e w p c e1 w1" and fp: "failpoint w = None" and cap: "capacity fl (eng_options e) K"
    and room: "mid_use p idle e + m < 2 ^ 64"
  obtains c' e' w' p' where "drive fl ns (c, e1, w1) p = (c', e', w', p')" and "mid_to m M K p idle e w p' c' e' w'"
    and "call_left c' \<le> call_left c - length ns"
proof -
  obtain n1 where "mid_engine K n1 p c e1 w1" "worker_ok (eng_worker e1)" "failpoint w1 = None" "capacity fl (eng_options e1) K"
      "mid_use p c e1 < 2 ^ 64"
    using to fp cap room by (auto simp: mid_to_def)
  then show thesis
    using drive_ok [of K n1 p c e1 w1 fl ns] mid_to_move [OF to] that by blast
qed

text \<open>Six steps end the call, with success.\<close>

lemma call_goes:
  assumes begins: "call_begin c (e, w) = (c1, e1, w1)" and to: "mid_to m M K p idle e w p c1 e1 w1"
    and fp: "failpoint w = None" and cap: "capacity fl (eng_options e) K" and room: "mid_use p idle e + m < 2 ^ 64"
  obtains e' w' p' where "run_call fl c sched (e, w, p) = (RDone (Ok ()), e', w', p')" and "mid_to m M K p idle e w p' idle e' w'"
proof -
  let ?ns = "map sched [0..<6]"
  obtain c2 e2 w2 p2 where d: "drive fl ?ns (c1, e1, w1) p = (c2, e2, w2, p2)" "mid_to m M K p idle e w p2 c2 e2 w2"
      "call_left c2 \<le> call_left c1 - length ?ns"
    by (rule drive_to [OF to fp cap room])
  have "call_left c2 = 0"
    using d(3) call_left_6 [of c1] by simp
  then obtain r where r: "c2 = Finished r"
    by (auto simp: call_left_0)
  moreover have "r = Ok ()"
    using d(2) r mid_engineD(10) by (fastforce simp: mid_to_def)
  ultimately have c2: "c2 = idle" by simp
  have "run_call fl c sched (e, w, p) = (RDone (Ok ()), e2, w2, p2)"
    unfolding run_call_def by (simp only: prod.case begins d(1) c2) (simp add: call_response_def)
  then show thesis
    using that d(2) c2 by blast
qed

text \<open>With no turn of the worker it is the call of the engine.\<close>

lemma drive_alone: "drive fl (replicate n 0) (c, e, w) p = (case (call_turn fl ^^ n) (c, e, w) of (c, e, w) \<Rightarrow> (c, e, w, p))"
proof (induction n arbitrary: c e w)
  case (Suc n)
  obtain c1 e1 w1 where "call_turn fl (c, e, w) = (c1, e1, w1)"
    by (cases "call_turn fl (c, e, w)")
  then show ?case
    using Suc.IH by (simp add: funpow_swap1)
qed simp

lemma run_call_alone:
  "run_call fl c (\<lambda>_. 0) (e, w, p) =
     (case (call_turn fl ^^ 6) (call_begin c (e, w)) of (c, e, w) \<Rightarrow> (call_response c, e, w, p))"
proof -
  obtain c1 e1 w1 where "call_begin c (e, w) = (c1, e1, w1)"
    by (cases "call_begin c (e, w)")
  then show ?thesis
    using drive_alone [of fl 6 c1 e1 w1 p] by (simp add: run_call_def map_replicate_const split: prod.splits)
qed

lemma call_follows:
  assumes rel: "conc_rel fl opts K n (e, w, p) kvs" and n: "n + 2 < 2 ^ 64" and k: "written c \<subseteq> K"
    and c: "c = CBackground \<or> c = CFlush \<or> (\<exists>k v. c = CPut k v) \<or> (\<exists>k. c = CDelete k)"
  shows "conc_follows fl opts K n (Call c sched) (e, w, p) kvs"
proof -
  let ?ns = "map sched [0..<6]"
  have run: "run_concurrent fl opts (Call c sched) (e, w, p) = run_call fl c sched (e, w, p)"
    using c by auto
  have still: "run_call fl c sched (e, w, p) = (RDone r, (worker_turn fl ^^ sum_list ?ns) (e, w, p))"
      if "call_begin c (e, w) = (Finished r, e, w)" for r
    unfolding run_call_def by (simp only: that prod.case drive_finished) (simp add: call_response_def)
  have kept: "conc_rel fl opts K (n + 2) ((worker_turn fl ^^ m) (e, w, p)) kvs" for m
    by (rule conc_turns [OF rel, of m]) (use n conc_rel_weaken in auto)
  consider (go) c' e' w' where "call_begin c (e, w) = (c', e', w')" "fst (ref_command c kvs) = RDone (Ok ())"
      "mid_to 2 (map_of (snd (ref_command c kvs))) K p idle e w p c' e' w'" "ksorted (snd (ref_command c kvs))"
    | (bad) err where "call_begin c (e, w) = (Finished (Err err), e, w)" "ref_command c kvs = (RDone (Err err), kvs)"
    | (none) "call_begin c (e, w) = (idle, e, w)" "c \<notin> {CFlush}" "snd (ref_command c kvs) = kvs"
    using begin_follows [OF rel k] by blast
  then show ?thesis
  proof cases
    case (go c' e' w')
    have "failpoint w = None" "capacity fl (eng_options e) K" "mid_use p idle e + 2 < 2 ^ 64"
      using rel n by (auto simp: conc_rel_def)
    then obtain e2 w2 p2 where d: "run_call fl c sched (e, w, p) = (RDone (Ok ()), e2, w2, p2)"
        "mid_to 2 (map_of (snd (ref_command c kvs))) K p idle e w p2 idle e2 w2"
      using call_goes [OF go(1,3)] by blast
    have "conc_rel fl opts K (n + 2) (e2, w2, p2) (snd (ref_command c kvs))"
      by (rule conc_rel_to [OF rel d(2) _ go(4) refl]) simp
    then show ?thesis
      using run go(2) d(1) by (simp add: conc_follows_def)
  next
    case (bad err)
    then show ?thesis
      using run still kept by (simp add: conc_follows_def)
  next
    case none
    moreover have "fst (ref_command c kvs) = RDone (Ok ())"
      using none c by (cases c) (auto simp: put_begin_def delete_begin_def call_after_def key_error_validate value_error_validate split: option.splits)
    ultimately show ?thesis
      using run still kept by (simp add: conc_follows_def)
  qed
qed

text \<open>Reads.\<close>

lemma get_follows:
  assumes rel: "conc_rel fl opts K n (e, w, p) kvs"
  shows "conc_follows fl opts K n (Call (CGet k) sched) (e, w, p) kvs"
proof (rule conc_relD [OF rel])
  fix n0
  assume mid: "mid_engine K n0 p idle e w" and kvs: "map_of kvs = engine_map e w"
  show ?thesis
  proof (cases "key_error k")
    case None
    then have valid: "validate_key k = Ok ()" by (simp add: key_error_validate)
    show ?thesis
    proof (rule mid_get [OF mid valid])
      fix sh
      assume get: "engine_get k (e, w) = (Ok (engine_map e w k), e\<lparr>eng_shared := sh\<rparr>, w)"
        and after: "mid_engine K n0 p idle (e\<lparr>eng_shared := sh\<rparr>) w" "engine_map (e\<lparr>eng_shared := sh\<rparr>) w = engine_map e w"
          "mid_use p idle (e\<lparr>eng_shared := sh\<rparr>) = mid_use p idle e"
      have "conc_rel fl opts K (n + 2) (e\<lparr>eng_shared := sh\<rparr>, w, p) kvs"
        using rel after by (auto simp: conc_rel_def)
      then show ?thesis
        using get kvs None by (simp add: conc_follows_def)
    qed
  next
    case (Some err)
    then show ?thesis
      using conc_rel_weaken [OF rel, of "n + 2"] by (simp add: conc_follows_def engine_get_def key_error_validate)
  qed
qed

lemma scan_follows:
  assumes rel: "conc_rel fl opts K n (e, w, p) kvs" and n: "n + 2 < 2 ^ 64"
  shows "conc_follows fl opts K n (Call (CScan start stop) sched) (e, w, p) kvs"
proof (rule conc_relD [OF rel])
  fix n0
  assume mid: "mid_engine K n0 p idle e w" and kvs: "ksorted kvs" "map_of kvs = engine_map e w"
  note v = mid_engine_version [OF mid]
  obtain e' w' p' where turns: "(worker_turn fl ^^ sched 0) (e, w, p) = (e', w', p')" "conc_rel fl opts K n (e', w', p') kvs"
      "mid_move K p idle e w p' idle e' w'"
    by (rule conc_turns [OF rel, of "sched 0"]) (use n in simp)
  have files: "\<forall>t \<in> set (engine_tables e). files w' (sst_path t) = files w (sst_path t)"
  proof
    fix t
    assume t: "t \<in> set (engine_tables e)"
    then have "files w' (table_file_name (sst_id t)) = files w (table_file_name (sst_id t))"
      using turns(3) mid_table_safe [OF mid] by (auto simp: mid_move_defs simp del: set_concat)
    moreover have "sst_path t = table_file_name (sst_id t)"
      using live_table_at [OF v(2) t] by (auto simp: table_at_def)
    ultimately show "files w' (sst_path t) = files w (sst_path t)" by simp
  qed
  show ?thesis
  proof (rule engine_scan_later [OF mid_readable [OF mid], of start stop])
    fix it rows
    assume scan: "engine_scan start stop (e, w) = Ok it" "ksorted rows"
      and later: "\<forall>w'. (\<forall>t \<in> set (engine_tables e). files w' (sst_path t) = files w (sst_path t)) \<longrightarrow> engine_collect w' it = Ok rows"
      and rows: "\<And>k. map_of rows k = (if in_range k start stop then engine_map e w k else None)"
    have "rows = filter (\<lambda>(k, _). in_range k start stop) kvs"
      using scan(2) rows kvs by (intro ksorted_map_of_eqI) (simp_all add: ksorted_filter ref_scan fun_eq_iff)
    moreover have "engine_collect w' it = Ok rows"
      using later files by blast
    ultimately show ?thesis
      using scan(1) turns conc_rel_weaken [OF turns(2), of "n + 2"] by (simp add: conc_follows_def)
  qed
qed

text \<open>Restarts.\<close>

lemma run_rel_conc:
  "conc_rel fl opts K n (e, w, Waiting) kvs \<longleftrightarrow> run_rel fl opts K n (e, w) kvs \<and> 1 < max_levels opts"
  by (auto simp: conc_rel_def run_rel_def mid_engine_idle [OF refl] engine_ok_def mid_use_def)

lemma restart_follows:
  assumes rel: "conc_rel fl opts K n (e, w, p) kvs" and n: "n + 2 < 2 ^ 64" and c: "c = CReopen \<or> c = CDrop"
  shows "conc_follows fl opts K n (Call c sched) (e, w, p) kvs"
proof (rule conc_relD [OF rel])
  fix n0
  assume pre: "mid_engine K n0 p idle e w" "worker_ok (eng_worker e)" "failpoint w = None" "capacity fl (eng_options e) K"
    and "mid_use p idle e \<le> n"
  then have "mid_use p idle e < 2 ^ 64" using n by simp
  then obtain e1 w1 where fin: "finish_pass 7 fl (e, w, p) = (e1, w1, Waiting)" "mid_move K p idle e w Waiting idle e1 w1"
    using finish_pass_ok [OF pre _ pass_left_7] by blast
  have rel1: "run_rel fl opts K n (e1, w1) kvs" and lv: "1 < max_levels opts"
    using conc_rel_move [OF rel fin(2)] by (simp_all add: run_rel_conc)
  have "follows fl opts K n c (e1, w1) kvs"
    using follows_restarts [OF rel1 n] c by auto
  moreover obtain r e2 w2 where run: "run_command fl opts c (e1, w1) = (r, e2, w2)"
    by (cases "run_command fl opts c (e1, w1)")
  ultimately have "r = fst (ref_command c kvs)" "conc_rel fl opts K (n + 2) (e2, w2, Waiting) (snd (ref_command c kvs))"
    using lv by (simp_all add: follows_def run_rel_conc)
  moreover have "run_concurrent fl opts (Call c sched) (e, w, p) = (r, e2, w2, Waiting)"
    using c fin(1) run by (auto simp: run_restart_def numeral_eq_Suc)
  ultimately show ?thesis
    by (simp add: conc_follows_def)
qed

lemma crash_follows:
  assumes mid: "mid_engine K n0 p c e w" and use: "mid_use p c e \<le> n" and kvs: "ksorted kvs" "map_of kvs = engine_map e w"
    and opts: "eng_options e = opts" and cap: "capacity fl opts K"
  shows "\<exists>e' w'. run_restart fl opts (CCrash keep) (e, w) = (RDone (Ok ()), e', w', Waiting) \<and> conc_rel fl opts K n (e', w', Waiting) kvs"
proof -
  have keep: "crash_keeps (crash_least keep w) w"
    by (simp add: crash_keeps_def crash_least_def)
  show ?thesis
  proof (rule mid_crash [OF mid _ keep refl])
    fix e'
    assume e': "engine_open_with (eng_options e) (crash (crash_least keep w) w) = (Ok e', crash (crash_least keep w) w)"
      "engine_inv K n0 e' (crash (crash_least keep w) w)" "eng_options e' = eng_options e" "eng_worker e' = worker_start"
      "eng_immutable e' = None" "next_no e' \<le> next_no e" "engine_map e' (crash (crash_least keep w) w) = engine_map e w"
    have "run_rel fl opts K n (e', crash (crash_least keep w) w) kvs" "1 < max_levels opts"
      using e' use kvs cap opts mid_engineD(3) [OF mid]
      by (auto simp: run_rel_def engine_ok_def worker_ok_def worker_start_def id_use_def mid_use_def)
    moreover have "run_restart fl opts (CCrash keep) (e, w) = (RDone (Ok ()), e', crash (crash_least keep w) w, Waiting)"
      using e'(1) opts by (simp add: run_restart_def open_again_def)
    ultimately show ?thesis
      by (auto simp: run_rel_conc)
  qed (simp add: same_recovery_def same_tables_def)
qed

lemma cut_follows:
  assumes rel: "conc_rel fl opts K n (e, w, p) kvs" and n: "n + 2 < 2 ^ 64" and k: "written c \<subseteq> K"
  shows "conc_follows fl opts K n (Cut c sched i keep) (e, w, p) kvs"
proof -
  let ?ns = "map sched [0..<i]" and ?kvs = "snd (ref_command c kvs)"
  have goal: "conc_follows fl opts K n (Cut c sched i keep) (e, w, p) kvs"
    if d: "drive fl ?ns (call_begin c (e, w)) p = (c', e', w', p')" and to: "mid_to 2 (map_of ?kvs) K p idle e w p' c'' e' w'"
      and sorted: "ksorted ?kvs" for c' c'' e' w' p'
  proof -
    obtain n1 where "mid_engine K n1 p' c'' e' w'" "mid_use p' c'' e' \<le> n + 2" "map_of ?kvs = engine_map e' w'"
        "eng_options e' = opts" "capacity fl opts K"
      using rel to by (auto simp: conc_rel_def mid_to_def)
    then show ?thesis
      using crash_follows [of K n1 p' c'' e' w' "n + 2" ?kvs opts fl keep] sorted d by (auto simp: conc_follows_def)
  qed
  have sorted: "ksorted kvs" and map: "map_of kvs = engine_map e w"
    using rel by (auto simp: conc_rel_def)
  have still: ?thesis if "call_begin c (e, w) = (Finished r, e, w)" "?kvs = kvs" for r
  proof -
    obtain e' w' p' where turns: "(worker_turn fl ^^ sum_list ?ns) (e, w, p) = (e', w', p')" "mid_move K p idle e w p' idle e' w'"
      by (rule conc_turns [OF rel, of "sum_list ?ns"]) (use n in auto)
    have "mid_to 2 (map_of ?kvs) K p idle e w p' idle e' w'"
      using turns(2) map that(2) by (auto simp: mid_move_defs mid_to_def)
    moreover have "drive fl ?ns (call_begin c (e, w)) p = (Finished r, e', w', p')"
      by (simp only: that(1) drive_finished turns(1))
    ultimately show ?thesis
      using goal sorted that(2) by simp
  qed
  show ?thesis
    using begin_follows [OF rel k]
  proof (elim disjE exE conjE)
    fix c' e' w'
    assume b: "call_begin c (e, w) = (c', e', w')" and to: "mid_to 2 (map_of ?kvs) K p idle e w p c' e' w'" and "ksorted ?kvs"
    have "failpoint w = None" "capacity fl (eng_options e) K" "mid_use p idle e + 2 < 2 ^ 64"
      using rel n by (auto simp: conc_rel_def)
    then show ?thesis
      by (rule drive_to [OF to, of fl ?ns]) (use goal \<open>ksorted ?kvs\<close> b in simp)
  qed (use still in auto)
qed

interpretation threads: simulation "run_concurrent fl opts" ref_concurrent "conc_rel fl opts K"
  "\<lambda>c. concurrent_written c \<subseteq> K \<and> no_compact c" "2 ^ 64" for fl opts K
proof unfold_locales
  fix n c s kvs
  assume rel: "conc_rel fl opts K n s kvs" and c: "concurrent_written c \<subseteq> K \<and> no_compact c" and n: "n + 2 < (2 :: nat) ^ 64"
  obtain e w p where s: "s = (e, w, p)" by (cases s)
  note rel = rel [unfolded s]
  have "conc_follows fl opts K n c (e, w, p) kvs"
  proof (cases c)
    case (Cut d sched i keep)
    then show ?thesis using cut_follows [OF rel n] c by simp
  next
    case (Call d sched)
    show ?thesis
    proof (cases d)
      case (CCrash keep)
      obtain n0 where "mid_engine K n0 p idle e w" "mid_use p idle e \<le> n + 2" "ksorted kvs" "map_of kvs = engine_map e w"
          "eng_options e = opts" "capacity fl opts K"
        using rel by (auto simp: conc_rel_def)
      then show ?thesis
        using crash_follows [of K n0 p idle e w "n + 2" kvs opts fl keep] CCrash Call by (auto simp: conc_follows_def)
    qed (use Call c call_follows [OF rel n] get_follows [OF rel] scan_follows [OF rel n] restart_follows [OF rel n] in auto)
  qed
  then show "fst (run_concurrent fl opts c s) = fst (ref_concurrent c kvs) \<and>
      conc_rel fl opts K (n + 2) (snd (run_concurrent fl opts c s)) (snd (ref_concurrent c kvs))"
    by (simp add: conc_follows_def s)
qed

lemma fresh_threads:
  assumes "files w MANIFEST_FILE = None" and "files w WAL_FILE_NAME = None" and "failpoint w = None"
    and "1 < max_levels opts" and "max_levels opts \<le> 2 ^ 32" and "capacity fl opts K"
    and "(\<Union>c \<in> set cmds. concurrent_written c) \<subseteq> K" and "list_all no_compact cmds" and "2 * length cmds + 1 < 2 ^ 64"
  obtains e w' where "engine_open_with opts w = (Ok e, w')"
    and "fst (run_all (run_concurrent fl opts) cmds (e, w', Waiting)) = fst (run_all ref_concurrent cmds [])"
    and "conc_rel fl opts K (2 * length cmds + 1) (snd (run_all (run_concurrent fl opts) cmds (e, w', Waiting)))
      (snd (run_all ref_concurrent cmds []))"
proof -
  have lv: "0 < max_levels opts" using assms(4) by simp
  obtain e w' where new: "engine_open_with opts w = (Ok e, w')" "engine_ok K e w'" "eng_options e = opts"
      "eng_immutable e = None" "id_use e = 1" "failpoint w' = failpoint w" "engine_map e w' = (\<lambda>_. None)"
    using engine_open_fresh [OF assms(1,2) lv assms(5), where K = K] by metis
  then have "conc_rel fl opts K 1 (e, w', Waiting) []"
    using assms(3,4,6) by (simp add: run_rel_conc run_rel_def)
  moreover have "list_all (\<lambda>c. concurrent_written c \<subseteq> K \<and> no_compact c) cmds" "1 + 2 * length cmds < 2 ^ 64"
    using assms(7-9) by (auto simp: list_all_iff)
  ultimately show thesis
    using that threads.run_follows [of fl opts K 1 "(e, w', Waiting)" "[]" cmds] new(1) by (simp add: add.commute)
qed

text \<open>
  C2: the background thread is invisible. Start the engine with at least two levels in an empty directory and run any
  sequence of puts, deletes, gets, scans, flushes, clean restarts, drops and crashes, while the worker takes any number of
  its turns before every step of every call, and cut any call off by a crash between two of its steps: every response is
  the response of the reference map, and a call that was cut off has taken effect. Left out are \<^verbatim>\<open>compact\<close> called by the user
  and engines with one level, for which this is false (\<open>Races\<close>). A step is what a thread does up to the next point at
  which it holds no lock, so the append and sync of a log record are one step, and so are the manifest records of a
  compaction: crashes inside the former and inside the steps of a flush are the subject of \<open>Engine_Faults\<close> and
  \<open>Flush_Crash\<close>, a crash inside the latter that brings an old value back the one of \<open>Compaction_Crash\<close>.
\<close>

theorem threads_refine_map:
  assumes "files w MANIFEST_FILE = None" and "files w WAL_FILE_NAME = None" and "failpoint w = None"
    and "1 < max_levels opts" and "max_levels opts \<le> 2 ^ 32"
    and "capacity fl opts (\<Union>c \<in> set cmds. concurrent_written c)" and "list_all no_compact cmds" and "2 * length cmds + 1 < 2 ^ 64"
  shows "\<exists>e w'. engine_open_with opts w = (Ok e, w') \<and>
    fst (run_all (run_concurrent fl opts) cmds (e, w', Waiting)) = fst (run_all ref_concurrent cmds [])"
proof -
  show ?thesis
    by (rule fresh_threads [OF assms(1-6) order_refl assms(7,8)]) blast
qed

definition example_threads :: "concurrent list" where
  "example_threads =
     [Call (CPut [97] [1]) (\<lambda>_. 0), Call CFlush (\<lambda>_. 1), Call (CPut [97] [2]) (\<lambda>_. 0), Call CFlush (\<lambda>_. 0),
      Call CBackground (\<lambda>i. if i = 0 then 4 else 0), Call (CPut [98] [3]) (\<lambda>_. 0), Call CFlush (\<lambda>i. i mod 2),
      Call (CGet [97]) (\<lambda>_. 0), Call (CScan Unbounded Unbounded) (\<lambda>_. 5), Cut (CDelete [98]) (\<lambda>_. 1) 3 (\<lambda>_. 0),
      Call (CGet [98]) (\<lambda>_. 0), Call CReopen (\<lambda>_. 0), Call (CScan Unbounded (Excluded [99])) (\<lambda>_. 0)]"

theorem threads_refine_map_witness:
  "\<exists>e w'. engine_open_with options_for_test empty_world = (Ok e, w') \<and>
     fst (run_all (run_concurrent f64_example options_for_test) example_threads (e, w', Waiting)) =
       [RDone (Ok ()), RDone (Ok ()), RDone (Ok ()), RDone (Ok ()), RDone (Ok ()), RDone (Ok ()), RDone (Ok ()),
        RValue (Ok (Some [2])), RRows (Ok [([97], [2]), ([98], [3])]), RDone (Ok ()), RValue (Ok None), RDone (Ok ()),
        RRows (Ok [([97], [2])])]"
proof -
  have "capacity f64_example options_for_test (\<Union>c \<in> set example_threads. concurrent_written c)"
    by (intro example_capacity) (simp add: example_threads_def)
  moreover have "2 * length example_threads + 1 < 2 ^ 64" "list_all no_compact example_threads" "1 < max_levels options_for_test"
    by (simp_all add: example_threads_def options_for_test_def)
  moreover have "fst (run_all ref_concurrent example_threads []) =
     [RDone (Ok ()), RDone (Ok ()), RDone (Ok ()), RDone (Ok ()), RDone (Ok ()), RDone (Ok ()), RDone (Ok ()),
      RValue (Ok (Some [2])), RRows (Ok [([97], [2]), ([98], [3])]), RDone (Ok ()), RValue (Ok None), RDone (Ok ()),
      RRows (Ok [([97], [2])])]"
    by (simp add: example_threads_def key_error_def value_error_def in_range_def)
  ultimately show ?thesis
    using threads_refine_map [OF example_world(1) example_world(1) example_world(2) _ example_options(2), of f64_example example_threads]
    by simp
qed

end
