(* ===== verification/Engine_Faults.thy ===== *)
theory Engine_Faults
  imports Engine_Run
begin

text \<open>
  Failures and crashes inside an operation: a log append or sync that fails, a flush that fails, a crash while a
  record is being written, and what a later restart finds.
\<close>

section \<open>Changes the engine does not see\<close>

lemma engine_same_files:
  assumes inv: "engine_inv K n0 e w" and same: "same_tables (sh_version (eng_shared e)) w w'"
    and files: "files w' MANIFEST_FILE = files w MANIFEST_FILE" "files w' WAL_FILE_NAME = files w WAL_FILE_NAME"
  shows "engine_inv K n0 e w'" and "engine_map e w' = engine_map e w"
proof -
  have path: "wal_path (eng_wal e) = WAL_FILE_NAME" and sinv: "shared_inv K n0 (eng_shared e) w"
    using inv by (simp_all add: engine_inv_def log_inv_def)
  have "log_inv K e w'"
    using inv files(2) path by (simp add: engine_inv_def log_inv_def wal_holds_def wal_synced_def file_of_def)
  then show "engine_inv K n0 e w'"
    using inv shared_inv_world [OF sinv same files(1)] by (simp add: engine_inv_def)
  show "engine_map e w' = engine_map e w"
    by (rule engine_map_cong)
      (use sinv in \<open>simp_all add: same_tables_tlook [OF _ _ same, of K] shared_inv_defs\<close>)
qed

lemma engine_failpoint:
  assumes "engine_inv K n0 e w"
  shows "engine_inv K n0 e (w\<lparr>failpoint := x\<rparr>)" and "engine_map e (w\<lparr>failpoint := x\<rparr>) = engine_map e w"
  by (rule engine_same_files [OF assms]; simp add: same_tables_def)+

lemma engine_ok_inject:
  "engine_ok K e w \<Longrightarrow> engine_ok K e (inject kind w)" "engine_ok K e w \<Longrightarrow> engine_map e (inject kind w) = engine_map e w"
  by (auto simp: engine_ok_def inject_def dest: engine_failpoint)

text \<open>What the engine's memtables stand for is what its log replays to.\<close>

lemma engine_log:
  assumes "engine_inv K n0 e w"
  obtains ops where "eng_wal e = wal_here" and "wal_holds wal_here ops w" and "wal_synced wal_here w"
    and "fst ` op_entry ` set ops \<subseteq> K" and "mem_get (fold apply_operation ops mem_new) = buffer_look e"
proof -
  have "eng_wal e = wal_here"
    using assms by (cases "eng_wal e") (simp add: engine_inv_def log_inv_def)
  then show thesis
    using assms that by (auto simp: engine_inv_def log_inv_def)
qed

lemma replay_snoc:
  assumes "mem_get (fold apply_operation ops mem_new) = buffer_look e"
  shows "mem_get (fold apply_operation (ops @ [op]) mem_new) = (buffer_look e)(fst (op_entry op) \<mapsto> snd (op_entry op))"
  using assms by (simp add: apply_operation_get)

section \<open>A write that fails or is cut short\<close>

text \<open>
  A put whose log append fails reports the error and changes nothing: engine, files and map stay as they were.
\<close>

lemma failed_append_changes_nothing:
  assumes "engine_ok K e w" and "key_error k = None" and "value_error v = None" and "failpoint w = Some WalAppend"
  shows "\<exists>err w'. engine_put fl k v (e, w) = (Err err, e, w') \<and> files w' = files w \<and>
    engine_ok K e w' \<and> engine_map e w' = engine_map e w"
proof -
  let ?w = "w\<lparr>failpoint := None\<rparr>"
  have "engine_put fl k v (e, w) = (Err (other_error ''injected WAL append failure''), e, ?w)"
    using assms(2-4) by (simp add: engine_put_def engine_write_def key_error_validate value_error_validate
        wal_append_def should_fail_def on_world_def)
  moreover have "engine_ok K e ?w" "engine_map e ?w = engine_map e w"
    using assms(1) by (auto simp: engine_ok_def dest: engine_failpoint)
  ultimately show ?thesis by auto
qed

text \<open>Opening after the record of \<open>op\<close> was appended, wholly or in part, to the log of a good engine.\<close>

lemma open_after_append:
  assumes inv: "engine_inv K n0 e w" and op: "op_fits op" and len: "max_levels opts = max_levels (eng_options e)"
    and w1: "w1 = file_append WAL_FILE_NAME (op_bytes op) w"
    and w2: "files w2 WAL_FILE_NAME = Some x" "content x = take n (content (file_of WAL_FILE_NAME w1))"
    and n: "durable (file_of WAL_FILE_NAME w) \<le> n"
    and disk: "disk_inv K n0 (sh_manifest (eng_shared e)) (sh_version (eng_shared e)) w2"
    and tabs: "\<And>k. tlook w2 (engine_tables e) k = tlook w (engine_tables e) k"
  obtains e' where "engine_open_with opts w2 = (Ok e', w2)"
    and "engine_map e' w2 = engine_map e w \<or>
      engine_map e' w2 = (engine_map e w)(fst (op_entry op) := visible (Some (snd (op_entry op))))"
    and "length (content (file_of WAL_FILE_NAME w1)) \<le> n \<Longrightarrow>
      engine_map e' w2 = (engine_map e w)(fst (op_entry op) := visible (Some (snd (op_entry op))))"
proof -
  obtain ops where log: "eng_wal e = wal_here" "wal_holds wal_here ops w" "wal_synced wal_here w"
      "mem_get (fold apply_operation ops mem_new) = buffer_look e"
    by (rule engine_log [OF inv])
  let ?new = "(engine_map e w)(fst (op_entry op) := visible (Some (snd (op_entry op))))"
  have fits: "list_all op_fits (ops @ [op])" and old: "content (file_of WAL_FILE_NAME w) = wal_log.log_bytes ops"
    using log(2) op by (auto simp: wal_holds_def file_of_def)
  have dur: "durable (file_of WAL_FILE_NAME w) = length (wal_log.log_bytes ops)"
    using log(3) old by (simp add: wal_synced_def)
  have all: "content (file_of WAL_FILE_NAME w1) = wal_log.log_bytes (ops @ [op])"
    using old by (simp add: w1)
  obtain m where m: "wal_collect_bytes (take n (wal_log.log_bytes (ops @ [op]))) = Ok (ops @ take m [op])"
    using wal_log.collect_durable [OF fits] n dur by auto
  have full: "wal_collect_bytes (take n (wal_log.log_bytes (ops @ [op]))) = Ok (ops @ [op])"
    if "length (content (file_of WAL_FILE_NAME w1)) \<le> n"
    using wal_log.collect_log [OF fits] that all by simp
  let ?ops = "ops @ take m [op]"
  have replay: "wal_replay wal_here w2 = (Ok ?ops, w2)"
    using m w2 all by (simp add: wal_replay_def wal_iter_def wal_collect_bytes_def file_of_def)
  have len': "max_levels opts = length (levels (sh_version (eng_shared e)))"
    using inv len by (simp add: engine_inv_def shared_inv_def)
  have there: "files w2 WAL_FILE_NAME \<noteq> None" using w2(1) by simp
  show ?thesis
  proof (rule engine_open_reads [OF disk len' there replay])
    fix e'
    assume e': "engine_open_with opts w2 = (Ok e', w2)"
      and look: "\<And>k. engine_look e' w2 k = (case mem_get (fold apply_operation ?ops mem_new) k of
        Some x \<Rightarrow> Some x | None \<Rightarrow> tlook w2 (engine_tables e) k)"
    have "engine_look e' w2 k = engine_look e w k" if "?ops = ops" for k
      by (simp only: look that log(4) tabs engine_look_def [of e])
    then have none: "engine_map e' w2 = engine_map e w" if "?ops = ops"
      using that by (simp add: engine_map_def fun_eq_iff)
    have "engine_look e' w2 k = (if k = fst (op_entry op) then Some (snd (op_entry op)) else engine_look e w k)"
      if "?ops = ops @ [op]" for k
      by (simp only: look that replay_snoc [OF log(4)] tabs engine_look_def [of e] fun_upd_apply split: if_split) simp
    then have some: "engine_map e' w2 = ?new" if "?ops = ops @ [op]"
      using that by (simp add: engine_map_def fun_eq_iff)
    have "?ops = ops \<or> ?ops = ops @ [op]" by (cases m) simp_all
    moreover have "?ops = ops @ [op]" if "length (content (file_of WAL_FILE_NAME w1)) \<le> n"
      using m full [OF that] by simp
    ultimately show thesis
      using that [OF e'] none some by blast
  qed
qed

lemma append_step:
  assumes inv: "engine_inv K n0 e w" and w1: "w1 = file_append WAL_FILE_NAME bs w"
  shows "disk_inv K n0 (sh_manifest (eng_shared e)) (sh_version (eng_shared e)) w1"
    and "tlook w1 (engine_tables e) k = tlook w (engine_tables e) k"
proof -
  have sinv: "shared_inv K n0 (eng_shared e) w"
    using inv by (simp add: engine_inv_def)
  have same: "same_tables (sh_version (eng_shared e)) w w1"
    by (simp add: same_tables_def w1)
  show "disk_inv K n0 (sh_manifest (eng_shared e)) (sh_version (eng_shared e)) w1"
    using shared_inv_world [OF sinv same] by (simp add: w1 shared_inv_def)
  show "tlook w1 (engine_tables e) k = tlook w (engine_tables e) k"
    by (rule same_tables_tlook [OF _ _ same, where K = K]) (use sinv in \<open>simp_all add: shared_inv_defs\<close>)
qed

text \<open>
  C4: a write is atomic. If the process dies after the record was handed to the log but before the sync, the next
  open succeeds, and the map it finds is the old one or the old one with the write, whatever part of the record
  reached the disk.
\<close>

theorem crash_during_append:
  assumes "engine_ok K e w" and "op_fits op" and "failpoint w = None"
    and "wal_append (eng_wal e) op w = (Ok offset, w1)" and "crash_keeps keep w1"
    and "max_levels opts = max_levels (eng_options e)"
  shows "\<exists>e'. engine_open_with opts (crash keep w1) = (Ok e', crash keep w1) \<and>
    (engine_map e' (crash keep w1) = engine_map e w \<or>
     engine_map e' (crash keep w1) = (engine_map e w)(fst (op_entry op) := visible (Some (snd (op_entry op)))))"
proof -
  obtain n0 where inv: "engine_inv K n0 e w"
    using assms(1) by (auto simp: engine_ok_def)
  have path: "wal_path (eng_wal e) = WAL_FILE_NAME"
    using inv by (simp add: engine_inv_def log_inv_def)
  have w1: "w1 = file_append WAL_FILE_NAME (op_bytes op) w"
    using assms(2-4) path by (simp add: wal_append_def should_fail_def encode_fits Let_def)
  then obtain x where x: "files w1 WAL_FILE_NAME = Some x" "durable x = durable (file_of WAL_FILE_NAME w)"
    by simp
  have n: "durable (file_of WAL_FILE_NAME w) \<le> keep WAL_FILE_NAME"
    using crash_keepsD [OF assms(5) x(1)] x(2) by simp
  note step = append_step [OF inv w1]
  note disk = disk_inv_crash [OF step(1) assms(5)]
  obtain c where c: "files (crash keep w1) WAL_FILE_NAME = Some c"
      "content c = take (keep WAL_FILE_NAME) (content (file_of WAL_FILE_NAME w1))"
    using x(1) by (simp add: file_of_def Let_def)
  show ?thesis
    by (rule open_after_append [OF inv assms(2,6) w1 c n disk(1)]) (use disk(2) step(2) in auto)
qed

text \<open>
  C17: a put whose sync fails is reported as an error and not visible to reads, but its record stays in the log:
  the next open, with no crash in between, finds the value.
\<close>

theorem failed_sync_reappears:
  assumes "engine_ok K e w" and "key_error k = None" and "value_error v = None" and "failpoint w = Some WalSync"
    and "max_levels opts = max_levels (eng_options e)"
  shows "\<exists>err w' e'. engine_put fl k v (e, w) = (Err err, e, w') \<and> engine_map e w' = engine_map e w \<and>
    engine_open_with opts w' = (Ok e', w') \<and> engine_map e' w' = (engine_map e w)(k \<mapsto> v)"
proof -
  obtain n0 where inv0: "engine_inv K n0 e w"
    using assms(1) by (auto simp: engine_ok_def)
  let ?w0 = "w\<lparr>failpoint := None\<rparr>" and ?op = "Put k v"
  note inv = engine_failpoint [OF inv0, of None]
  have path: "wal_path (eng_wal e) = WAL_FILE_NAME"
    using inv0 by (simp add: engine_inv_def log_inv_def)
  have op: "op_fits ?op"
    using assms(2,3) by (auto simp: key_error_def value_error_def op_fits_def record_consts split: if_splits)
  define w1 where w1: "w1 = file_append WAL_FILE_NAME (op_bytes ?op) ?w0"
  have "file_append WAL_FILE_NAME (op_bytes ?op) w\<lparr>failpoint := None\<rparr> = w1"
    by (simp add: w1 file_append_def set_file_def file_of_def Let_def)
  then have put: "engine_put fl k v (e, w) = (Err (other_error ''injected WAL sync failure''), e, w1)"
    using assms(2-4) op path by (simp add: engine_put_def engine_write_def key_error_validate value_error_validate
        wal_append_def wal_sync_def should_fail_def on_world_def encode_fits Let_def)
  obtain x where x: "files w1 WAL_FILE_NAME = Some x"
    by (simp add: w1)
  then have full: "content x = take (length (content x)) (content (file_of WAL_FILE_NAME w1))"
    and le: "length (content (file_of WAL_FILE_NAME w1)) \<le> length (content x)"
    by (simp_all add: file_of_def)
  have "durable (file_of WAL_FILE_NAME ?w0) = length (content (file_of WAL_FILE_NAME ?w0))"
    by (rule engine_log [OF inv(1)]) (simp add: wal_synced_def)
  then have n: "durable (file_of WAL_FILE_NAME ?w0) \<le> length (content x)"
    using x by (auto simp: w1)
  note step = append_step [OF inv(1) w1]
  have "engine_map e w1 = engine_map e ?w0"
    by (rule engine_map_cong) (simp_all add: step(2))
  then show ?thesis
    using put by - (rule open_after_append [OF inv(1) op assms(5) w1 x full n step], use le inv(2) in auto)
qed

section \<open>A flush that fails\<close>

lemma freeze_step:
  assumes inv: "engine_inv K n0 e w" and imm: "eng_immutable e = None"
    and frozen: "mem_get t = mem_get (eng_memtable e)" "mem_inv t"
    and e1: "e1 = e\<lparr>eng_memtable := mem_new, eng_immutable := Some t\<rparr>"
  shows "engine_inv K n0 e1 w" and "engine_map e1 w = engine_map e w"
proof -
  have buf: "buffer_look e1 = buffer_look e"
    using imm frozen by (simp add: buffer_look_def e1 fun_eq_iff split: option.splits)
  show "engine_inv K n0 e1 w"
    using inv frozen mem_inv_new unfolding engine_inv_def log_inv_def buf by (simp add: e1)
  show "engine_map e1 w = engine_map e w"
    by (rule engine_map_cong) (simp_all add: buf, simp add: e1)
qed

lemma flush_table_fails:
  assumes inv: "shared_inv K n0 (eng_shared e) w" and cap: "capacity fl (eng_options e) K"
    and es: "ksorted es" "layer_ok K (map_of es)" and room: "id_room (eng_shared e)"
    and fp: "failpoint w \<in> insert (Some ManifestWrite) table_faults"
    and m: "m = sh_manifest (eng_shared e)" and m1: "m1 = m\<lparr>next_table_id := next_table_id m + 1\<rparr>"
  obtains err w' n1 where
    "flush_table fl es (e, w) = (Err err, e\<lparr>eng_shared := (eng_shared e)\<lparr>sh_manifest := m1\<rparr>\<rparr>, w')"
    and "man_at n1 m1 w'" and "failpoint w' = None"
    and "\<And>f. f \<noteq> MANIFEST_FILE \<Longrightarrow> f \<noteq> tmp_path (table_file_name (next_table_id m)) \<Longrightarrow> files w' f = files w f"
proof (cases "failpoint w = Some ManifestWrite")
  case True
  have at: "man_at n0 m w" using inv m by (simp add: shared_inv_defs)
  obtain err where "man_next_table_id (m, w) = (Err err, m1, w\<lparr>failpoint := None\<rparr>)"
    using man_at_next_id_fails(1) [OF at True] room m m1 by blast
  then have "flush_table fl es (e, w) = (Err err, e\<lparr>eng_shared := (eng_shared e)\<lparr>sh_manifest := m1\<rparr>\<rparr>, w\<lparr>failpoint := None\<rparr>)"
    by (simp add: flush_table_def on_shared_def on_manifest_def m)
  then show thesis
    using that man_at_next_id_fails(2) [OF at True] room m m1 by simp
next
  case False
  let ?tid = "next_table_id m"
  have at: "man_at n0 m w" using inv m by (simp add: shared_inv_defs)
  obtain w1 where w1: "man_next_table_id (m, w) = (Ok ?tid, m1, w1)" "man_at (?tid + 1) m1 w1" "changes {MANIFEST_FILE} w w1"
    using man_at_next_id [OF at False] room m m1 by metis
  obtain err w2 where w2:
      "sst_create fl (table_file_name ?tid) ?tid es (bloom_false_positive_rate (eng_options e)) (opt_block_size (eng_options e)) w1 = (Err err, w2)"
      "failpoint w2 = None" "\<And>f. f \<noteq> tmp_path (table_file_name ?tid) \<Longrightarrow> files w2 f = files w1 f"
    by (rule create_fails [OF cap es, of w1 ?tid]) (use w1(3) fp False in \<open>auto simp: changes_def\<close>)
  have "flush_table fl es (e, w) = (Err err, e\<lparr>eng_shared := (eng_shared e)\<lparr>sh_manifest := m1\<rparr>\<rparr>, w2)"
    using w1(1) w2(1) by (simp add: flush_table_def on_shared_def on_manifest_def on_world_def m)
  moreover have "man_at (?tid + 1) m1 w2"
    by (rule man_at_cong [OF w1(2)]) (simp add: w2(3))
  ultimately show thesis
    using that w2(2,3) w1(3) by (simp add: changes_def)
qed

lemma flush_fails:
  assumes inv: "engine_inv K n0 e w" and imm: "eng_immutable e = None" and full: "\<not> mem_is_empty (eng_memtable e)"
    and cap: "capacity fl (eng_options e) K" and fp: "failpoint w \<in> insert (Some ManifestWrite) table_faults"
    and room: "id_room (eng_shared e)"
  obtains err e' w' n1 t where "flush_memtable fl (e, w) = (Err err, e', w')" and "engine_inv K n1 e' w'"
    and "engine_map e' w' = engine_map e w" and "eng_memtable e' = mem_new" and "eng_immutable e' = Some t"
    and "mem_get t = mem_get (eng_memtable e)" and "engine_tables e' = engine_tables e"
    and "\<And>k. tlook w' (engine_tables e) k = tlook w (engine_tables e) k" and "failpoint w' = None"
    and "eng_options e' = eng_options e" and "eng_worker e' = eng_worker e" and "next_no e' = next_no e + 1"
proof -
  let ?es = "entries (eng_memtable e)" and ?sh = "eng_shared e"
  let ?m = "sh_manifest ?sh"
  obtain t where frozen: "freeze_memtable e = (?es, e\<lparr>eng_memtable := mem_new, eng_immutable := Some t\<rparr>)"
      and t: "mem_get t = mem_get (eng_memtable e)" "mem_inv t"
    using freeze_ok [of e] inv unfolding engine_inv_def by metis
  define e1 where e1: "e1 = e\<lparr>eng_memtable := mem_new, eng_immutable := Some t\<rparr>"
  note inv1 = freeze_step [OF inv imm t e1]
  have sh1: "eng_shared e1 = ?sh" "eng_options e1 = eng_options e" by (simp_all add: e1)
  have sinv: "shared_inv K n0 (eng_shared e1) w"
    using inv1(1) by (simp add: engine_inv_def)
  define m1 where m1: "m1 = ?m\<lparr>next_table_id := next_table_id ?m + 1\<rparr>"
  let ?sh' = "?sh\<lparr>sh_manifest := m1\<rparr>"
  have disk: "disk_inv K n0 ?m (sh_version ?sh) w"
    using sinv by (simp add: shared_inv_def sh1)
  show ?thesis
  proof (rule flush_table_fails [OF sinv _ memtable_layer(1,2) [OF inv] _ fp refl, of fl m1])
    fix err w' n1
    assume ft: "flush_table fl ?es (e1, w) = (Err err, e1\<lparr>eng_shared := (eng_shared e1)\<lparr>sh_manifest := m1\<rparr>\<rparr>, w')"
      and w': "man_at n1 m1 w'" "failpoint w' = None"
        "\<And>f. f \<noteq> MANIFEST_FILE \<Longrightarrow> f \<noteq> tmp_path (table_file_name (next_table_id (sh_manifest (eng_shared e1)))) \<Longrightarrow> files w' f = files w f"
    define e' where e': "e' = e1\<lparr>eng_worker := eng_worker e1, eng_shared := ?sh'\<lparr>last_error := last_error ?sh\<rparr>\<rparr>"
    have same: "same_tables (sh_version ?sh) w w'"
      by (simp add: same_tables_def w'(3))
    have "table_step K ?sh w ?sh' w'"
      by (rule table_step_idle [OF sinv [unfolded sh1] room same w'(1) [unfolded m1]]) (simp_all add: w'(3) m1)
    then have step: "table_step K (eng_shared e1) w ?sh' w'" by (simp add: sh1)
    have after: "\<exists>n. engine_inv K n e' w'" "engine_map e' w' = engine_map e1 w"
      using engine_table_step(1,2) [OF inv1(1) step, of worker_start "e'\<lparr>eng_worker := worker_start\<rparr>" "last_error ?sh"]
      by (simp_all add: e' worker_ok_def worker_start_def engine_ok_worker engine_map_worker)
    have shared: "e1\<lparr>eng_shared := ?sh'\<rparr> = e'" by (simp add: e')
    have res: "flush_memtable fl (e, w) = (Err err, e', w')"
      using full frozen ft unfolding e1 [symmetric] sh1 shared by (simp add: flush_memtable_def)
    have tabs: "tlook w' (engine_tables e) k = tlook w (engine_tables e) k" for k
      by (rule same_tables_tlook [OF _ _ same, where K = K]) (use disk in \<open>simp_all add: disk_inv_def\<close>)
    have nn: "next_no e' = next_no e + 1"
      using room by (simp add: next_no_def e' m1 next_plus_one)
    obtain n where "engine_inv K n e' w'" using after(1) ..
    then show thesis
      using that [OF res _ _ _ _ t(1) _ tabs w'(2)] after(2) inv1(2) nn by (simp add: e' e1)
  qed (use cap room in \<open>simp_all add: sh1 m1\<close>)
qed


lemma engine_write_small:
  assumes "engine_inv K n0 e w" and "op_fits op" and "failpoint w = None"
    and "approximate_size (apply_operation op (eng_memtable e)) < memtable_size_bytes (eng_options e)"
  shows "engine_write fl op (e, w) =
    (Ok (), e\<lparr>eng_memtable := apply_operation op (eng_memtable e)\<rparr>,
     file_sync WAL_FILE_NAME (file_append WAL_FILE_NAME (op_bytes op) w))"
  using assms by (simp add: engine_write_def wal_append_def wal_sync_def should_fail_def on_world_def encode_fits
      engine_inv_def log_inv_def Let_def)

text \<open>
  C13: the flush after a failed one loses acknowledged writes. A key whose value was put and acknowledged but whose
  flush failed is still readable after the next put, and gone once the next flush succeeds.
\<close>

theorem flush_after_failed_flush_loses:
  assumes "engine_ok K e w" and "eng_immutable e = None" and "mem_get (eng_memtable e) k0 = Some (Value v0)"
    and "tlook w (engine_tables e) k0 = None"
    and "failpoint w \<in> {Some ManifestWrite, Some SsTableWrite, Some SsTableSync, Some Rename}"
    and "capacity fl (eng_options e) K" and "id_use e + 2 < 2 ^ 64"
    and "k \<in> K" and "k \<noteq> k0" and "key_error k = None" and "value_error v = None"
    and "length k + length v < memtable_size_bytes (eng_options e)"
  shows "\<exists>err e1 w1 e2 w2 e3 w3.
    engine_flush fl (e, w) = (Err err, e1, w1) \<and> engine_put fl k v (e1, w1) = (Ok (), e2, w2) \<and>
    engine_flush fl (e2, w2) = (Ok (), e3, w3) \<and>
    engine_map e w k0 = Some v0 \<and> engine_map e2 w2 k0 = Some v0 \<and> engine_map e3 w3 k0 = None"
proof -
  obtain n0 where inv: "engine_inv K n0 e w"
    using assms(1) by (auto simp: engine_ok_def)
  have fp: "failpoint w \<in> insert (Some ManifestWrite) table_faults"
    using assms(5) by (simp add: table_faults_def)
  have room: "id_room (eng_shared e)"
    using assms(7) by (simp add: id_room_iff id_use_def next_no_def)
  have full: "\<not> mem_is_empty (eng_memtable e)"
    using assms(3) by (auto simp: mem_is_empty_def mem_get_def)
  have before: "engine_map e w k0 = Some v0"
    using assms(3) by (simp add: engine_map_def engine_look_def buffer_look_def)
  have op: "op_fits (Put k v)" "fst (op_entry (Put k v)) \<in> K"
    using assms(8,10,11) by (auto simp: key_error_def value_error_def op_fits_def record_consts split: if_splits)
  show ?thesis
  proof (rule flush_fails [OF inv assms(2) full assms(6) fp room])
    fix err e1 w1 n1
    assume res: "flush_memtable fl (e, w) = (Err err, e1, w1)" and inv1: "engine_inv K n1 e1 w1"
      and e1: "engine_map e1 w1 = engine_map e w" "eng_memtable e1 = mem_new" "engine_tables e1 = engine_tables e"
        "eng_options e1 = eng_options e" "next_no e1 = next_no e + 1"
      and w1: "\<And>k. tlook w1 (engine_tables e) k = tlook w (engine_tables e) k" "failpoint w1 = None"
    let ?w2 = "file_sync WAL_FILE_NAME (file_append WAL_FILE_NAME (op_bytes (Put k v)) w1)"
    define e2 where e2: "e2 = e1\<lparr>eng_memtable := apply_operation (Put k v) (eng_memtable e1)\<rparr>"
    have small: "approximate_size (apply_operation (Put k v) (eng_memtable e1)) < memtable_size_bytes (eng_options e1)"
      using assms(12) e1(2,4) by (simp add: mem_put_def mem_insert_def mem_new_def mem_get_def)
    have put: "engine_put fl k v (e1, w1) = (Ok (), e2, ?w2)"
      using engine_write_small [OF inv1 op(1) w1(2) small] assms(10,11)
      by (simp add: engine_put_def key_error_validate value_error_validate e2)
    note inv2 = log_step [OF inv1 op refl e2]
    have fp2: "failpoint ?w2 \<notin> table_faults" "failpoint ?w2 \<noteq> Some ManifestWrite"
      using w1(2) by (simp_all add: table_faults_def)
    have mem2: "mem_get (eng_memtable e2) = [k \<mapsto> Value v]"
      using e1(2) by (simp add: e2 apply_operation_get fun_eq_iff del: apply_operation.simps)
    have full2: "\<not> mem_is_empty (eng_memtable e2)"
      using fun_cong [OF mem2, of k] by (auto simp: mem_is_empty_def mem_get_def)
    have cap2: "capacity fl (eng_options e2) K" and room2: "id_room (eng_shared e2)"
      using assms(6,7) e1(4,5) by (simp_all add: e2 id_room_iff id_use_def next_no_def)
    have "same_tables (sh_version (eng_shared e1)) w1 ?w2"
      by (simp add: same_tables_def)
    then have "tlook ?w2 (engine_tables e1) k0 = tlook w1 (engine_tables e1) k0"
      by (rule same_tables_tlook [where K = K, rotated 2]) (use inv1 in \<open>simp_all add: engine_inv_def shared_inv_defs\<close>)
    then have tab2: "tlook ?w2 (engine_tables e2) k0 = None"
      using w1(1) assms(4) e1(3) by (simp add: e2)
    show ?thesis
    proof (rule flush_full [OF inv2(1) full2 cap2 fp2 room2])
      fix n3 e3 w3
      assume flush: "flush_memtable fl (e2, ?w2) = (Ok (), e3, w3)"
        and look: "\<And>k. engine_look e3 w3 k = (case mem_get (eng_memtable e2) k of Some x \<Rightarrow> Some x | None \<Rightarrow> tlook ?w2 (engine_tables e2) k)"
      have "engine_map (maybe_request_compaction e3) w3 k0 = None"
        using look [of k0] assms(9) by (simp add: engine_map_def mem2 tab2)
      moreover have "engine_map e2 ?w2 k0 = Some v0"
        using inv2(2) assms(9) before by (simp add: e1(1))
      ultimately show ?thesis
        using res put flush before by (auto simp: engine_flush_def)
    qed
  qed
qed

section \<open>Example states\<close>

abbreviation example_keys :: "bytes set" where
  "example_keys \<equiv> {[97], [98]}"

text \<open>A put that stays in the memtable.\<close>

lemma put_small:
  assumes inv: "engine_inv K n0 e w" and fp: "failpoint w = None" and op: "op_fits (Put k v)" "k \<in> K"
    and mem: "eng_memtable e = mem_new" and small: "length k + length v < memtable_size_bytes (eng_options e)"
  obtains e' w' where "engine_write fl (Put k v) (e, w) = (Ok (), e', w')" and "engine_inv K n0 e' w'"
    and "mem_get (eng_memtable e') = [k \<mapsto> Value v]" and "engine_map e' w' = (engine_map e w)(k \<mapsto> v)"
    and "eng_shared e' = eng_shared e" and "eng_worker e' = eng_worker e" and "eng_options e' = eng_options e"
    and "eng_immutable e' = eng_immutable e" and "failpoint w' = None"
    and "\<And>k. tlook w' (engine_tables e) k = tlook w (engine_tables e) k" and "changes {WAL_FILE_NAME} w w'"
proof -
  let ?w = "file_sync WAL_FILE_NAME (file_append WAL_FILE_NAME (op_bytes (Put k v)) w)"
  define e' where e': "e' = e\<lparr>eng_memtable := apply_operation (Put k v) (eng_memtable e)\<rparr>"
  have size: "approximate_size (apply_operation (Put k v) (eng_memtable e)) < memtable_size_bytes (eng_options e)"
    using small mem by (simp add: mem_put_def mem_insert_def mem_new_def mem_get_def)
  have key: "fst (op_entry (Put k v)) \<in> K" using op(2) by simp
  note after = log_step [OF inv op(1) key refl e']
  have get: "mem_get (eng_memtable e') = [k \<mapsto> Value v]"
    using mem by (simp add: e' apply_operation_get fun_eq_iff del: apply_operation.simps)
  have "same_tables (sh_version (eng_shared e)) w ?w"
    by (simp add: same_tables_def)
  then have tabs: "tlook ?w (engine_tables e) k = tlook w (engine_tables e) k" for k
    by (rule same_tables_tlook [where K = K, rotated 2]) (use inv in \<open>simp_all add: engine_inv_def shared_inv_defs\<close>)
  show ?thesis
    by (rule that [of e' ?w]) (use engine_write_small [OF inv op(1) fp size] after get fp tabs in \<open>simp_all add: e' changes_def\<close>)
qed

lemma example_put:
  obtains e w where "engine_ok example_keys e w" and "eng_options e = options_for_test" and "eng_immutable e = None"
    and "failpoint w = None" and "id_use e = 1" and "mem_get (eng_memtable e) = [[97] \<mapsto> Value [1]]"
    and "engine_tables e = []" and "engine_map e w = [[97] \<mapsto> [1]]"
proof -
  obtain e0 w0 where e0: "engine_ok example_keys e0 w0" "eng_options e0 = options_for_test" "eng_immutable e0 = None"
      "id_use e0 = 1" "failpoint w0 = failpoint empty_world" "engine_map e0 w0 = (\<lambda>_. None)" "eng_memtable e0 = mem_new" "engine_tables e0 = []"
    using engine_open_fresh [OF example_world(1) example_world(1) example_options, where K = example_keys] by metis
  then obtain n0 where inv: "engine_inv example_keys n0 e0 w0" and wk: "worker_ok (eng_worker e0)"
    by (auto simp: engine_ok_def)
  have fp: "failpoint w0 = None" using e0(5) example_world(2) by simp
  show ?thesis
  proof (rule put_small [OF inv fp, of "[97]" "[1]"])
    fix e' w'
    assume "engine_inv example_keys n0 e' w'" "mem_get (eng_memtable e') = [[97] \<mapsto> Value [1]]"
      "engine_map e' w' = (engine_map e0 w0)([97] \<mapsto> [1])" "eng_shared e' = eng_shared e0" "eng_worker e' = eng_worker e0"
      "eng_options e' = eng_options e0" "eng_immutable e' = eng_immutable e0" "failpoint w' = None"
    then show thesis
      using that [of e' w'] e0 wk by (auto simp: engine_ok_def id_use_def next_no_def)
  qed (use e0 in \<open>simp_all add: op_fits_def record_consts options_for_test_def\<close>)
qed

section \<open>Witnesses\<close>

lemma example_errors: "key_error [98] = None" "value_error [2] = None"
  by (simp_all add: key_error_def value_error_def)

theorem crash_during_append_witness:
  "\<exists>e w offset w1 e'. engine_map e w = [[97] \<mapsto> [1]] \<and> wal_append (eng_wal e) (Delete [97]) w = (Ok offset, w1) \<and>
     engine_open_with options_for_test (crash (keep_synced w1) w1) = (Ok e', crash (keep_synced w1) w1) \<and>
     (engine_map e' (crash (keep_synced w1) w1) [97] = Some [1] \<or> engine_map e' (crash (keep_synced w1) w1) [97] = None)"
proof (rule example_put)
  fix e w
  assume e: "engine_ok example_keys e w" "engine_map e w = [[97] \<mapsto> [1]]" "eng_options e = options_for_test" "failpoint w = None"
  have op: "op_fits (Delete [97])"
    by (simp add: op_fits_def record_consts)
  then obtain offset w1 where app: "wal_append (eng_wal e) (Delete [97]) w = (Ok offset, w1)"
    using e(4) by (auto simp: wal_append_def should_fail_def encode_fits Let_def)
  then obtain e' where "engine_open_with options_for_test (crash (keep_synced w1) w1) = (Ok e', crash (keep_synced w1) w1)"
      "engine_map e' (crash (keep_synced w1) w1) = engine_map e w \<or> engine_map e' (crash (keep_synced w1) w1) = (engine_map e w)([97] := None)"
    using crash_during_append [OF e(1) op e(4) app crash_keeps_synced, of options_for_test] e(3) by auto
  then show ?thesis
    using app e(2) by (intro exI [of _ e] exI [of _ w] exI [of _ offset] exI [of _ w1] exI [of _ e']) auto
qed

theorem failed_sync_reappears_witness:
  "\<exists>e w err w' e'. engine_map e w = [[97] \<mapsto> [1]] \<and>
     engine_put f64_example [98] [2] (e, inject WalSync w) = (Err err, e, w') \<and> engine_map e w' [98] = None \<and>
     engine_open_with options_for_test w' = (Ok e', w') \<and> engine_map e' w' [98] = Some [2]"
proof (rule example_put)
  fix e w
  assume e: "engine_ok example_keys e w" "engine_map e w = [[97] \<mapsto> [1]]" "eng_options e = options_for_test"
  have "failpoint (inject WalSync w) = Some WalSync" by (simp add: inject_def)
  then obtain err w' e' where "engine_put f64_example [98] [2] (e, inject WalSync w) = (Err err, e, w')"
      "engine_map e w' = engine_map e (inject WalSync w)" "engine_open_with options_for_test w' = (Ok e', w')"
      "engine_map e' w' = (engine_map e (inject WalSync w))([98] \<mapsto> [2])"
    using failed_sync_reappears [OF engine_ok_inject(1) [OF e(1)] example_errors, of WalSync options_for_test f64_example] e(3) by metis
  then show ?thesis
    using engine_ok_inject(2) [OF e(1)] e(2) by (intro exI [of _ e] exI [of _ w]) auto
qed



theorem flush_after_failed_flush_loses_witness:
  "\<exists>e w err e1 w1 e2 w2 e3 w3.
    engine_flush f64_example (e, inject SsTableSync w) = (Err err, e1, w1) \<and>
    engine_put f64_example [98] [2] (e1, w1) = (Ok (), e2, w2) \<and> engine_flush f64_example (e2, w2) = (Ok (), e3, w3) \<and>
    engine_map e w [97] = Some [1] \<and> engine_map e2 w2 [97] = Some [1] \<and> engine_map e3 w3 [97] = None"
proof (rule example_put)
  fix e w
  assume e: "engine_ok example_keys e w" "eng_options e = options_for_test" "eng_immutable e = None" "id_use e = 1"
      "mem_get (eng_memtable e) = [[97] \<mapsto> Value [1]]" "engine_tables e = []" "engine_map e w = [[97] \<mapsto> [1]]"
  let ?w = "inject SsTableSync w"
  have hyps: "mem_get (eng_memtable e) [97] = Some (Value [1])" "tlook ?w (engine_tables e) [97] = None"
      "failpoint ?w \<in> {Some ManifestWrite, Some SsTableWrite, Some SsTableSync, Some Rename}"
      "capacity f64_example (eng_options e) example_keys" "id_use e + 2 < 2 ^ 64" "[98 :: u8] \<in> example_keys" "[98 :: u8] \<noteq> [97]"
    using example_capacity [OF order_refl] unfolding e(6) by (simp_all add: e(2,4,5) inject_def)
  have small: "length [98 :: u8] + length [2 :: u8] < memtable_size_bytes (eng_options e)"
    by (simp add: e(2) options_for_test_def)
  show ?thesis
    using flush_after_failed_flush_loses [OF engine_ok_inject(1) [OF e(1)] e(3) hyps example_errors small]
      engine_ok_inject(2) [OF e(1), of SsTableSync] by metis
qed

end
