(* ===== verification/Compaction_Crash.thy ===== *)
theory Compaction_Crash
  imports Engine_Faults
begin

text \<open>
  A crash between the manifest records of one compaction. The records are added and synced one by one, the output
  first and then the removal of each input, newest first, so a restart can find the newest inputs gone and an older
  one still in place, in front of the output.
\<close>

section \<open>Two tables in L0\<close>

text \<open>What the manifest lists, and the job that is picked, when L0 has two tables and the other levels none.\<close>

lemma man_two:
  assumes "man_matches m v" and "levels v = [t2, t1] # ls" and "concat ls = []"
  shows "man_tables m = [(sst_id t1, 0), (sst_id t2, 0)]"
proof -
  have nil: "levels v ! l = []" if "l < length (levels v)" "l \<noteq> 0" for l
    using that assms(2,3) by (cases l) (simp_all add: concat_eq_Nil_conv)
  have "snd p = 0" if "p \<in> set (man_tables m)" for p
    using that assms(1) nil by (fastforce simp: man_matches_def)
  then have "filter (\<lambda>(_, l). l = 0) (man_tables m) = man_tables m"
    by (intro filter_True) auto
  then show ?thesis
    using assms(1,2) by (simp add: man_matches_def)
qed

lemma pick_two:
  assumes "levels v = [t2, t1] # ls" and "concat ls = []" and "ls \<noteq> []" and "l0_compaction_trigger opts \<le> 2"
    and "length (levels v) = max_levels opts"
  shows "pick_compaction v opts = Some \<lparr>inputs = [t2, t1], output_level = 1\<rparr>"
proof -
  obtain l1 ls' where "ls = [] # ls'" using assms(2,3) by (cases ls) auto
  then show ?thesis
    using assms by (simp add: pick_compaction_def case_prod_beta Let_def)
qed

text \<open>The version a restart builds when the newer input is gone, and that it describes the disk.\<close>

lemma half_removed_disk:
  assumes disk: "disk_inv K n0 m v w" and lv: "levels v = [t2, t1] # ls" and nil: "concat ls = []" "ls \<noteq> []"
    and same: "same_tables v w w'" and man: "man_at n1 m' w'" and m': "man_tables m' = [(sst_id t1, 0), (sst_id ot, 1)]"
    and ot: "sst_ok w' ot" "table_at K w' 1 ot" "sst_id ot \<noteq> sst_id t1"
    and v': "v' = v\<lparr>levels := [t1] # [ot] # tl ls\<rparr>"
  shows "disk_inv K n1 m' v' w'"
proof -
  obtain ls' where ls: "ls = [] # ls'" and nil': "concat ls' = []"
    using nil by (cases ls) auto
  have empty: "l = []" if "l \<in> set ls'" for l
    using nil' that by (auto simp: concat_eq_Nil_conv)
  have nth: "ls' ! i = []" if "i < length ls'" for i
    using empty that by simp
  have old: "version_ok w' v" "levels_at K w' v"
    using same_tables_ok [OF _ _ same, of K] disk by (simp_all add: disk_inv_def)
  have lv': "levels v' = [t1] # [ot] # ls'" by (simp add: v' ls)
  have cc: "concat (levels v') = [t1, ot]"
    by (simp add: lv' nil')
  have t1: "sst_ok w' t1" "table_at K w' 0 t1"
    using old lv by (auto simp: version_ok_def levels_at_def)
  have "list_all (sorted_wrt disjoint_tables) ls'"
    unfolding list_all_iff using empty by fastforce
  then have "version_ok w' v'"
    unfolding version_ok_def cc using t1(1) ot(1,3) by (simp add: lv')
  moreover have "levels_at K w' v'"
    unfolding levels_at_def using t1(2) ot(2) by (auto simp: lv' nth_Cons nth split: nat.splits)
  moreover have "(\<Union>l < length (levels v'). (\<lambda>t. (sst_id t, as_u32 l)) ` set (levels v' ! l)) = {(sst_id t1, 0), (sst_id ot, 1)}"
  proof -
    have "(\<lambda>t. (sst_id t, as_u32 l)) ` set (levels v' ! l) \<subseteq> {(sst_id t1, 0), (sst_id ot, 1)}" if "l < length (levels v')" for l
      using that by (auto simp: lv' nth_Cons nth split: nat.splits)
    moreover have "(sst_id t1, 0) \<in> (\<lambda>t. (sst_id t, as_u32 0)) ` set (levels v' ! 0)"
      "(sst_id ot, 1) \<in> (\<lambda>t. (sst_id t, as_u32 1)) ` set (levels v' ! 1)" "0 < length (levels v')" "1 < length (levels v')"
      by (simp_all add: lv')
    ultimately show ?thesis by blast
  qed
  then have "man_matches m' v'"
    by (simp add: man_matches_def m' lv')
  moreover have "length (levels v') = length (levels v)"
    by (simp add: lv' lv ls)
  ultimately show ?thesis
    using disk man by (simp add: disk_inv_def lv')
qed

section \<open>The crash\<close>

text \<open>The steps up to the first removal, with what they leave on disk.\<close>

lemma half_recorded:
  assumes inv: "shared_inv K n0 sh w" and cap: "capacity fl (sh_options sh) K" and room: "id_room sh"
    and fp: "failpoint w \<notin> table_faults" "failpoint w \<noteq> Some ManifestWrite"
    and lv: "levels (sh_version sh) = [t2, t1] # ls" and nil: "concat ls = []" "ls \<noteq> []"
    and job: "job = \<lparr>inputs = [t2, t1], output_level = 1\<rparr>"
  obtains ot s1 s2 sh3 w3 m3 n3 where "compact_output fl (sh_version sh) job (sh, w) = (Ok ot, s1)"
    and "on_manifest (man_add_table (sst_id ot) 1) s1 = (Ok (), s2)"
    and "on_manifest (man_remove_tables [sst_id t2]) s2 = (Ok (), sh3, w3)"
    and "disk_inv K n3 m3 ((sh_version sh)\<lparr>levels := [t1] # [ot] # tl ls\<rparr>) w3"
    and "same_tables (sh_version sh) w w3" and "files w3 WAL_FILE_NAME = files w WAL_FILE_NAME"
proof -
  let ?m = "sh_manifest sh" and ?v = "sh_version sh"
  let ?tid = "next_table_id ?m" and ?T = "\<lambda>i. {table_file_name i, tmp_path (table_file_name i)}"
  let ?m1 = "?m\<lparr>next_table_id := ?tid + 1\<rparr>"
  let ?m2 = "?m1\<lparr>man_tables := man_tables ?m1 @ [(?tid, 1)]\<rparr>"
  let ?m3 = "?m2\<lparr>man_tables := filter (\<lambda>(i, _). i \<notin> set [sst_id t2]) (man_tables ?m2)\<rparr>"
  have disk: "disk_inv K n0 ?m ?v w"
    using inv by (simp add: shared_inv_def)
  have tabs: "man_tables ?m = [(sst_id t1, 0), (sst_id t2, 0)]"
    by (rule man_two [OF _ lv nil(1)]) (use disk in \<open>simp add: disk_inv_def\<close>)
  have live: "set (inputs job) \<subseteq> set (concat (levels ?v))"
    using lv by (simp add: job)
  have ids: "sst_id t1 \<noteq> ?tid" "sst_id t2 \<noteq> ?tid" "sst_id t1 \<noteq> sst_id t2"
    using new_id_unused(2) [OF disk] lv disk by (auto simp: disk_inv_def version_ok_def)
  obtain ot w1 where out: "compact_output fl ?v job (sh, w) = (Ok ot, sh\<lparr>sh_manifest := ?m1\<rparr>, w1)"
      and ot: "sst_ok w1 ot" "sst_entries w1 ot = merged_for w1 ?v (sh_options sh) job" "sst_id ot = ?tid" "table_at K w1 (output_level job) ot"
      and man1: "man_at (?tid + 1) ?m1 w1" and ch1: "changes (insert MANIFEST_FILE (?T ?tid)) w w1"
    by (rule compact_output_ok [OF inv cap live fp room refl refl refl])
  have fp1: "failpoint w1 \<noteq> Some ManifestWrite"
    using ch1 fp(2) by (simp add: changes_def)
  obtain w2 where w2: "man_add_table ?tid 1 (?m1, w1) = (Ok (), ?m2, w2)" "man_at (?tid + 1) ?m2 w2" "changes {MANIFEST_FILE} w1 w2"
    by (rule man_at_add [OF man1 fp1]) (use room ids tabs in auto)
  have fp2: "failpoint w2 \<noteq> Some ManifestWrite"
    using w2(3) fp1 by (simp add: changes_def)
  obtain w3 where w3: "man_remove_tables [sst_id t2] (?m2, w2) = (Ok (), ?m3, w3)" "man_at (?tid + 1) ?m3 w3" "changes {MANIFEST_FILE} w2 w3"
    by (rule man_at_remove [OF w2(2) fp2])
  have ch: "changes (insert MANIFEST_FILE (?T ?tid)) w w3"
    using changes_trans [OF changes_trans [OF ch1 w2(3)] w3(3)] by (simp add: insert_commute)
  have same: "same_tables ?v w w3"
    by (rule new_files_same_tables [OF disk ch])
  have f3: "files w3 (table_file_name (sst_id ot)) = files w1 (table_file_name (sst_id ot))"
    using w2(3) w3(3) by (simp add: changes_def)
  note ot3 = table_at_cong [OF ot(4,1) f3]
  have "disk_inv K (?tid + 1) ?m3 (?v\<lparr>levels := [t1] # [ot] # tl ls\<rparr>) w3"
    by (rule half_removed_disk [OF disk lv nil same w3(2) _ ot3(1) _ _ refl]) (use ids tabs ot(3) ot3 in \<open>simp_all add: job\<close>)
  then show thesis
    using that out w2(1) w3(1) same ch ot(3) by (simp add: on_manifest_def changes_def)
qed

text \<open>
  C14: a crash inside a compaction can bring an overwritten value back. With two tables in L0 that both have the key,
  the manifest first gets the output, then the removal of the newer table; after a crash at that point every restart
  reads the older value, although the newer one was readable before.
\<close>

theorem crash_during_compaction_stale:
  assumes "engine_ok K e w" and "capacity fl (eng_options e) K" and "id_use e < 2 ^ 64 - 1" and "failpoint w = None"
    and "levels (sh_version (eng_shared e)) = [t2, t1] # ls" and "concat ls = []" and "ls \<noteq> []"
    and "l0_compaction_trigger (eng_options e) \<le> 2" and "max_levels opts = max_levels (eng_options e)"
    and "buffer_look e k = None" and "entries_map w t2 k = Some (Value v2)" and "entries_map w t1 k = Some (Value v1)"
  shows "\<exists>job ot s1 s2 sh3 w3.
    pick_compaction (sh_version (eng_shared e)) (sh_options (eng_shared e)) = Some job \<and> inputs job = [t2, t1] \<and>
    compact_output fl (sh_version (eng_shared e)) job (eng_shared e, w) = (Ok ot, s1) \<and>
    on_manifest (man_add_table (sst_id ot) (as_u32 (output_level job))) s1 = (Ok (), s2) \<and>
    on_manifest (man_remove_tables [sst_id t2]) s2 = (Ok (), sh3, w3) \<and>
    engine_map e w k = Some v2 \<and>
    (\<forall>keep. crash_keeps keep w3 \<longrightarrow>
       (\<exists>e'. engine_open_with opts (crash keep w3) = (Ok e', crash keep w3) \<and> engine_map e' (crash keep w3) k = Some v1))"
proof -
  let ?sh = "eng_shared e" and ?job = "\<lparr>inputs = [t2, t1], output_level = 1\<rparr>"
  let ?v = "sh_version ?sh"
  obtain n0 where inv: "engine_inv K n0 e w"
    using assms(1) by (auto simp: engine_ok_def)
  have sinv: "shared_inv K n0 ?sh w" and opts: "eng_options e = sh_options ?sh"
    using inv by (simp_all add: engine_inv_def)
  have disk: "disk_inv K n0 (sh_manifest ?sh) ?v w" and len: "length (levels ?v) = max_levels (sh_options ?sh)"
    using sinv by (simp_all add: shared_inv_def)
  have pick: "pick_compaction ?v (sh_options ?sh) = Some ?job"
    by (rule pick_two [OF assms(5-7)]) (use assms(8) opts len in simp_all)
  have room: "id_room ?sh" and cap: "capacity fl (sh_options ?sh) K"
    using assms(2,3) opts by (simp_all add: id_room_iff id_use_def next_no_def)
  obtain ops where log: "eng_wal e = wal_here" "wal_holds wal_here ops w" "wal_synced wal_here w"
      "fst ` op_entry ` set ops \<subseteq> K" "mem_get (fold apply_operation ops mem_new) = buffer_look e"
    by (rule engine_log [OF inv])
  have before: "engine_map e w k = Some v2"
    using assms(5,10,11) by (simp add: engine_map_def engine_look_def)
  show ?thesis
  proof (rule half_recorded [OF sinv cap room _ _ assms(5-7) refl])
    fix ot s1 s2 sh3 w3 m3 n3
    assume out: "compact_output fl ?v ?job (?sh, w) = (Ok ot, s1)"
      and rec: "on_manifest (man_add_table (sst_id ot) 1) s1 = (Ok (), s2)"
        "on_manifest (man_remove_tables [sst_id t2]) s2 = (Ok (), sh3, w3)"
      and disk3: "disk_inv K n3 m3 (?v\<lparr>levels := [t1] # [ot] # tl ls\<rparr>) w3"
      and same: "same_tables ?v w w3" and wal: "files w3 WAL_FILE_NAME = files w WAL_FILE_NAME"
    have log3: "wal_holds wal_here ops w3" "wal_synced wal_here w3"
      using log(2,3) wal by (simp_all add: wal_holds_def wal_synced_def file_of_def)
    have old: "entries_map w3 t1 k = Some (Value v1)"
      using same_tables_entries [OF disk same, of t1] assms(5,12) by simp
    have len3: "max_levels opts = length (levels (?v\<lparr>levels := [t1] # [ot] # tl ls\<rparr>))"
      using assms(5,7,9) len opts by (cases ls) simp_all
    have "\<exists>e'. engine_open_with opts (crash keep w3) = (Ok e', crash keep w3) \<and> engine_map e' (crash keep w3) k = Some v1"
      if keep: "crash_keeps keep w3" for keep
    proof (rule engine_open_ok [OF disk_inv_crash(1) [OF disk3 keep] len3 wal_crash [OF log3 keep] log(4)])
      fix e'
      assume e': "engine_open_with opts (crash keep w3) = (Ok e', crash keep w3)"
        and look: "\<And>k. engine_look e' (crash keep w3) k = (case mem_get (fold apply_operation ops mem_new) k of
          Some x \<Rightarrow> Some x | None \<Rightarrow> tlook (crash keep w3) (concat (levels (?v\<lparr>levels := [t1] # [ot] # tl ls\<rparr>))) k)"
      have "engine_look e' (crash keep w3) k = tlook w3 (concat (levels (?v\<lparr>levels := [t1] # [ot] # tl ls\<rparr>))) k"
        by (simp only: look log(5) assms(10) option.case disk_inv_crash(2) [OF disk3 keep])
      then show ?thesis
        using e' old by (auto simp: engine_map_def)
    qed
    then show ?thesis
      using pick out rec before by (intro exI [of _ ?job] exI [of _ ot] exI [of _ s1] exI [of _ s2] exI [of _ sh3] exI [of _ w3]) simp
  qed (use assms(4) in \<open>simp_all add: table_faults_def\<close>)
qed

section \<open>Witness\<close>

text \<open>One put followed by a flush adds one table with that one key in front of L0.\<close>

lemma put_flush:
  assumes inv: "engine_inv K n0 e w" and fp: "failpoint w = None" and op: "op_fits (Put k v)" "k \<in> K"
    and mem: "eng_memtable e = mem_new" and small: "length k + length v < memtable_size_bytes (eng_options e)"
    and cap: "capacity fl (eng_options e) K" and room: "id_room (eng_shared e)"
  obtains n1 e' w' t where "engine_inv K n1 e' w'" and "failpoint w' = None" and "eng_memtable e' = mem_new"
    and "eng_immutable e' = None" and "eng_options e' = eng_options e" and "eng_worker e' = eng_worker e" and "next_no e' = next_no e + 1"
    and "levels (sh_version (eng_shared e')) = (t # hd (levels (sh_version (eng_shared e)))) # tl (levels (sh_version (eng_shared e)))"
    and "entries_map w' t = [k \<mapsto> Value v]" and "\<And>k. tlook w' (engine_tables e) k = tlook w (engine_tables e) k"
    and "flushed_by e t w w'"
    and "\<exists>e1 w1. engine_write fl (Put k v) (e, w) = (Ok (), e1, w1) \<and> flush_memtable fl (e1, w1) = (Ok (), e', w')"
proof (rule put_small [OF inv fp op mem small])
  fix e1 w1
  assume put: "engine_write fl (Put k v) (e, w) = (Ok (), e1, w1)" and inv1: "engine_inv K n0 e1 w1" and e1: "mem_get (eng_memtable e1) = [k \<mapsto> Value v]" "eng_shared e1 = eng_shared e"
      "eng_worker e1 = eng_worker e" "eng_options e1 = eng_options e"
    and w1: "failpoint w1 = None" "\<And>k. tlook w1 (engine_tables e) k = tlook w (engine_tables e) k" and ch1: "changes {WAL_FILE_NAME} w w1"
  have full: "\<not> mem_is_empty (eng_memtable e1)"
    using fun_cong [OF e1(1), of k] by (auto simp: mem_is_empty_def mem_get_def)
  show thesis
  proof (rule flush_full_levels [OF inv1 full, of fl])
    fix n1 e' w' t
    assume flush: "flush_memtable fl (e1, w1) = (Ok (), e', w')" and fb: "flushed_by e1 t w1 w'"
      and rest: "engine_inv K n1 e' w'" "eng_immutable e' = None" "eng_memtable e' = mem_new" "eng_worker e' = eng_worker e1"
      "eng_options e' = eng_options e1" "failpoint w' = failpoint w1" "next_no e' = next_no e1 + 1"
      "levels (sh_version (eng_shared e')) = (t # hd (levels (sh_version (eng_shared e1)))) # tl (levels (sh_version (eng_shared e1)))"
      "entries_map w' t = mem_get (eng_memtable e1)" "\<And>k. tlook w' (engine_tables e1) k = tlook w1 (engine_tables e1) k"
    have "flushed_by e t w w'"
      using fb e1(2) ch1 by (simp add: flushed_by_def changes_def)
    then show thesis
      using that [of n1 e' w' t] rest e1 w1 put flush by (simp add: next_no_def)
  qed (use cap room e1 w1 in \<open>simp_all add: table_faults_def\<close>)
qed

lemma example_two_tables:
  obtains e w t2 t1 ls where "engine_ok example_keys e w" and "eng_options e = options_for_test" and "failpoint w = None"
    and "id_use e = 3" and "levels (sh_version (eng_shared e)) = [t2, t1] # ls" and "concat ls = []" and "ls \<noteq> []"
    and "buffer_look e [97] = None" and "entries_map w t2 [97] = Some (Value [2])" and "entries_map w t1 [97] = Some (Value [1])"
    and "eng_immutable e = None" and "eng_worker e = worker_start"
proof -
  obtain e0 w0 where e0: "engine_ok example_keys e0 w0" "eng_options e0 = options_for_test"
      "id_use e0 = 1" "failpoint w0 = failpoint empty_world" "eng_memtable e0 = mem_new" "engine_tables e0 = []"
      "eng_worker e0 = worker_start"
    using engine_open_fresh [OF example_world(1) example_world(1) example_options, where K = example_keys] by metis
  then obtain n0 where inv0: "engine_inv example_keys n0 e0 w0" and wk: "worker_ok (eng_worker e0)"
    by (auto simp: engine_ok_def)
  have fp0: "failpoint w0 = None" using e0(4) example_world(2) by simp
  let ?lv0 = "levels (sh_version (eng_shared e0))"
  have "length ?lv0 = max_levels (eng_options e0)"
    using inv0 by (simp add: engine_inv_def shared_inv_def)
  then have "length ?lv0 = 4"
    using e0(2) by (simp add: options_for_test_def)
  then have lv0: "hd ?lv0 = []" "concat (tl ?lv0) = []" "tl ?lv0 \<noteq> []"
    using e0(6) by (cases ?lv0; auto)+
  have op: "op_fits (Put [97] [1])" "op_fits (Put [97] [2])" "[97 :: u8] \<in> example_keys"
    by (simp_all add: op_fits_def record_consts)
  have cap: "capacity f64_example options_for_test example_keys"
    using example_capacity [OF order_refl] .
  have small: "length [97 :: u8] + length [x :: u8] < memtable_size_bytes options_for_test" for x
    by (simp add: options_for_test_def)
  have room0: "id_room (eng_shared e0)"
    using e0(3) by (simp add: id_room_iff id_use_def next_no_def)
  show ?thesis
  proof (rule put_flush [OF inv0 fp0 op(1,3) e0(5) _ _ room0, of f64_example])
    fix n1 e1 w1 t1
    assume e1: "engine_inv example_keys n1 e1 w1" "failpoint w1 = None" "eng_memtable e1 = mem_new"
      "eng_options e1 = eng_options e0" "eng_worker e1 = eng_worker e0" "next_no e1 = next_no e0 + 1"
      "levels (sh_version (eng_shared e1)) = (t1 # hd ?lv0) # tl ?lv0" "entries_map w1 t1 = [[97] \<mapsto> Value [1]]"
    have room1: "id_room (eng_shared e1)"
      using e0(3) e1(6) by (simp add: id_room_iff id_use_def next_no_def)
    show thesis
    proof (rule put_flush [OF e1(1,2) op(2,3) e1(3) _ _ room1, of f64_example])
      fix n2 e2 w2 t2
      assume e2: "engine_inv example_keys n2 e2 w2" "failpoint w2 = None" "eng_memtable e2 = mem_new" "eng_immutable e2 = None"
        "eng_options e2 = eng_options e1" "eng_worker e2 = eng_worker e1" "next_no e2 = next_no e1 + 1"
        "levels (sh_version (eng_shared e2)) = (t2 # hd (levels (sh_version (eng_shared e1)))) # tl (levels (sh_version (eng_shared e1)))"
        "entries_map w2 t2 = [[97] \<mapsto> Value [2]]" "\<And>k. tlook w2 (engine_tables e1) k = tlook w1 (engine_tables e1) k"
      have "engine_tables e1 = [t1]"
        using e1(7) lv0 by simp
      then have "entries_map w2 t1 [97] = Some (Value [1])"
        using e2(10) [of "[97]"] e1(8) by (simp split: option.splits)
      moreover have "buffer_look e2 [97] = None"
        using e2(3,4) by (simp add: buffer_look_def)
      ultimately show thesis
        using that [of e2 w2 t2 t1 "tl ?lv0"] e0(2,3,7) e1 e2 lv0 wk by (auto simp: engine_ok_def id_use_def)
    qed (use cap small e0(2) e1(4) in simp_all)
  qed (use cap small e0(2) in simp_all)
qed

theorem crash_during_compaction_stale_witness:
  "\<exists>e w t2 job ot s1 s2 sh3 w3 e'.
    pick_compaction (sh_version (eng_shared e)) (sh_options (eng_shared e)) = Some job \<and> t2 = hd (inputs job) \<and>
    compact_output f64_example (sh_version (eng_shared e)) job (eng_shared e, w) = (Ok ot, s1) \<and>
    on_manifest (man_add_table (sst_id ot) (as_u32 (output_level job))) s1 = (Ok (), s2) \<and>
    on_manifest (man_remove_tables [sst_id t2]) s2 = (Ok (), sh3, w3) \<and>
    engine_map e w [97] = Some [2] \<and>
    engine_open_with options_for_test (crash (keep_synced w3) w3) = (Ok e', crash (keep_synced w3) w3) \<and>
    engine_map e' (crash (keep_synced w3) w3) [97] = Some [1]"
proof (rule example_two_tables)
  fix e w t2 t1 ls
  assume e: "engine_ok example_keys e w" "eng_options e = options_for_test" "failpoint w = None" "id_use e = 3"
      "levels (sh_version (eng_shared e)) = [t2, t1] # ls" "concat ls = []" "ls \<noteq> []"
      "buffer_look e [97] = None" "entries_map w t2 [97] = Some (Value [2])" "entries_map w t1 [97] = Some (Value [1])"
  have hyps: "capacity f64_example (eng_options e) example_keys" "id_use e < 2 ^ 64 - 1"
      "l0_compaction_trigger (eng_options e) \<le> 2" "max_levels options_for_test = max_levels (eng_options e)"
    using example_capacity [OF order_refl] by (simp_all add: e(2,4)) (simp add: options_for_test_def)
  obtain job ot s1 s2 sh3 w3 where steps: "pick_compaction (sh_version (eng_shared e)) (sh_options (eng_shared e)) = Some job"
      "inputs job = [t2, t1]" "compact_output f64_example (sh_version (eng_shared e)) job (eng_shared e, w) = (Ok ot, s1)"
      "on_manifest (man_add_table (sst_id ot) (as_u32 (output_level job))) s1 = (Ok (), s2)"
      "on_manifest (man_remove_tables [sst_id t2]) s2 = (Ok (), sh3, w3)" "engine_map e w [97] = Some [2]"
      and crashed: "\<forall>keep. crash_keeps keep w3 \<longrightarrow> (\<exists>e'. engine_open_with options_for_test (crash keep w3) = (Ok e', crash keep w3) \<and>
         engine_map e' (crash keep w3) [97] = Some [1])"
    using crash_during_compaction_stale [OF e(1) hyps(1,2) e(3,5-7) hyps(3,4) e(8-10)] by blast
  have "\<exists>e'. engine_open_with options_for_test (crash (keep_synced w3) w3) = (Ok e', crash (keep_synced w3) w3) \<and>
      engine_map e' (crash (keep_synced w3) w3) [97] = Some [1]"
    using crashed crash_keeps_synced by blast
  then obtain e' where "engine_open_with options_for_test (crash (keep_synced w3) w3) = (Ok e', crash (keep_synced w3) w3)"
      "engine_map e' (crash (keep_synced w3) w3) [97] = Some [1]"
    by blast
  then show ?thesis
    using steps by (intro exI [of _ e] exI [of _ w] exI [of _ t2] exI [of _ job] exI [of _ ot] exI [of _ s1]
        exI [of _ s2] exI [of _ sh3] exI [of _ w3] exI [of _ e']) simp
qed

end
