(* ===== verification/Races.thy ===== *)
theory Races
  imports Interleave_Run Compaction_Crash
begin

text \<open>
  Two interleavings the code does not guard against. \<^verbatim>\<open>compact\<close> runs \<^verbatim>\<open>compact_once\<close> on the calling thread while the
  worker may be in the middle of a pass of its own over the same tables; and with a single level the output of a pass goes
  behind a table that was flushed meanwhile in memory, but in front of it after a restart.
\<close>

section \<open>Compacting all of L0\<close>

lemma pick_all:
  assumes "levels v = l0 # ls" and "concat ls = []" and "ls \<noteq> []" and "l0_compaction_trigger opts \<le> length l0"
    and "length (levels v) = max_levels opts"
  shows "pick_compaction v opts = Some \<lparr>inputs = l0, output_level = 1\<rparr>"
proof -
  obtain l1 ls' where "ls = [] # ls'" using assms(2,3) by (cases ls) auto
  then show ?thesis
    using assms by (simp add: pick_compaction_def case_prod_beta Let_def)
qed

lemma apply_all:
  assumes "levels v = l0 # ls" and "concat ls = []" and "ls \<noteq> []"
    and "apply_compaction \<lparr>inputs = l0, output_level = 1\<rparr> b v = Ok v'"
  shows "concat (levels v') = [b]"
proof -
  obtain ls' where ls: "ls = [] # ls'" and nil: "concat ls' = []" using assms(2,3) by (cases ls) auto
  have none: "filter (\<lambda>t. sst_id t \<notin> sst_id ` set l0) l0 = []"
    by (simp add: filter_empty_conv)
  have "concat (map (filter P) ls') = []" for P
    using nil by (auto simp: concat_eq_Nil_conv)
  then show ?thesis
    using assms(1,4) ls none by (auto simp: apply_compaction_def index_def Let_def)
qed

lemma apply_compaction_total:
  assumes "levels v \<noteq> []" and "output_level job < length (levels v)"
  obtains v' where "apply_compaction job ot v = Ok v'" and "ot \<in> tables_of v'" and "tables_of v' \<subseteq> insert ot (tables_of v)"
    and "length (levels v') = length (levels v)"
proof -
  obtain v' where app: "apply_compaction job ot v = Ok v'" and len: "length (levels v') = length (levels v)"
    using assms by (auto simp: apply_compaction_def index_def Let_def)
  have "t \<in> insert ot (tables_of v)" if mem: "t \<in> tables_of v'" for t
  proof -
    obtain l where l: "l < length (levels v')" "t \<in> set (levels v' ! l)"
      using mem by (rule in_concat_nth)
    then show ?thesis
      using apply_compaction_nth [OF assms(2) app, of l] len nth_mem [of l "levels v"] by (auto simp: Let_def split: if_splits)
  qed
  then show ?thesis
    using that [OF app apply_compaction_mem [OF app assms(2)]] len by blast
qed

section \<open>The caller compacts while the worker has built its output\<close>

lemma mid_built_inv:
  assumes mid: "mid_engine K n0 (Built v0 job ot) idle e w"
  shows "engine_inv K n0 e w"
proof -
  let ?sh = "eng_shared e"
  have inv: "mid_inv K n0 {sst_id ot} {ot} (sh_version ?sh) ?sh w"
    using mid_engineD(1) [OF mid] by (simp add: listed_def)
  have "block_cache.coherent (shared_store ?sh w) (sh_cache ?sh)"
    by (rule block_cache.coherent_mono [OF mid_invD(12) [OF inv]]) (simp add: mid_store_def shared_store_def mid_tables_def)
  then have "shared_inv K n0 ?sh w"
    using mid_invD(1,4) [OF inv] by (simp add: shared_inv_def)
  then show ?thesis
    using mid_engineD(4-8) [OF mid] by (simp add: engine_inv_def)
qed

text \<open>The caller's pass takes all of L0, drops the tombstone of \<open>k\<close>, and keeps the file the worker has built.\<close>

lemma race_compact:
  assumes mid: "mid_engine K n0 (Built v0 job ot) idle e w" and fp: "failpoint w = None"
    and cap: "capacity fl (eng_options e) K" and room: "id_room (eng_shared e)"
    and lv: "levels (sh_version (eng_shared e)) = l0 # ls" "concat ls = []" "l0_compaction_trigger (eng_options e) \<le> length l0"
    and gone: "buffer_look e k = None" "engine_map e w k = None"
  obtains b sh1 w1 where "engine_compact fl (e, w) = (Ok (), e\<lparr>eng_shared := sh1\<rparr>, w1)"
    and "concat (levels (sh_version sh1)) = [b]" and "entries_map w1 b k = None" and "sst_ok w1 b"
    and "sst_id b = next_table_id (sh_manifest (eng_shared e))"
    and "shared_inv K (next_table_id (sh_manifest (eng_shared e)) + 1) sh1 w1" and "sh_cache sh1 = sh_cache (eng_shared e)"
    and "sh_options sh1 = sh_options (eng_shared e)" and "good_table K w1 ot" and "sst_entries w1 ot = sst_entries w ot" and "failpoint w1 = None"
proof -
  let ?sh = "eng_shared e" and ?job = "\<lparr>inputs = l0, output_level = 1\<rparr>"
  let ?v = "sh_version ?sh" and ?opts = "sh_options (eng_shared e)"
  note v = mid_engine_version [OF mid] and inv = mid_engineD(1) [OF mid]
  have opts: "eng_options e = ?opts" by (rule mid_engineD(5) [OF mid])
  have sinv: "shared_inv K n0 ?sh w"
    using mid_built_inv [OF mid] by (simp add: engine_inv_def)
  have ne: "ls \<noteq> []"
    using v(3) lv(1) mid_engineD(3) [OF mid] by auto
  have pick: "pick_compaction ?v ?opts = Some ?job"
    by (rule pick_all [OF lv(1,2) ne]) (use lv(3) v(3) opts in simp_all)
  show ?thesis
  proof (rule compact_once_ok [OF sinv _ _ _ room, of fl])
    fix sh1 w1
    assume once: "compact_once fl (?sh, w) = (Ok (), sh1, w1)" and step: "table_step K ?sh w sh1 w1" and fp1: "failpoint w1 = failpoint w"
      and same: "same_tables ?v w w1"
      and result: "\<And>job. pick_compaction ?v ?opts = Some job \<Longrightarrow>
        \<exists>ot. apply_compaction job ot ?v = Ok (sh_version sh1) \<and> sst_id ot \<notin> sst_id ` set (inputs job) \<and> compacted_by K job ot ?sh w sh1 w1"
    obtain b where app: "apply_compaction ?job b ?v = Ok (sh_version sh1)" and cb: "compacted_by K ?job b ?sh w sh1 w1"
      using result [OF pick] by blast
    have bt: "concat (levels (sh_version sh1)) = [b]"
      by (rule apply_all [OF lv(1,2) ne app])
    have look: "tlook w1 (concat (levels ?v)) k = tlook w (concat (levels ?v)) k"
      by (rule same_tables_tlook [OF v(2,1) same]) simp
    have l0: "concat (levels ?v) = l0"
      using lv(1,2) by simp
    have okI: "list_all (sst_ok w1) (inputs ?job)"
      using same_tables_ok(2) [OF v(2,1) same] l0 by (simp add: version_ok_def)
    have drop: "may_drop_tombstones ?v ?opts ?job"
    proof -
      have "t = []" if "t \<in> set (drop (Suc 0) ls)" for t
        using lv(2) in_set_dropD [OF that] by (auto simp: concat_eq_Nil_conv)
      then show ?thesis
        by (fastforce simp: may_drop_tombstones_def lower_overlap_def lv(1) list_ex_iff)
    qed
    have "visible (tlook w l0 k) = None"
      using gone lv(1,2) by (simp add: engine_map_def engine_look_def)
    then have "entries_map w1 b k = None"
      using job_output_lookup [of w1 ?v ?opts ?job b k] cb okI drop look
      by (cases "tlook w l0 k") (auto simp: compacted_by_def l0 split: entry.splits, metis entry.exhaust visible.simps(1) option.distinct(1))
    moreover have otI: "good_table K w ot" "sst_id ot \<in> pass_ids (Built v0 job ot) \<union> call_ids idle"
      using mid_invD(10,11) [OF inv, of ot] by simp_all
    then have "sst_id ot \<noteq> sst_id b"
      using mid_invD(8) [OF inv otI(2)] cb mid_invD(1) [OF inv] by (auto simp: compacted_by_def disk_inv_def man_at_def)
    then have "kept {ot} w w1"
      using cb by (simp add: compacted_by_def kept_def changes_def)
    then have "good_table K w1 ot" "sst_entries w1 ot = sst_entries w ot"
      using kept_good [OF otI(1), of "{ot}" w1] by simp_all
    moreover have "engine_compact fl (e, w) = (Ok (), e\<lparr>eng_shared := sh1\<rparr>, w1)"
      using once by (simp add: engine_compact_def on_shared_def)
    moreover have "sst_ok w1 b"
      using cb by (simp add: compacted_by_def job_output_def)
    ultimately show thesis
      using that [of sh1 w1 b] bt cb step fp fp1 by (simp add: compacted_by_def table_step_def)
  qed (use cap opts fp in \<open>simp_all add: table_faults_def\<close>)
qed

text \<open>The worker then lists and installs the output it had built, beside the table of the caller.\<close>

lemma race_finish:
  assumes inv: "shared_inv K n0 (eng_shared e) w" and fp: "failpoint w = None" and b: "engine_tables e = [b]"
    and ot: "sst_id ot < n0" "sst_id ot \<noteq> sst_id b" "sst_id ot \<notin> sst_id ` set (inputs job)"
    and job: "set (inputs job) \<subseteq> tables_of v0" "output_level job < length (levels (sh_version (eng_shared e)))"
  obtains sh2 w2 where
    "(worker_turn fl ^^ 3) (e, w, Built v0 job ot) = (e\<lparr>eng_shared := sh2\<rparr>, w2, Returned (Ok ()))"
    and "ot \<in> tables_of (sh_version sh2)" and "tables_of (sh_version sh2) \<subseteq> {ot, b}"
    and "sh_cache sh2 = sh_cache (eng_shared e)" and "changes {MANIFEST_FILE} w w2"
proof -
  let ?sh = "eng_shared e"
  let ?m = "sh_manifest ?sh"
  have disk: "disk_inv K n0 ?m (sh_version ?sh) w" and at: "man_at n0 ?m w" and ne: "levels (sh_version ?sh) \<noteq> []"
    using inv by (simp_all add: shared_inv_defs)
  have "sst_id ot \<notin> fst ` set (man_tables ?m)"
    using ot(2) b by (simp add: man_ids [OF disk] del: set_concat)
  then obtain m' w2 where rec: "compact_record job ot (?sh, w) = (Ok (), ?sh\<lparr>sh_manifest := m'\<rparr>, w2)"
      and ch: "changes {MANIFEST_FILE} w w2"
    using compact_record_ok [OF at _ refl ot(1) _ ot(3) refl] fp by (metis option.distinct(1))
  obtain v' where app: "apply_compaction job ot (sh_version ?sh) = Ok v'" and v': "ot \<in> tables_of v'" "tables_of v' \<subseteq> insert ot (tables_of (sh_version ?sh))"
    by (rule apply_compaction_total [OF ne job(2)])
  let ?sh2 = "?sh\<lparr>sh_manifest := m', sh_version := v'\<rparr>"
  have fp2: "failpoint w2 = None" using fp ch by (simp add: changes_def)
  have keep: "remove_files [v0, v'] (inputs job) w2 = w2"
    by (rule remove_files_snapshot [OF job(1)])
  have "worker_turn fl (e, w, Built v0 job ot) = (e\<lparr>eng_shared := ?sh\<lparr>sh_manifest := m'\<rparr>, eng_worker := eng_worker e\<rparr>, w2, Recorded v0 job ot)"
    by (rule worker_turn_pass) (use rec fp fp2 in \<open>simp_all add: pass_next_def\<close>)
  moreover have "worker_turn fl (e\<lparr>eng_shared := ?sh\<lparr>sh_manifest := m'\<rparr>, eng_worker := eng_worker e\<rparr>, w2, Recorded v0 job ot) =
      (e\<lparr>eng_shared := ?sh2, eng_worker := eng_worker e\<rparr>, w2, Installed v0 job)"
    using worker_turn_pass [where e = "e\<lparr>eng_shared := ?sh\<lparr>sh_manifest := m'\<rparr>, eng_worker := eng_worker e\<rparr>" and p = "Recorded v0 job ot"] app fp2
    by (simp add: pass_next_def)
  moreover have "worker_turn fl (e\<lparr>eng_shared := ?sh2, eng_worker := eng_worker e\<rparr>, w2, Installed v0 job) =
      (e\<lparr>eng_shared := ?sh2, eng_worker := eng_worker e\<rparr>, w2, Returned (Ok ()))"
    using worker_turn_pass [where e = "e\<lparr>eng_shared := ?sh2, eng_worker := eng_worker e\<rparr>" and p = "Installed v0 job"] keep fp2
    by simp
  ultimately have "(worker_turn fl ^^ 3) (e, w, Built v0 job ot) = (e\<lparr>eng_shared := ?sh2\<rparr>, w2, Returned (Ok ()))"
    by (simp add: numeral_3_eq_3)
  then show ?thesis
    using that [of ?sh2 w2] v' b ch by auto
qed

text \<open>
  So a key that was deleted while the worker was building its output is back after both are done: the
  caller's pass dropped the tombstone, the worker's output still has the value.
\<close>

lemma race_reads_old:
  assumes mid: "mid_engine K n0 (Built v0 job ot) idle e w" and fp: "failpoint w = None"
    and cap: "capacity fl (eng_options e) K" and room: "id_room (eng_shared e)"
    and lv: "levels (sh_version (eng_shared e)) = l0 # ls" "concat ls = []" "l0_compaction_trigger (eng_options e) \<le> length l0"
    and gone: "buffer_look e k = None" "engine_map e w k = None" and old: "entries_map w ot k = Some (Value x)"
    and key: "validate_key k = Ok ()"
  obtains sh1 w1 sh2 w2 e3 where "engine_compact fl (e, w) = (Ok (), e\<lparr>eng_shared := sh1\<rparr>, w1)"
    and "(worker_turn fl ^^ 3) (e\<lparr>eng_shared := sh1\<rparr>, w1, Built v0 job ot) = (e\<lparr>eng_shared := sh2\<rparr>, w2, Returned (Ok ()))"
    and "engine_get k (e\<lparr>eng_shared := sh2\<rparr>, w2) = (Ok (Some x), e3, w2)"
proof -
  let ?sh = "eng_shared e" and ?m = "sh_manifest (eng_shared e)"
  note inv = mid_engineD(1) [OF mid] and v = mid_engine_version [OF mid]
  obtain b sh1 w1 where compact: "engine_compact fl (e, w) = (Ok (), e\<lparr>eng_shared := sh1\<rparr>, w1)"
      and b: "concat (levels (sh_version sh1)) = [b]" "entries_map w1 b k = None" "sst_ok w1 b" "sst_id b = next_table_id ?m"
      and inv1: "shared_inv K (next_table_id ?m + 1) sh1 w1" and cache: "sh_cache sh1 = sh_cache ?sh" and opts: "sh_options sh1 = sh_options ?sh"
      and ot: "good_table K w1 ot" "sst_entries w1 ot = sst_entries w ot" and fp1: "failpoint w1 = None"
    by (rule race_compact [OF mid fp cap room lv gone])
  have pick: "picked_from (sh_version ?sh) (eng_options e) v0 job"
    using mid_engineD(9) [OF mid] by simp
  note live = picked_live [OF pick v(1,3) mid_engineD(3) [OF mid]]
  have otI: "sst_id ot \<in> pass_ids (Built v0 job ot) \<union> call_ids idle"
    by simp
  have low: "sst_id ot < next_table_id ?m"
    using mid_invD(8) [OF inv otI] mid_invD(1) [OF inv] by (auto simp: disk_inv_def man_at_def)
  have low1: "sst_id ot < next_table_id ?m + 1"
    by (rule less_trans [OF low]) (use room in simp)
  have fresh: "sst_id ot \<notin> sst_id ` set (inputs job)"
    using mid_invD(9) [OF inv otI] live(1,2) unfolding mid_tables_def by blast
  have len: "length (levels (sh_version sh1)) = length (levels (sh_version ?sh))"
    using inv1 opts mid_invD(4) [OF inv] by (simp add: shared_inv_def)
  let ?e1 = "e\<lparr>eng_shared := sh1\<rparr>"
  obtain sh2 w2 where turns: "(worker_turn fl ^^ 3) (?e1, w1, Built v0 job ot) = (?e1\<lparr>eng_shared := sh2\<rparr>, w2, Returned (Ok ()))"
      and v2: "ot \<in> tables_of (sh_version sh2)" "tables_of (sh_version sh2) \<subseteq> {ot, b}"
      and cache2: "sh_cache sh2 = sh_cache (eng_shared ?e1)" and ch: "changes {MANIFEST_FILE} w1 w2"
    by (rule race_finish [of K "next_table_id ?m + 1" ?e1 w1 b ot job v0 fl])
      (use inv1 fp1 b low low1 fresh live(1,4) len in auto)
  let ?e2 = "e\<lparr>eng_shared := sh2\<rparr>"
  have other: "files w2 (table_file_name i) = files w1 (table_file_name i)" for i
    using ch by (simp add: changes_def)
  have ok: "sst_ok w2 ot" "sst_ok w2 b" "entries_map w2 ot k = Some (Value x)" "entries_map w2 b k = None"
  proof -
    obtain l where "table_at K w1 l b"
      using live_table_at [of K w1 "sh_version sh1" b] inv1 b(1) by (auto simp: shared_inv_defs simp del: set_concat)
    then show "sst_ok w2 b" "entries_map w2 b k = None"
      using table_at_cong(1,2) [OF _ b(3) other [of "sst_id b"], of K l] b(2) by simp_all
    show "sst_ok w2 ot" "entries_map w2 ot k = Some (Value x)"
      using kept_good [OF ot(1), of "{ot}" w2] other ot(2) old by (simp_all add: kept_def good_table_def)
  qed
  have inj: "inj_on sst_id {ot, b}"
    using low b(4) by auto
  have read: "readable ?e2 w2"
    using mid_engineD(6,7) [OF mid] v2(2) ok(1,2) by (auto simp: readable_def simp del: set_concat)
  have serve: "serves (block_store {ot, b} w2) t w2" if "t \<in> set (engine_tables ?e2)" for t
  proof -
    have "t \<in> {ot, b}" using that v2(2) by auto
    then show ?thesis
      using ok(1,2) block_store_serves [OF _ _ inj, of t] by (auto simp: sst_ok_def)
  qed
  have coh: "block_cache.coherent (block_store {ot, b} w2) (sh_cache (eng_shared ?e2))"
  proof -
    have "block_store {ot, b} w2 key x" if "mid_store (mid_tables (listed (Built v0 job ot) idle (sh_version ?sh)) (sh_version ?sh)) (pass_ids (Built v0 job ot) \<union> call_ids idle) ?m w key x" for key x
      using that b(4) by (auto simp: mid_store_def block_store_def)
    then show ?thesis
      using block_cache.coherent_mono [OF mid_invD(12) [OF inv]] cache cache2 by simp
  qed
  obtain c r1 r2 where get: "engine_get k (?e2, w2) = (Ok (engine_map ?e2 w2 k),
      ?e2\<lparr>eng_shared := (eng_shared ?e2)\<lparr>sh_cache := c, bloom_skips := r1, sstable_reads := r2\<rparr>\<rparr>, w2)"
    by (rule engine_get_reads [OF read serve coh key])
  have "tlook w2 (concat (levels (sh_version sh2))) k = Some (Value x)"
    by (rule tlook_unique [OF v2(1) ok(3)]) (use subsetD [OF v2(2)] ok(4) in fastforce)
  then have "engine_map ?e2 w2 k = Some x"
    using gone(1) by (simp add: engine_map_def engine_look_def buffer_look_def)
  then show ?thesis
    using that [OF compact] turns get by simp
qed

text \<open>How the worker gets there: it takes the request and works up to the point where its output is written.\<close>

lemma worker_turn_picked:
  "worker_turn fl (e, w, Picked v job) = (e', w', p') \<Longrightarrow> (\<exists>i. p' = Numbered v job i) \<or> (\<exists>r. p' = Returned r \<and> r \<noteq> Ok ())"
  by (auto simp: worker_turn_def off_thread_def pass_next_def split: result.splits prod.splits)

lemma worker_turn_numbered:
  "worker_turn fl (e, w, Numbered v job i) = (e', w', p') \<Longrightarrow> (\<exists>ot. p' = Built v job ot) \<or> (\<exists>r. p' = Returned r \<and> r \<noteq> Ok ())"
  by (auto simp: worker_turn_def off_thread_def pass_next_def split: result.splits prod.splits)

lemma mid_turn:
  assumes "mid_engine K n0 p c e w" and "worker_ok (eng_worker e)" and "failpoint w = None"
    and "capacity fl (eng_options e) K" and "mid_use p c e < 2 ^ 64"
  obtains p' e' w' n1 where "worker_turn fl (e, w, p) = (e', w', p')" and "mid_move K p c e w p' c e' w'"
    and "mid_engine K n1 p' c e' w'" and "worker_ok (eng_worker e')" and "failpoint w' = None"
    and "capacity fl (eng_options e') K" and "mid_use p' c e' < 2 ^ 64"
proof -
  obtain p' e' w' where "worker_turn fl (e, w, p) = (e', w', p')" and move: "mid_move K p c e w p' c e' w'"
    using worker_turn_ok [OF assms] by blast
  moreover obtain n1 where "mid_engine K n1 p' c e' w'" "worker_ok (eng_worker e')" "failpoint w' = None"
      "capacity fl (eng_options e') K" "mid_use p' c e' < 2 ^ 64"
    using move assms by (auto simp: mid_move_defs)
  ultimately show thesis using that by blast
qed

lemma race_built:
  assumes mid: "mid_engine K n0 Waiting c e w" "worker_ok (eng_worker e)" "failpoint w = None"
      "capacity fl (eng_options e) K" "mid_use Waiting c e < 2 ^ 64"
    and live: "alive (eng_worker e)" "pending (eng_worker e) = Compact # msgs"
    and pick: "pick_compaction (sh_version (eng_shared e)) (eng_options e) = Some job"
  obtains e' w' ot where "(worker_turn fl ^^ 4) (e, w, Waiting) = (e', w', Built (sh_version (eng_shared e)) job ot)"
    and "mid_move K Waiting c e w (Built (sh_version (eng_shared e)) job ot) c e' w'"
proof -
  let ?v = "sh_version (eng_shared e)"
  let ?e1 = "e\<lparr>eng_worker := (eng_worker e)\<lparr>pending := msgs\<rparr>\<rparr>"
  have opts: "sh_options (eng_shared e) = eng_options e"
    using mid_engineD(5) [OF mid(1)] by simp
  have 1: "worker_turn fl (e, w, Waiting) = (?e1, w, Started)"
    using live by (simp add: worker_turn_def Let_def)
  obtain n1 where s1: "mid_engine K n1 Started c ?e1 w" "worker_ok (eng_worker ?e1)" "failpoint w = None"
      "capacity fl (eng_options ?e1) K" "mid_use Started c ?e1 < 2 ^ 64" and m1: "mid_move K Waiting c e w Started c ?e1 w"
    by (rule mid_turn [OF mid]) (use 1 in simp)
  have 2: "worker_turn fl (?e1, w, Started) = (?e1, w, Picked ?v job)"
    using worker_turn_pass [of fl Started ?e1 w "Picked ?v job" "eng_shared e" w] pick opts mid(3) by simp
  obtain n2 where s2: "mid_engine K n2 (Picked ?v job) c ?e1 w" "worker_ok (eng_worker ?e1)" "failpoint w = None"
      "capacity fl (eng_options ?e1) K" "mid_use (Picked ?v job) c ?e1 < 2 ^ 64"
      and m2: "mid_move K Started c ?e1 w (Picked ?v job) c ?e1 w"
    by (rule mid_turn [OF s1]) (use 2 in simp)
  obtain p3 e3 w3 n3 where 3: "worker_turn fl (?e1, w, Picked ?v job) = (e3, w3, p3)"
      and s3: "mid_engine K n3 p3 c e3 w3" "worker_ok (eng_worker e3)" "failpoint w3 = None"
        "capacity fl (eng_options e3) K" "mid_use p3 c e3 < 2 ^ 64"
      and m3: "mid_move K (Picked ?v job) c ?e1 w p3 c e3 w3"
    by (rule mid_turn [OF s2])
  obtain i where p3: "p3 = Numbered ?v job i"
    using worker_turn_picked [OF 3] mid_engineD(9) [OF s3(1)] by auto
  obtain p4 e4 w4 n4 where 4: "worker_turn fl (e3, w3, p3) = (e4, w4, p4)"
      and s4: "mid_engine K n4 p4 c e4 w4" and m4: "mid_move K p3 c e3 w3 p4 c e4 w4"
    by (rule mid_turn [OF s3])
  obtain ot where p4: "p4 = Built ?v job ot"
    using worker_turn_numbered [of fl e3 w3 ?v job i] 4 p3 mid_engineD(9) [OF s4] by auto
  have "(worker_turn fl ^^ 4) (e, w, Waiting) = (e4, w4, Built ?v job ot)"
    using 1 2 3 4 p3 p4 by (simp add: numeral_eq_Suc funpow_swap1)
  moreover have "mid_move K Waiting c e w (Built ?v job ot) c e4 w4"
    using mid_move_trans [OF m1 mid_move_trans [OF m2 mid_move_trans [OF m3 m4]]] p4 by simp
  ultimately show thesis using that by blast
qed

lemma flush_empties: "engine_flush fl (e, w) = (Ok (), e', w') \<Longrightarrow> mem_is_empty (eng_memtable e')"
  by (auto simp: engine_flush_def flush_memtable_def flush_table_def flush_install_def freeze_memtable_def on_world_def
      on_shared_def on_manifest_def mem_is_empty_def mem_new_def Let_def andThen_case split: if_splits result.splits prod.splits list.splits)

text \<open>A value that the inputs hold is in the output, also after other calls.\<close>

lemma built_holds:
  assumes mid: "mid_engine K n0 (Built v job ot) c e w'" and v: "levels_at K w v" "version_ok w v" and same: "same_tables v w w'"
    and look: "tlook w (inputs job) k = Some (Value x)"
  shows "entries_map w' ot k = Some (Value x)"
proof -
  note inv = mid_engineD(1) [OF mid] and now = mid_engine_version [OF mid]
  have pick: "picked_from (sh_version (eng_shared e)) (eng_options e) v job" and es: "sst_entries w' ot = merged_for w' v (eng_options e) job"
    using mid_engineD(9) [OF mid] by simp_all
  note live = picked_live [OF pick now(1,3) mid_engineD(3) [OF mid]]
  have "sst_ok w' ot"
    using mid_invD(10) [OF inv, of ot] by (simp add: good_table_def)
  moreover have "sst_id ot \<notin> sst_id ` tables_of v"
    using mid_invD(9) [OF inv, of "sst_id ot"] live(2) by (auto simp: mid_tables_def simp del: set_concat)
  ultimately have "job_output w' v (eng_options e) job ot"
    using es by (simp add: job_output_def merged_for_def)
  moreover have "list_all (sst_ok w') (inputs job)"
    using same_tables_ok(2) [OF v same] live(1) by (auto simp: version_ok_def list_all_iff simp del: set_concat)
  moreover have "tlook w' (inputs job) k = Some (Value x)"
    using same_tables_tlook [OF v same live(1)] look by simp
  ultimately show ?thesis
    using job_output_lookup by fastforce
qed

text \<open>The calls: the worker takes \<open>n\<close> turns before the first step of a call.\<close>

definition turns_first :: "nat \<Rightarrow> nat \<Rightarrow> nat" where
  "turns_first n = (\<lambda>i. if i = 0 then n else 0)"

definition race_commands :: "bytes \<Rightarrow> concurrent list" where
  "race_commands k =
     [Call CBackground (turns_first 4), Call (CDelete k) (\<lambda>_. 0), Call CFlush (\<lambda>_. 0), Call CCompact (\<lambda>_. 0),
      Call CBackground (turns_first 3), Call (CGet k) (\<lambda>_. 0)]"

lemma run_background: "run_concurrent fl opts (Call CBackground (turns_first n)) (e, w, p) = (RDone (Ok ()), (worker_turn fl ^^ n) (e, w, p))"
proof -
  have six: "[0..<6] = [0, 1, 2, 3, 4, 5 :: nat]"
    by (simp add: upt_rec)
  have "sum_list (map (turns_first n) [0..<6]) = n"
    unfolding six by (simp add: turns_first_def)
  then show ?thesis
    by (simp add: run_call_def drive_finished call_response_def)
qed

lemma race_deletes:
  assumes mid: "mid_engine K n0 p idle e w" and wk: "worker_ok (eng_worker e)" and fp: "failpoint w = None"
    and cap: "capacity fl (eng_options e) K" and room: "mid_use p idle e + 4 < 2 ^ 64" and k: "validate_key k = Ok ()" "k \<in> K"
  obtains e1 w1 e2 w2 where "run_call fl (CDelete k) (\<lambda>_. 0) (e, w, p) = (RDone (Ok ()), e1, w1, p)"
    and "run_call fl CFlush (\<lambda>_. 0) (e1, w1, p) = (RDone (Ok ()), e2, w2, p)"
    and "mid_to 4 ((engine_map e w)(k := None)) K p idle e w p idle e2 w2" and "buffer_look e2 k = None"
proof -
  have op: "op_fits (Delete k)" "fst (op_entry (Delete k)) \<in> K"
    using k by (auto simp: op_fits_def validate_key_Ok record_consts)
  obtain c' e' w' where b1: "call_begin (CDelete k) (e, w) = (c', e', w')"
      and to1: "mid_to 2 ((engine_map e w)(k := None)) K p idle e w p c' e' w'"
    using write_begin_ok [OF mid wk fp op] k(1) by (auto simp: delete_begin_def call_after_def)
  have room1: "mid_use p idle e + 2 < 2 ^ 64" using room by simp
  obtain e1 w1 p1 where r1: "run_call fl (CDelete k) (\<lambda>_. 0) (e, w, p) = (RDone (Ok ()), e1, w1, p1)"
      and to1: "mid_to 2 ((engine_map e w)(k := None)) K p idle e w p1 idle e1 w1"
    by (rule call_goes [OF b1 to1 fp cap room1])
  have p1: "p1 = p" using r1 by (simp add: run_call_alone split: prod.splits)
  obtain n1 where mid1: "mid_engine K n1 p idle e1 w1" "worker_ok (eng_worker e1)" "failpoint w1 = None"
      "capacity fl (eng_options e1) K" "mid_use p idle e1 + 2 < 2 ^ 64" "engine_map e1 w1 = (engine_map e w)(k := None)"
    using to1 fp cap room p1 by (auto simp: mid_to_def)
  obtain c'' e'' w'' where b2: "call_begin CFlush (e1, w1) = (c'', e'', w'')" and to2: "mid_to 2 (engine_map e1 w1) K p idle e1 w1 p c'' e'' w''"
    using flush_begin_ok [OF mid1(1-3)] by auto
  obtain e2 w2 p2 where r2: "run_call fl CFlush (\<lambda>_. 0) (e1, w1, p) = (RDone (Ok ()), e2, w2, p2)"
      and to2: "mid_to 2 (engine_map e1 w1) K p idle e1 w1 p2 idle e2 w2"
    by (rule call_goes [OF b2 to2 mid1(3-5)])
  have p2: "p2 = p" using r2 by (simp add: run_call_alone split: prod.splits)
  have "engine_flush fl (e1, w1) = (Ok (), e2, w2)"
    using r2 by (auto simp: run_call_alone call_turns_flush call_response_def split: prod.splits)
  then have "mem_is_empty (eng_memtable e2)" by (rule flush_empties)
  moreover have "eng_immutable e2 = None"
    using to2 mid_engineD(10) by (fastforce simp: mid_to_def)
  ultimately have "buffer_look e2 k = None"
    by (simp add: buffer_look_def mem_is_empty_def mem_get_def)
  moreover have "mid_to (2 + 2) ((engine_map e w)(k := None)) K p idle e w p idle e2 w2"
    using mid_to_trans [OF to1 [unfolded p1] to2 [unfolded p2 mid1(6)]] .
  ultimately show thesis
    using that [of e1 w1 e2 w2] r1 r2 p1 p2 by simp
qed

text \<open>
  C15: \<^verbatim>\<open>compact\<close> called while the worker is in the middle of a pass brings deleted data back. Take an engine whose L0
  has reached the trigger, whose other levels are empty, and whose worker has a request to take. Let the worker run until it
  has written its output; delete a key that L0 holds, flush, and call \<^verbatim>\<open>compact\<close>, which merges all of L0 with the
  new tombstone and drops both; then let the worker record and install its own output. All calls succeed, and the deleted
  key has its old value again.
\<close>

theorem racing_compactions_resurrect:
  assumes ok: "engine_ok K e w" and imm: "eng_immutable e = None" and fp: "failpoint w = None"
    and cap: "capacity fl (eng_options e) K" and room: "id_use e + 6 < 2 ^ 64" and many: "1 < max_levels (eng_options e)"
    and live: "alive (eng_worker e)" "pending (eng_worker e) = Compact # msgs"
    and lv: "levels (sh_version (eng_shared e)) = l0 # ls" "concat ls = []" "l0_compaction_trigger (eng_options e) \<le> length l0"
    and k: "validate_key k = Ok ()" "k \<in> K" "buffer_look e k = None" "engine_map e w k = Some x"
  shows "fst (run_all (run_concurrent fl opts) (race_commands k) (e, w, Waiting)) =
    [RDone (Ok ()), RDone (Ok ()), RDone (Ok ()), RDone (Ok ()), RDone (Ok ()), RValue (Ok (Some x))]"
proof -
  let ?v = "sh_version (eng_shared e)" and ?job = "\<lparr>inputs = l0, output_level = 1\<rparr>"
  obtain n0 where mid: "mid_engine K n0 Waiting idle e w" and wk: "worker_ok (eng_worker e)"
    using ok imm many by (auto simp: engine_ok_def mid_engine_idle)
  note v = mid_engine_version [OF mid]
  have ne: "ls \<noteq> []" using v(3) lv(1) many by auto
  have pick: "pick_compaction ?v (eng_options e) = Some ?job"
    by (rule pick_all [OF lv(1,2) ne lv(3) v(3)])
  have use: "mid_use Waiting idle e < 2 ^ 64" using room by (simp add: mid_use_def)
  obtain e1 w1 ot where turns: "(worker_turn fl ^^ 4) (e, w, Waiting) = (e1, w1, Built ?v ?job ot)"
      and move: "mid_move K Waiting idle e w (Built ?v ?job ot) idle e1 w1"
    by (rule race_built [OF mid wk fp cap use live pick])
  let ?p = "Built ?v ?job ot"
  obtain n1 where mid1: "mid_engine K n1 ?p idle e1 w1" "worker_ok (eng_worker e1)" "failpoint w1 = None"
      "capacity fl (eng_options e1) K" "mid_use ?p idle e1 + 4 < 2 ^ 64" "engine_map e1 w1 = engine_map e w"
    using move fp cap room by (auto simp: mid_move_defs mid_use_def)
  obtain e2 w2 e3 w3 where dels: "run_call fl (CDelete k) (\<lambda>_. 0) (e1, w1, ?p) = (RDone (Ok ()), e2, w2, ?p)"
      "run_call fl CFlush (\<lambda>_. 0) (e2, w2, ?p) = (RDone (Ok ()), e3, w3, ?p)"
      and to: "mid_to 4 ((engine_map e1 w1)(k := None)) K ?p idle e1 w1 ?p idle e3 w3" and buf: "buffer_look e3 k = None"
    by (rule race_deletes [OF mid1(1-5) k(1,2)])
  obtain n3 where mid3: "mid_engine K n3 ?p idle e3 w3" "failpoint w3 = None" "capacity fl (eng_options e3) K"
      and gone: "engine_map e3 w3 k = None" and opts3: "eng_options e3 = eng_options e" and use3: "mid_use ?p idle e3 + 1 < 2 ^ 64"
    using to mid1 move room by (auto simp: mid_to_def mid_move_defs mid_use_def)
  have room3: "id_room (eng_shared e3)"
    using use3 unfolding id_room_iff by (simp add: mid_use_def id_use_def next_no_def)
  obtain ns where v3: "sh_version (eng_shared e3) = newer ns ?v"
    using mid_engineD(9) [OF mid3(1)] by (auto simp: picked_from_def)
  have lv3: "levels (sh_version (eng_shared e3)) = (ns @ l0) # ls" "l0_compaction_trigger (eng_options e3) \<le> length (ns @ l0)"
    using v3 lv opts3 by simp_all
  have same: "same_tables ?v w w3"
    using mid_table_safe [OF mid] move to by (auto simp: same_tables_def mid_move_defs mid_to_def simp del: set_concat)
  have all: "concat (levels ?v) = l0"
    by (simp only: lv concat.simps append_Nil2)
  have "visible (tlook w l0 k) = Some x"
    using k(3,4) by (simp only: engine_map_def engine_look_def all option.case)
  then have "tlook w (inputs ?job) k = Some (Value x)"
    by (auto elim: visible.elims)
  then have old: "entries_map w3 ot k = Some (Value x)"
    by (rule built_holds [OF mid3(1) v(2,1) same])
  obtain sh4 w4 sh5 w5 e6 where compact: "engine_compact fl (e3, w3) = (Ok (), e3\<lparr>eng_shared := sh4\<rparr>, w4)"
      and rest: "(worker_turn fl ^^ 3) (e3\<lparr>eng_shared := sh4\<rparr>, w4, ?p) = (e3\<lparr>eng_shared := sh5\<rparr>, w5, Returned (Ok ()))"
      and get: "engine_get k (e3\<lparr>eng_shared := sh5\<rparr>, w5) = (Ok (Some x), e6, w5)"
    by (rule race_reads_old [OF mid3 room3 lv3(1) lv(2) lv3(2) buf gone old k(1)])
  have "run_concurrent fl opts (Call (CDelete k) (\<lambda>_. 0)) (e1, w1, ?p) = (RDone (Ok ()), e2, w2, ?p)"
    and "run_concurrent fl opts (Call CFlush (\<lambda>_. 0)) (e2, w2, ?p) = (RDone (Ok ()), e3, w3, ?p)"
    and "run_concurrent fl opts (Call CCompact (\<lambda>_. 0)) (e3, w3, ?p) = (RDone (Ok ()), e3\<lparr>eng_shared := sh4\<rparr>, w4, ?p)"
    and "run_concurrent fl opts (Call (CGet k) (\<lambda>_. 0)) (e3\<lparr>eng_shared := sh5\<rparr>, w5, Returned (Ok ())) =
      (RValue (Ok (Some x)), e6, w5, Returned (Ok ()))"
    using dels compact get by simp_all
  then show ?thesis
    unfolding race_commands_def by (simp only: run_all.simps run_background turns rest prod.case fst_conv)
qed

theorem racing_compactions_resurrect_witness:
  "\<exists>e w. engine_ok example_keys e w \<and> engine_map e w [97] = Some [2] \<and>
    fst (run_all (run_concurrent f64_example options_for_test) (race_commands [97]) (e, w, Waiting)) =
      [RDone (Ok ()), RDone (Ok ()), RDone (Ok ()), RDone (Ok ()), RDone (Ok ()), RValue (Ok (Some [2]))] \<and>
    fst (run_all ref_concurrent (race_commands [97]) [([97], [2])]) =
      [RDone (Ok ()), RDone (Ok ()), RDone (Ok ()), RDone (Ok ()), RDone (Ok ()), RValue (Ok None)]"
proof (rule example_two_tables)
  fix e w t2 t1 ls
  assume e: "engine_ok example_keys e w" "eng_options e = options_for_test" "failpoint w = None" "id_use e = 3"
      "levels (sh_version (eng_shared e)) = [t2, t1] # ls" "concat ls = []" "buffer_look e [97] = None"
      "entries_map w t2 [97] = Some (Value [2])" "eng_immutable e = None" "eng_worker e = worker_start"
  let ?e = "maybe_request_compaction e"
  have map: "engine_map ?e w [97] = Some [2]"
    using e(5,7,8) by (simp add: engine_map_def engine_look_def)
  have live: "alive (eng_worker ?e)" "pending (eng_worker ?e) = Compact # []"
    using e(2,5,10) by (simp_all add: maybe_request_compaction_def request_compaction_def worker_start_def options_for_test_def)
  have use: "id_use ?e + 6 < 2 ^ 64"
    using maybe_request_id_use [of e] e(4) by simp
  have key: "validate_key [97] = Ok ()" "[97 :: u8] \<in> example_keys"
    by (simp_all add: validate_key_Ok record_consts)
  have opts: "1 < max_levels (eng_options ?e)" "l0_compaction_trigger (eng_options ?e) \<le> length [t2, t1]"
    using e(2) by (simp_all add: options_for_test_def)
  have "fst (run_all (run_concurrent f64_example options_for_test) (race_commands [97]) (?e, w, Waiting)) =
      [RDone (Ok ()), RDone (Ok ()), RDone (Ok ()), RDone (Ok ()), RDone (Ok ()), RValue (Ok (Some [2]))]"
    by (rule racing_compactions_resurrect [OF _ _ e(3) _ use opts(1) live _ e(6) opts(2) key _ map])
      (use e example_capacity [OF order_refl] in simp_all)
  moreover have "fst (run_all ref_concurrent (race_commands [97]) [([97], [2])]) =
      [RDone (Ok ()), RDone (Ok ()), RDone (Ok ()), RDone (Ok ()), RDone (Ok ()), RValue (Ok None)]"
    by (simp add: race_commands_def key_error_def)
  ultimately show ?thesis
    using e(1) map by (intro exI [of _ ?e] exI [of _ w]) simp
qed

section \<open>One level only\<close>

lemma pass_turns_output:
  assumes "compact_output fl v job s = (Ok ot, s')"
  shows "(pass_turn fl ^^ 2) (Picked v job, s) = (Built v job ot, s')"
  using assms by (cases s) (auto simp: numeral_2_eq_2 pass_turn_def pass_next_def compact_output_def on_world_def andThen_case Let_def
      split: result.splits prod.splits)

lemma pass_turns_install:
  assumes "compact_record job ot s = (Ok (), sh, w)" and "apply_compaction job ot (sh_version sh) = Ok v'" and "set (inputs job) \<subseteq> tables_of v"
  shows "(pass_turn fl ^^ 3) (Built v job ot, s) = (Returned (Ok ()), sh\<lparr>sh_version := v'\<rparr>, w)"
  using assms remove_files_snapshot [OF assms(3)] by (simp add: numeral_3_eq_3 pass_turn_def pass_next_def)

text \<open>The manifest lists the flushed table before the output of the pass, so the output is the newer one when it is read back.\<close>

lemma single_level_disk:
  assumes disk: "disk_inv K n m v w" and lv: "levels v = [t # l0]"
    and ot: "sst_ok w ot" "table_at K w 0 ot" "sst_id ot \<notin> sst_id ` tables_of v"
    and m': "man_at n m' w'" "man_tables m' = filter (\<lambda>(i, _). i \<notin> sst_id ` set l0) (man_tables m) @ [(sst_id ot, 0)]"
    and ch: "changes {MANIFEST_FILE} w w'"
  shows "disk_inv K n m' (v\<lparr>levels := [[ot, t]]\<rparr>) w'" and "sst_entries w' ot = sst_entries w ot" and "sst_entries w' t = sst_entries w t"
proof -
  have dist: "sst_id t \<notin> sst_id ` set l0" "sst_ok w t" "table_at K w 0 t"
    and man: "filter (\<lambda>(_, l). l = 0) (man_tables m) = map (\<lambda>t. (sst_id t, 0)) (rev (t # l0))"
      "set (man_tables m) = (\<lambda>t. (sst_id t, as_u32 0)) ` set (t # l0)"
    using disk lv by (auto simp: disk_inv_def version_ok_def levels_at_def man_matches_def)
  have "filter (\<lambda>(_, l). l = 0) (man_tables m) = man_tables m"
    by (rule filter_True) (use man(2) in auto)
  then have "man_tables m = map (\<lambda>t. (sst_id t, 0)) (rev l0) @ [(sst_id t, 0)]"
    using man(1) by simp
  moreover have "filter (\<lambda>(i, _). i \<notin> sst_id ` set l0) (map (\<lambda>t. (sst_id t, 0 :: u32)) (rev l0)) = []"
    by (auto simp: filter_empty_conv)
  ultimately have tabs: "man_tables m' = [(sst_id t, 0), (sst_id ot, 0)]"
    using m'(2) dist(1) by simp
  have same: "files w' (table_file_name i) = files w (table_file_name i)" for i
    using ch by (simp add: changes_def)
  note ot' = table_at_cong [OF ot(2,1) same] and t' = table_at_cong [OF dist(3,2) same]
  show "disk_inv K n m' (v\<lparr>levels := [[ot, t]]\<rparr>) w'"
    using ot' t' ot(3) m'(1) lv tabs by (auto simp: disk_inv_def version_ok_def levels_at_def man_matches_def)
  show "sst_entries w' ot = sst_entries w ot" "sst_entries w' t = sst_entries w t"
    by (fact ot'(2), fact t'(2))
qed

text \<open>The output of the pass, before the other calls.\<close>

lemma single_level_output:
  assumes inv: "engine_inv K n0 e w" and wk: "worker_ok (eng_worker e)" and fp: "failpoint w = None" and cap: "capacity fl (eng_options e) K"
    and room: "id_room (eng_shared e)" and lv: "levels (sh_version (eng_shared e)) = [l0]" "l0_compaction_trigger (eng_options e) \<le> length l0"
    and job: "job = \<lparr>inputs = l0, output_level = 0\<rparr>" and look: "tlook w l0 k = Some (Value x)"
  obtains ot sh1 w1 n1 where
    "(pass_turn fl ^^ 3) (Started, eng_shared e, w) = (Built (sh_version (eng_shared e)) job ot, sh1, w1)"
    and "engine_inv K n1 (e\<lparr>eng_shared := sh1\<rparr>) w1" and "failpoint w1 = None" and "sh_version sh1 = sh_version (eng_shared e)"
    and "next_table_id (sh_manifest sh1) = sst_id ot + 1" and "sst_id ot = next_table_id (sh_manifest (eng_shared e))"
    and "sst_ok w1 ot" and "table_at K w1 0 ot" and "entries_map w1 ot k = Some (Value x)" and "sst_id ot \<notin> sst_id ` set l0"
proof -
  let ?sh = "eng_shared e"
  let ?v = "sh_version ?sh" and ?m = "sh_manifest ?sh"
  let ?sh1 = "?sh\<lparr>sh_manifest := ?m\<lparr>next_table_id := next_table_id ?m + 1\<rparr>\<rparr>"
  have sinv: "shared_inv K n0 ?sh w" and opts: "eng_options e = sh_options ?sh"
    using inv by (simp_all add: engine_inv_def)
  have disk: "disk_inv K n0 ?m ?v w" and len: "max_levels (sh_options ?sh) = 1"
    using sinv lv(1) by (auto simp: shared_inv_def)
  have pick: "pick_compaction ?v (sh_options ?sh) = Some job"
    using lv len opts by (simp add: pick_compaction_def job case_prod_beta)
  have live: "set (inputs job) \<subseteq> tables_of ?v"
    using lv(1) by (simp add: job)
  have fps: "failpoint w \<notin> table_faults" "failpoint w \<noteq> Some ManifestWrite"
    using fp by (simp_all add: table_faults_def)
  obtain ot w1 where out: "compact_output fl ?v job (?sh, w) = (Ok ot, ?sh1, w1)"
      and ot: "sst_ok w1 ot" "sst_entries w1 ot = merged_for w1 ?v (sh_options ?sh) job" "sst_id ot = next_table_id ?m"
        "table_at K w1 (output_level job) ot"
      and man1: "man_at (next_table_id ?m + 1) (?m\<lparr>next_table_id := next_table_id ?m + 1\<rparr>) w1"
      and ch: "changes {MANIFEST_FILE, table_file_name (next_table_id ?m), tmp_path (table_file_name (next_table_id ?m))} w w1"
    by (rule compact_output_ok [OF sinv cap [unfolded opts] live fps room refl refl refl])
  have same: "same_tables ?v w w1"
    by (rule new_files_same_tables [OF disk ch])
  have v: "levels_at K w ?v" "version_ok w ?v"
    using disk by (simp_all add: disk_inv_def)
  have new: "sst_id ot \<notin> sst_id ` tables_of ?v"
    using new_id_unused(2) [OF disk] ot(3) by (metis imageE)
  then have "job_output w1 ?v (sh_options ?sh) job ot"
    using ot(1,2) by (simp add: job_output_def merged_for_def)
  moreover have "list_all (sst_ok w1) (inputs job)"
    using same_tables_ok(2) [OF v same] lv(1) by (simp add: version_ok_def job)
  moreover have "tlook w1 (inputs job) k = Some (Value x)"
    using same_tables_tlook [OF v same live] look by (simp add: job)
  ultimately have "entries_map w1 ot k = Some (Value x)"
    using job_output_lookup by fastforce
  moreover have "table_step K ?sh w ?sh1 w1"
    by (rule table_step_idle [OF sinv room same man1 _ refl]) (use ch in \<open>simp add: changes_def\<close>)
  then have "engine_ok K (e\<lparr>eng_shared := ?sh1\<rparr>) w1"
    using engine_table_step(1) [OF inv _ wk, of ?sh1 w1 "e\<lparr>eng_shared := ?sh1\<rparr>" "last_error ?sh"] by simp
  then obtain n1 where "engine_inv K n1 (e\<lparr>eng_shared := ?sh1\<rparr>) w1"
    by (auto simp: engine_ok_def)
  moreover have "(pass_turn fl ^^ 3) (Started, ?sh, w) = (Built ?v job ot, ?sh1, w1)"
    using pass_turns_output [OF out] pick by (simp add: numeral_3_eq_3 numeral_2_eq_2 funpow_swap1 pass_turn_def [of fl])
  ultimately show thesis
    using that [of ot ?sh1 w1 n1] ot(1,3,4) new lv(1) fp ch by (simp add: job changes_def)
qed

text \<open>The rest of the pass, after a table was flushed.\<close>

lemma single_level_finish:
  assumes inv: "engine_inv K n e w" and fp: "failpoint w = None" and empty: "eng_memtable e = mem_new" "eng_immutable e = None"
    and lv: "levels (sh_version (eng_shared e)) = [t # l0]" and t: "entries_map w t = [k \<mapsto> Value y]"
    and ot: "sst_ok w ot" "table_at K w 0 ot" "entries_map w ot k = Some (Value x)" "sst_id ot \<notin> sst_id ` set (t # l0)" "sst_id ot < sst_id t"
    and job: "job = \<lparr>inputs = l0, output_level = 0\<rparr>" "set l0 \<subseteq> tables_of v0" and opts: "max_levels opts = 1"
  obtains sh' w' where "(pass_turn fl ^^ 3) (Built v0 job ot, eng_shared e, w) = (Returned (Ok ()), sh', w')"
    and "engine_map (e\<lparr>eng_shared := sh'\<rparr>) w' k = Some y"
    and "\<forall>keep. crash_keeps keep w' \<longrightarrow>
       (\<exists>e'. engine_open_with opts (crash keep w') = (Ok e', crash keep w') \<and> engine_map e' (crash keep w') k = Some x)"
proof -
  let ?sh = "eng_shared e"
  let ?v = "sh_version ?sh" and ?m = "sh_manifest ?sh"
  define m' where "m' = ?m\<lparr>man_tables := filter (\<lambda>(i, _). i \<notin> sst_id ` set (inputs job)) (man_tables ?m) @
      [(sst_id ot, as_u32 (output_level job))]\<rparr>"
  have sinv: "shared_inv K n ?sh w"
    using inv by (simp add: engine_inv_def)
  have disk: "disk_inv K n ?m ?v w" and at: "man_at n ?m w"
    using sinv by (simp_all add: shared_inv_defs)
  have "sst_id t < n"
    by (rule live_id_bound(1) [OF sinv]) (simp add: lv)
  then have low: "sst_id ot < n" using ot(5) by (rule less_trans [rotated])
  have new: "sst_id ot \<notin> sst_id ` tables_of ?v"
    using ot(4) lv by simp
  obtain w' where rec: "compact_record job ot (?sh, w) = (Ok (), ?sh\<lparr>sh_manifest := m'\<rparr>, w')" and at': "man_at n m' w'"
      and ch: "changes {MANIFEST_FILE} w w'"
    by (rule compact_record_ok [OF at _ refl low _ _ m'_def]) (use fp ot(4) new man_ids [OF disk] in \<open>simp_all add: job(1)\<close>)
  have m': "man_tables m' = filter (\<lambda>(i, _). i \<notin> sst_id ` set l0) (man_tables ?m) @ [(sst_id ot, 0)]"
    by (simp add: m'_def job(1))
  note after = single_level_disk [OF disk lv ot(1,2) new at' m' ch]
  have dist: "sst_id t \<notin> sst_id ` set l0"
    using disk lv by (simp add: disk_inv_def version_ok_def)
  moreover have "filter (\<lambda>t. sst_id t \<notin> sst_id ` set l0) l0 = []"
    by (simp add: filter_empty_conv)
  ultimately have app: "apply_compaction job ot ?v = Ok (?v\<lparr>levels := [[t, ot]]\<rparr>)"
    using lv by (simp add: apply_compaction_def job(1) index_def Let_def)
  let ?sh' = "?sh\<lparr>sh_manifest := m', sh_version := ?v\<lparr>levels := [[t, ot]]\<rparr>\<rparr>"
  have turns: "(pass_turn fl ^^ 3) (Built v0 job ot, ?sh, w) = (Returned (Ok ()), ?sh', w')"
    using pass_turns_install [OF rec, of "?v\<lparr>levels := [[t, ot]]\<rparr>" v0 fl] app job by simp
  have buf: "buffer_look e k = None"
    using empty by (simp add: buffer_look_def)
  have "engine_map (e\<lparr>eng_shared := ?sh'\<rparr>) w' k = Some y"
    using buf after(3) t by (simp add: engine_map_def engine_look_def)
  moreover obtain ops where log: "wal_holds wal_here ops w" "wal_synced wal_here w"
      "fst ` op_entry ` set ops \<subseteq> K" "mem_get (fold apply_operation ops mem_new) = buffer_look e"
    by (rule engine_log [OF inv])
  have log': "wal_holds wal_here ops w'" "wal_synced wal_here w'"
    using log(1,2) ch by (simp_all add: wal_holds_def wal_synced_def file_of_def changes_def)
  have "\<exists>e'. engine_open_with opts (crash keep w') = (Ok e', crash keep w') \<and> engine_map e' (crash keep w') k = Some x"
    if keep: "crash_keeps keep w'" for keep
  proof (rule engine_open_ok [OF disk_inv_crash(1) [OF after(1) keep] _ wal_crash [OF log' keep] log(3), of opts])
    fix e'
    assume e': "engine_open_with opts (crash keep w') = (Ok e', crash keep w')"
      and look: "\<And>k. engine_look e' (crash keep w') k = (case mem_get (fold apply_operation ops mem_new) k of
        Some x \<Rightarrow> Some x | None \<Rightarrow> tlook (crash keep w') (concat (levels (?v\<lparr>levels := [[ot, t]]\<rparr>))) k)"
    have "engine_look e' (crash keep w') k = tlook w' (concat (levels (?v\<lparr>levels := [[ot, t]]\<rparr>))) k"
      by (simp only: look log(4) buf option.case disk_inv_crash(2) [OF after(1) keep])
    then show ?thesis
      using e' after(2) ot(3) by (simp add: engine_map_def)
  qed (use opts in simp)
  ultimately show thesis
    using that turns by blast
qed

text \<open>
  C16: with a single level a restart may undo a write. Let the worker have written the output of a pass over L0, the only
  level; put a key anew and flush; then let the worker finish. The new table is in front of the output in memory, and reads are
  right. The manifest lists the output last, so after any restart it is in front and the old value is read.
\<close>

theorem single_level_restart_stale:
  assumes ok: "engine_ok K e w" and fp: "failpoint w = None" and cap: "capacity fl (eng_options e) K" and room: "id_use e + 3 < 2 ^ 64"
    and mem: "eng_memtable e = mem_new" "eng_immutable e = None"
    and lv: "levels (sh_version (eng_shared e)) = [l0]" "l0_compaction_trigger (eng_options e) \<le> length l0"
    and k: "k \<in> K" "key_error k = None" "value_error y = None" "length k + length y < memtable_size_bytes (eng_options e)"
    and old: "engine_map e w k = Some x" and opts: "max_levels opts = 1"
  shows "\<exists>p sh1 w1 e2 w2 e3 w3 sh4 w4.
    (pass_turn fl ^^ 3) (Started, eng_shared e, w) = (p, sh1, w1) \<and>
    engine_put fl k y (e\<lparr>eng_shared := sh1\<rparr>, w1) = (Ok (), e2, w2) \<and> engine_flush fl (e2, w2) = (Ok (), e3, w3) \<and>
    (pass_turn fl ^^ 3) (p, eng_shared e3, w3) = (Returned (Ok ()), sh4, w4) \<and>
    engine_map (e3\<lparr>eng_shared := sh4\<rparr>) w4 k = Some y \<and>
    (\<forall>keep. crash_keeps keep w4 \<longrightarrow>
       (\<exists>e5. engine_open_with opts (crash keep w4) = (Ok e5, crash keep w4) \<and> engine_map e5 (crash keep w4) k = Some x))"
proof -
  let ?sh = "eng_shared e" and ?job = "\<lparr>inputs = l0, output_level = 0\<rparr>"
  let ?v = "sh_version ?sh"
  obtain n0 where inv: "engine_inv K n0 e w" and wk: "worker_ok (eng_worker e)"
    using ok by (auto simp: engine_ok_def)
  have room0: "id_room ?sh"
    using room by (simp add: id_room_iff id_use_def next_no_def)
  have "buffer_look e k = None"
    using mem by (simp add: buffer_look_def)
  then have "visible (tlook w l0 k) = Some x"
    using old lv(1) by (simp add: engine_map_def engine_look_def)
  then have look: "tlook w l0 k = Some (Value x)"
    by (auto elim: visible.elims)
  obtain ot sh1 w1 n1 where built: "(pass_turn fl ^^ 3) (Started, ?sh, w) = (Built ?v ?job ot, sh1, w1)"
      and inv1: "engine_inv K n1 (e\<lparr>eng_shared := sh1\<rparr>) w1" and fp1: "failpoint w1 = None" and v1: "sh_version sh1 = ?v"
      and nxt: "next_table_id (sh_manifest sh1) = sst_id ot + 1" "sst_id ot = next_table_id (sh_manifest ?sh)"
      and ot: "sst_ok w1 ot" "table_at K w1 0 ot" "entries_map w1 ot k = Some (Value x)" "sst_id ot \<notin> sst_id ` set l0"
    by (rule single_level_output [OF inv wk fp cap room0 lv refl look])
  let ?e1 = "e\<lparr>eng_shared := sh1\<rparr>"
  have op: "op_fits (Put k y)"
    using k(2,3) by (auto simp: key_error_def value_error_def op_fits_def record_consts split: if_splits)
  have room1: "id_room (eng_shared ?e1)"
    using room room0 nxt next_plus_one [OF room0] unfolding id_room_iff by (simp add: id_use_def next_no_def)
  obtain n3 e2 w2 e3 w3 t where inv3: "engine_inv K n3 e3 w3" and e3: "eng_memtable e3 = mem_new" "eng_immutable e3 = None"
      and lv3: "levels (sh_version (eng_shared e3)) = (t # hd (levels (sh_version (eng_shared ?e1)))) # tl (levels (sh_version (eng_shared ?e1)))"
      and t: "entries_map w3 t = [k \<mapsto> Value y]" "flushed_by ?e1 t w1 w3" and fp3: "failpoint w3 = None"
      and put: "engine_write fl (Put k y) (?e1, w1) = (Ok (), e2, w2)" "flush_memtable fl (e2, w2) = (Ok (), e3, w3)"
    by (rule put_flush [OF inv1 fp1 op k(1) _ _ _ room1]) (use mem k(4) cap in \<open>auto simp: id_use_def\<close>)
  have lv3: "levels (sh_version (eng_shared e3)) = [t # l0]"
    using lv3 v1 lv(1) by simp
  have tid: "sst_id t = sst_id ot + 1" "sst_id ot < sst_id t"
    using t(2) nxt room0 by (simp_all add: flushed_by_def)
  have same: "files w3 (table_file_name (sst_id ot)) = files w1 (table_file_name (sst_id ot))"
    using t(2) tid by (auto simp: flushed_by_def changes_def)
  note ot3 = table_at_cong [OF ot(2,1) same]
  let ?e3 = "maybe_request_compaction e3"
  obtain sh4 w4 where rest: "(pass_turn fl ^^ 3) (Built ?v ?job ot, eng_shared ?e3, w3) = (Returned (Ok ()), sh4, w4)"
      "engine_map (?e3\<lparr>eng_shared := sh4\<rparr>) w4 k = Some y"
      "\<forall>keep. crash_keeps keep w4 \<longrightarrow>
         (\<exists>e'. engine_open_with opts (crash keep w4) = (Ok e', crash keep w4) \<and> engine_map e' (crash keep w4) k = Some x)"
    by (rule single_level_finish [of K n3 ?e3 w3 t l0 k y ot x ?job ?v opts fl])
      (use inv3 fp3 e3 lv3 t(1) ot3 ot(3,4) tid(2) lv(1) opts in auto)
  have "engine_put fl k y (?e1, w1) = (Ok (), e2, w2)"
    using put(1) k(2,3) by (simp add: engine_put_def key_error_validate value_error_validate)
  moreover have "engine_flush fl (e2, w2) = (Ok (), ?e3, w3)"
    using put(2) by (simp add: engine_flush_def)
  ultimately show ?thesis
    using built rest by blast
qed

definition one_level :: options where
  "one_level = options_for_test\<lparr>max_levels := 1, l0_compaction_trigger := 1\<rparr>"

lemma example_one_table:
  obtains e w t where "engine_ok example_keys e w" and "eng_options e = one_level" and "failpoint w = None" and "id_use e = 2"
    and "levels (sh_version (eng_shared e)) = [[t]]" and "entries_map w t = [[97] \<mapsto> Value [1]]"
    and "eng_memtable e = mem_new" and "eng_immutable e = None" and "capacity f64_example one_level example_keys"
proof -
  have opts: "0 < max_levels one_level" "max_levels one_level \<le> 2 ^ 32"
    by (simp_all add: one_level_def)
  obtain e0 w0 where e0: "engine_ok example_keys e0 w0" "eng_options e0 = one_level" "id_use e0 = 1"
      "failpoint w0 = failpoint empty_world" "eng_memtable e0 = mem_new" "engine_tables e0 = []"
    using engine_open_fresh [OF example_world(1) example_world(1) opts, where K = example_keys] by metis
  then obtain n0 where inv0: "engine_inv example_keys n0 e0 w0" and wk: "worker_ok (eng_worker e0)"
    by (auto simp: engine_ok_def)
  have fp0: "failpoint w0 = None" using e0(4) example_world(2) by simp
  have "length (levels (sh_version (eng_shared e0))) = max_levels (eng_options e0)"
    using inv0 by (simp add: engine_inv_def shared_inv_def)
  then have "length (levels (sh_version (eng_shared e0))) = 1"
    using e0(2) by (simp add: one_level_def)
  then have lv0: "levels (sh_version (eng_shared e0)) = [[]]"
    using e0(6) by (cases "levels (sh_version (eng_shared e0))") simp_all
  have cap: "capacity f64_example one_level example_keys"
    using example_capacity [OF order_refl] by (simp add: capacity_def one_level_def)
  have op: "op_fits (Put [97] [1])" "[97 :: u8] \<in> example_keys"
    by (simp_all add: op_fits_def record_consts)
  have room0: "id_room (eng_shared e0)"
    using e0(3) by (simp add: id_room_iff id_use_def next_no_def)
  show thesis
  proof (rule put_flush [OF inv0 fp0 op e0(5) _ _ room0, of f64_example])
    fix n1 e1 w1 t1
    assume "engine_inv example_keys n1 e1 w1" "failpoint w1 = None" "eng_memtable e1 = mem_new" "eng_immutable e1 = None"
      "eng_options e1 = eng_options e0" "eng_worker e1 = eng_worker e0" "next_no e1 = next_no e0 + 1"
      "levels (sh_version (eng_shared e1)) = (t1 # hd (levels (sh_version (eng_shared e0)))) # tl (levels (sh_version (eng_shared e0)))"
      "entries_map w1 t1 = [[97] \<mapsto> Value [1]]"
    then show thesis
      using that [of e1 w1 t1] e0(2,3) lv0 wk cap by (auto simp: engine_ok_def id_use_def)
  qed (use cap e0(2) in \<open>simp_all add: one_level_def options_for_test_def\<close>)
qed

theorem single_level_restart_stale_witness:
  "\<exists>e w p sh1 w1 e2 w2 e3 w3 sh4 w4 e5.
    (pass_turn f64_example ^^ 3) (Started, eng_shared e, w) = (p, sh1, w1) \<and>
    engine_put f64_example [97] [2] (e\<lparr>eng_shared := sh1\<rparr>, w1) = (Ok (), e2, w2) \<and>
    engine_flush f64_example (e2, w2) = (Ok (), e3, w3) \<and>
    (pass_turn f64_example ^^ 3) (p, eng_shared e3, w3) = (Returned (Ok ()), sh4, w4) \<and>
    engine_map (e3\<lparr>eng_shared := sh4\<rparr>) w4 [97] = Some [2] \<and>
    engine_open_with one_level (crash (keep_synced w4) w4) = (Ok e5, crash (keep_synced w4) w4) \<and>
    engine_map e5 (crash (keep_synced w4) w4) [97] = Some [1]"
proof (rule example_one_table)
  fix e w t
  assume e: "engine_ok example_keys e w" "eng_options e = one_level" "failpoint w = None" "id_use e = 2"
    "levels (sh_version (eng_shared e)) = [[t]]" "entries_map w t = [[97] \<mapsto> Value [1]]" "eng_memtable e = mem_new" "eng_immutable e = None"
    and cap: "capacity f64_example one_level example_keys"
  have hyps: "capacity f64_example (eng_options e) example_keys" "id_use e + 3 < 2 ^ 64" "l0_compaction_trigger (eng_options e) \<le> length [t]"
      "[97 :: u8] \<in> example_keys" "key_error [97] = None" "value_error [2] = None"
      "length [97 :: u8] + length [2 :: u8] < memtable_size_bytes (eng_options e)" "max_levels one_level = 1"
    using e(2,4) cap by (simp_all add: one_level_def options_for_test_def key_error_def value_error_def)
  have "engine_map e w [97] = Some [1]"
    using e(5-8) by (simp add: engine_map_def engine_look_def buffer_look_def)
  from single_level_restart_stale [OF e(1,3) hyps(1,2) e(7,8,5) hyps(3-7) this hyps(8)]
  obtain p sh1 w1 e2 w2 e3 w3 sh4 w4 where steps: "(pass_turn f64_example ^^ 3) (Started, eng_shared e, w) = (p, sh1, w1)"
      "engine_put f64_example [97] [2] (e\<lparr>eng_shared := sh1\<rparr>, w1) = (Ok (), e2, w2)" "engine_flush f64_example (e2, w2) = (Ok (), e3, w3)"
      "(pass_turn f64_example ^^ 3) (p, eng_shared e3, w3) = (Returned (Ok ()), sh4, w4)"
      "engine_map (e3\<lparr>eng_shared := sh4\<rparr>) w4 [97] = Some [2]"
      and crashed: "\<forall>keep. crash_keeps keep w4 \<longrightarrow> (\<exists>e5. engine_open_with one_level (crash keep w4) = (Ok e5, crash keep w4) \<and>
        engine_map e5 (crash keep w4) [97] = Some [1])"
    by blast
  obtain e5 where "engine_open_with one_level (crash (keep_synced w4) w4) = (Ok e5, crash (keep_synced w4) w4)"
      "engine_map e5 (crash (keep_synced w4) w4) [97] = Some [1]"
    using crashed crash_keeps_synced by blast
  then show ?thesis
    using steps by blast
qed

end
