(* ===== verification/Workload.thy ===== *)
theory Workload
  imports Interleave_Run
begin

text \<open>
  The workload generator (\<^verbatim>\<open>src/src/bin/workload.rs\<close>): the command line, the pseudo-random keys, and the loop that drives
  the engine, in which every \<^verbatim>\<open>unwrap\<close> and \<^verbatim>\<open>expect\<close> is a possible panic. The background worker runs on its own: it takes
  \<open>sched i 0\<close> turns before the call number \<open>i\<close> and \<open>sched i (j + 1)\<close> turns before the step \<open>j\<close> of that call
  (\<open>Interleave_Run\<close>). What the operating system answers to \<^verbatim>\<open>remove_dir_all\<close> and \<^verbatim>\<open>create_dir_all\<close> is an argument of
  \<open>workload_main\<close>. Times, latencies and the printed report are left out, and \<^verbatim>\<open>bytes\<close> wraps as it does in a release build.
\<close>

section \<open>Workloads and arguments\<close>

datatype workload = Sequential | Random | ReadHeavy | WriteHeavy | Negative | Overwrite

definition parse_workload :: "string \<Rightarrow> workload" where
  "parse_workload name =
     (if name = ''sequential'' then Sequential
      else if name = ''read-heavy'' then ReadHeavy
      else if name = ''write-heavy'' then WriteHeavy
      else if name = ''negative'' then Negative
      else if name = ''overwrite'' then Overwrite
      else Random)"

fun workload_name :: "workload \<Rightarrow> string" where
  "workload_name Sequential = ''sequential''"
| "workload_name Random = ''random''"
| "workload_name ReadHeavy = ''read-heavy''"
| "workload_name WriteHeavy = ''write-heavy''"
| "workload_name Negative = ''negative''"
| "workload_name Overwrite = ''overwrite''"

lemma parse_workload_name: "parse_workload (workload_name wl) = wl"
  by (cases wl) (simp_all add: parse_workload_def)

text \<open>\<^verbatim>\<open>str::parse::<usize>\<close>: an optional plus sign and at least one digit, and no overflow.\<close>

definition parse_usize :: "string \<Rightarrow> nat option" where
  "parse_usize s =
     (let digits = (case s of c # cs \<Rightarrow> if c = CHR ''+'' then cs else s | [] \<Rightarrow> []) in
      if digits \<noteq> [] \<and> list_all is_digit digits \<and> undecimal digits < 2 ^ 64 then Some (undecimal digits) else None)"

record bench_args =
  ba_workload :: workload
  ba_ops :: nat
  ba_dir :: string

definition bench_defaults :: bench_args where
  "bench_defaults = \<lparr>ba_workload = Random, ba_ops = 20000, ba_dir = ''data/bench''\<rparr>"

text \<open>The loop over the arguments; an option at the end of the list has no value.\<close>

fun parse_args :: "string list \<Rightarrow> bench_args \<Rightarrow> bench_args" where
  "parse_args [] a = a"
| "parse_args [arg] a = (if arg = ''--workload'' then a\<lparr>ba_workload := parse_workload ''random''\<rparr> else a)"
| "parse_args (arg # v # rest) a =
     (if arg = ''--workload'' then parse_args rest (a\<lparr>ba_workload := parse_workload v\<rparr>)
      else if arg = ''--ops'' then
        parse_args rest (a\<lparr>ba_ops := (case parse_usize v of Some n \<Rightarrow> n | None \<Rightarrow> ba_ops a)\<rparr>)
      else if arg = ''--dir'' then parse_args rest (a\<lparr>ba_dir := v\<rparr>)
      else parse_args (v # rest) a)"

definition bench_options :: options where
  "bench_options = options_default\<lparr>memtable_size_bytes := 512 * 1024, l0_compaction_trigger := 4\<rparr>"

section \<open>Keys\<close>

text \<open>\<^verbatim>\<open>format!("{prefix}{n:0width}")\<close> as bytes.\<close>

definition numbered :: "string \<Rightarrow> nat \<Rightarrow> nat \<Rightarrow> bytes" where
  "numbered pre width n = map of_char (pre @ pad_zeros width (decimal n))"

definition xorshift :: "u64 \<Rightarrow> u64 \<times> u64" where
  "xorshift state =
     (let x = state;
          x = xor x (push_bit 13 x);
          x = xor x (drop_bit 7 x);
          x = xor x (push_bit 17 x)
      in (x, x))"

definition random_key :: "u64 \<Rightarrow> u64 \<Rightarrow> bytes \<times> u64" where
  "random_key rng space = (case xorshift rng of (x, rng) \<Rightarrow> (numbered ''key-'' 6 (unat (x mod space)), rng))"

section \<open>The loop\<close>

definition unwrap :: "'a result \<times> 's \<Rightarrow> 'a result \<times> 's" where
  "unwrap = (\<lambda>(r, s). case r of Ok x \<Rightarrow> (Ok x, s) | Err _ \<Rightarrow> (Panic, s) | Panic \<Rightarrow> (Panic, s))"

text \<open>
  One call of the engine with the turns of the worker in it. The state is the number of bytes written so far, the engine,
  the files and where the worker is.
\<close>

type_synonym bench_state = "u64 \<times> engine \<times> world \<times> pass"

definition returned :: "response \<times> 's \<Rightarrow> unit result \<times> 's" where
  "returned = (\<lambda>(r, s). (case r of RDone x \<Rightarrow> x | _ \<Rightarrow> Panic, s))"

definition bench_put :: "f64_math \<Rightarrow> (nat \<Rightarrow> nat) \<Rightarrow> bytes \<Rightarrow> bytes \<Rightarrow> bench_state \<Rightarrow> unit result \<times> bench_state" where
  "bench_put fl turns key v = (\<lambda>(nbytes, s).
     case unwrap (returned (run_call fl (CPut key v) turns s)) of
       (Ok _, s) \<Rightarrow> (Ok (), nbytes + as_u64 (length key + length v), s)
     | (r, s) \<Rightarrow> (Panic, nbytes, s))"

definition bench_get :: "bytes \<Rightarrow> bench_state \<Rightarrow> unit result \<times> bench_state" where
  "bench_get key = (\<lambda>(nbytes, e, w, p).
     case unwrap (engine_get key (e, w)) of
       (Ok _, e, w) \<Rightarrow> (Ok (), nbytes, e, w, p)
     | (r, e, w) \<Rightarrow> (Panic, nbytes, e, w, p))"

fun workload_op ::
  "f64_math \<Rightarrow> (nat \<Rightarrow> nat) \<Rightarrow> workload \<Rightarrow> nat \<Rightarrow> u64 \<Rightarrow> bench_state \<Rightarrow> unit result \<times> u64 \<times> bench_state" where
  "workload_op fl turns Sequential i rng st =
     (case bench_put fl turns (numbered ''key-'' 6 i) (replicate 64 (of_char (CHR ''x''))) st of (r, st) \<Rightarrow> (r, rng, st))"
| "workload_op fl turns Random i rng st =
     (case random_key rng 50000 of (key, rng) \<Rightarrow>
      case bench_put fl turns key (replicate 64 (of_char (CHR ''r''))) st of (r, st) \<Rightarrow> (r, rng, st))"
| "workload_op fl turns ReadHeavy i rng st =
     (if i mod 10 = 0 then
        (case random_key rng 5000 of (key, rng) \<Rightarrow>
         case bench_put fl turns key (replicate 32 (of_char (CHR ''w''))) st of (r, st) \<Rightarrow> (r, rng, st))
      else
        (case random_key rng 5000 of (key, rng) \<Rightarrow> case bench_get key st of (r, st) \<Rightarrow> (r, rng, st)))"
| "workload_op fl turns WriteHeavy i rng st =
     (if i mod 5 = 0 then
        (case random_key rng 8000 of (key, rng) \<Rightarrow> case bench_get key st of (r, st) \<Rightarrow> (r, rng, st))
      else
        (case random_key rng 8000 of (key, rng) \<Rightarrow>
         case bench_put fl turns key (replicate 64 (of_char (CHR ''w''))) st of (r, st) \<Rightarrow> (r, rng, st)))"
| "workload_op fl turns Negative i rng st =
     (case bench_get (numbered ''missing-'' 8 i) st of (r, st) \<Rightarrow> (r, rng, st))"
| "workload_op fl turns Overwrite i rng st =
     (case bench_put fl turns (numbered ''hot-'' 0 (i mod 64)) (replicate 64 (of_char (CHR ''o''))) st of (r, st) \<Rightarrow> (r, rng, st))"

definition worker_turns :: "f64_math \<Rightarrow> nat \<Rightarrow> bench_state \<Rightarrow> bench_state" where
  "worker_turns fl n = (\<lambda>(nbytes, s). (nbytes, (worker_turn fl ^^ n) s))"

fun workload_loop ::
  "f64_math \<Rightarrow> (nat \<Rightarrow> nat \<Rightarrow> nat) \<Rightarrow> workload \<Rightarrow> nat list \<Rightarrow> u64 \<Rightarrow> bench_state \<Rightarrow> unit result \<times> bench_state" where
  "workload_loop fl sched wl [] rng st = (Ok (), st)"
| "workload_loop fl sched wl (i # is) rng st =
     (case workload_op fl (\<lambda>j. sched i (j + 1)) wl i rng (worker_turns fl (sched i 0) st) of
        (Ok _, rng, st) \<Rightarrow> workload_loop fl sched wl is rng st
      | (r, rng, st) \<Rightarrow> (Panic, st))"

text \<open>\<^verbatim>\<open>Vec::with_capacity(n)\<close> for elements of eight bytes panics when the size does not fit \<^verbatim>\<open>isize\<close>.\<close>

definition with_capacity_u64 :: "nat \<Rightarrow> unit result" where
  "with_capacity_u64 n = (if 8 * n > 2 ^ 63 - 1 then Panic else Ok ())"

text \<open>The final flush; \<^verbatim>\<open>close\<close> waits for the pass the worker is in.\<close>

definition workload_end :: "f64_math \<Rightarrow> (nat \<Rightarrow> nat \<Rightarrow> nat) \<Rightarrow> nat \<Rightarrow> bench_state \<Rightarrow> u64 result \<times> world" where
  "workload_end fl sched ops st =
     (case worker_turns fl (sched ops 0) st of (nbytes, s) \<Rightarrow>
      case unwrap (returned (run_call fl CFlush (\<lambda>j. sched ops (j + 1)) s)) of
        (Ok _, s) \<Rightarrow>
          (case finish_pass 7 fl ((worker_turn fl ^^ sched (ops + 1) 0) s) of (e, w, p) \<Rightarrow>
           case unwrap (engine_close fl (e, w)) of
             (Ok _, s) \<Rightarrow> (Ok nbytes, snd (engine_drop fl s))
           | (r, e, w) \<Rightarrow> (Panic, w))
      | (r, e, w, p) \<Rightarrow> (Panic, w))"

definition workload_main ::
  "f64_math \<Rightarrow> (world \<Rightarrow> unit result \<times> world) \<Rightarrow> (world \<Rightarrow> unit result \<times> world) \<Rightarrow> (nat \<Rightarrow> nat \<Rightarrow> nat) \<Rightarrow>
     bench_args \<Rightarrow> world \<Rightarrow> u64 result \<times> world" where
  "workload_main fl remove_dir_all create_dir_all sched args w =
     (let w = snd (remove_dir_all w) in
      case unwrap (create_dir_all w) of
        (Ok _, w) \<Rightarrow>
          (case unwrap (engine_open_with bench_options w) of
             (Ok db, w) \<Rightarrow>
               (case with_capacity_u64 (ba_ops args) of
                  Ok _ \<Rightarrow>
                    (case workload_loop fl sched (ba_workload args) [0..<ba_ops args] 0xDEADBEEF (0, db, w, Waiting) of
                       (Ok _, st) \<Rightarrow> workload_end fl sched (ba_ops args) st
                     | (r, nbytes, e, w, p) \<Rightarrow> (Panic, w))
                | _ \<Rightarrow> (Panic, w))
           | (r, w) \<Rightarrow> (Panic, w))
      | (r, w) \<Rightarrow> (Panic, w))"

section \<open>No call fails\<close>

text \<open>The keys a workload may write.\<close>

fun workload_keys :: "workload \<Rightarrow> nat \<Rightarrow> bytes set" where
  "workload_keys Sequential n = numbered ''key-'' 6 ` {..<n}"
| "workload_keys Random n = numbered ''key-'' 6 ` {..<50000}"
| "workload_keys ReadHeavy n = numbered ''key-'' 6 ` {..<5000}"
| "workload_keys WriteHeavy n = numbered ''key-'' 6 ` {..<8000}"
| "workload_keys Negative n = {}"
| "workload_keys Overwrite n = numbered ''hot-'' 0 ` {..<64}"

lemma length_decimal: "n < 10 ^ k \<Longrightarrow> 0 < k \<Longrightarrow> length (decimal n) \<le> k"
proof (induction k arbitrary: n)
  case (Suc k)
  show ?case
  proof (cases "n < 10")
    case False
    then have "0 < k" "n div 10 < 10 ^ k"
      using Suc.prems by (auto intro: Nat.gr0I)
    then show ?thesis
      using Suc.IH [of "n div 10"] False by (subst decimal.simps) simp
  qed (subst decimal.simps, simp)
qed simp

lemma numbered_valid:
  assumes "n < 2 ^ 64" and "length pre + width \<le> 100" and "pre \<noteq> []"
  shows "key_error (numbered pre width n) = None"
proof -
  have "n < 10 ^ 20" using assms(1) by simp
  then have "length (decimal n) \<le> 20" using length_decimal [of n 20] by simp
  then show ?thesis
    using assms(2,3) by (simp add: key_error_def numbered_def pad_zeros_def)
qed

lemma random_key_numbered:
  assumes "random_key rng space = (key, rng')" and "0 < unat space"
  shows "\<exists>j < unat space. key = numbered ''key-'' 6 j"
  using assms by (auto simp: random_key_def unat_mod split: prod.splits intro!: exI [of _ "unat (fst (xorshift rng)) mod unat space"])

definition bench_rel :: "f64_math \<Rightarrow> bytes set \<Rightarrow> nat \<Rightarrow> bench_state \<Rightarrow> bool" where
  "bench_rel fl K n st \<longleftrightarrow> (\<exists>kvs. conc_rel fl bench_options K n (snd st) kvs)"

lemma bench_relE:
  assumes "bench_rel fl K n st"
  obtains nbytes e w p kvs where "st = (nbytes, e, w, p)" and "conc_rel fl bench_options K n (e, w, p) kvs"
  using assms by (cases st) (auto simp: bench_rel_def)

text \<open>A call of which the reference says that it succeeds.\<close>

lemma run_call_ok:
  assumes rel: "conc_rel fl bench_options K n (e, w, p) kvs" and "n + 2 < 2 ^ 64" and "written c \<subseteq> K"
    and c: "c = CFlush \<or> (\<exists>k v. c = CPut k v)" and ok: "fst (ref_command c kvs) = RDone (Ok ())"
  obtains s' kvs' where "run_call fl c turns (e, w, p) = (RDone (Ok ()), s')" and "conc_rel fl bench_options K (n + 2) s' kvs'"
proof -
  have "conc_follows fl bench_options K n (Call c turns) (e, w, p) kvs"
    by (rule call_follows [OF rel assms(2,3)]) (use c in blast)
  then show thesis
    using that c ok by (cases "run_call fl c turns (e, w, p)") (auto simp: conc_follows_def)
qed

lemma bench_put_ok:
  assumes "bench_rel fl K n st" and "key \<in> K" and "key_error key = None" and "value_error v = None" and "n + 2 < 2 ^ 64"
  shows "\<exists>st'. bench_put fl turns key v st = (Ok (), st') \<and> bench_rel fl K (n + 2) st'"
proof (rule bench_relE [OF assms(1)])
  fix nbytes e w p kvs
  assume st: "st = (nbytes, e, w, p)" and rel: "conc_rel fl bench_options K n (e, w, p) kvs"
  show ?thesis
  proof (rule run_call_ok [OF rel assms(5), of "CPut key v" turns])
    fix s' kvs'
    assume "run_call fl (CPut key v) turns (e, w, p) = (RDone (Ok ()), s')" "conc_rel fl bench_options K (n + 2) s' kvs'"
    then show ?thesis
      by (auto simp: bench_put_def returned_def unwrap_def st bench_rel_def)
  qed (use assms(2-4) in auto)
qed

lemma bench_get_ok:
  assumes "bench_rel fl K n st" and "key_error key = None"
  shows "\<exists>st'. bench_get key st = (Ok (), st') \<and> bench_rel fl K (n + 2) st'"
proof (rule bench_relE [OF assms(1)])
  fix nbytes e w p kvs
  assume st: "st = (nbytes, e, w, p)" and rel: "conc_rel fl bench_options K n (e, w, p) kvs"
  obtain e' w' where "engine_get key (e, w) = (Ok (map_of kvs key), e', w')" "conc_rel fl bench_options K (n + 2) (e', w', p) kvs"
    using get_follows [OF rel, of key] assms(2)
    by (cases "engine_get key (e, w)") (auto simp: conc_follows_def)
  then show ?thesis
    by (auto simp: bench_get_def unwrap_def st bench_rel_def)
qed

lemma worker_turns_rel:
  assumes "bench_rel fl K n st" and "n + 2 < 2 ^ 64"
  shows "bench_rel fl K n (worker_turns fl m st)"
proof (rule bench_relE [OF assms(1)])
  fix nbytes e w p kvs
  assume st: "st = (nbytes, e, w, p)" and rel: "conc_rel fl bench_options K n (e, w, p) kvs"
  have "n < 2 ^ 64" using assms(2) by simp
  then show ?thesis
    by (rule conc_turns [OF rel, of m]) (auto simp: worker_turns_def st bench_rel_def)
qed

lemma random_key_ok:
  assumes "random_key rng space = (key, rng')" and "0 < unat space"
  shows "key \<in> numbered ''key-'' 6 ` {..<unat space}" and "key_error key = None"
proof -
  obtain j where j: "j < unat space" "key = numbered ''key-'' 6 j"
    using random_key_numbered [OF assms] by blast
  then show "key \<in> numbered ''key-'' 6 ` {..<unat space}" by blast
  have "unat space < 2 ^ LENGTH(64)" by (rule unsigned_less)
  then have "j < 2 ^ 64" using j(1) by simp
  then show "key_error key = None"
    using j(2) by (simp add: numbered_valid)
qed

lemma workload_op_ok:
  assumes rel: "bench_rel fl K n st" and keys: "workload_keys wl m \<subseteq> K" and i: "i < m" "m < 2 ^ 64" and n: "n + 2 < 2 ^ 64"
  shows "\<exists>rng' st'. workload_op fl turns wl i rng st = (Ok (), rng', st') \<and> bench_rel fl K (n + 2) st'"
proof -
  have v: "value_error (replicate 64 x) = None" "value_error (replicate 32 x) = None" for x
    by (simp_all add: value_error_def)
  note put64 = bench_put_ok [OF rel _ _ v(1) n, of _ turns] and put32 = bench_put_ok [OF rel _ _ v(2) n, of _ turns] and get = bench_get_ok [OF rel]
  have rnd: "0 < unat space \<Longrightarrow> fst (random_key rng space) \<in> numbered ''key-'' 6 ` {..<unat space}"
    "0 < unat space \<Longrightarrow> key_error (fst (random_key rng space)) = None" for space
    by (rule random_key_ok [OF prod.collapse [symmetric]], assumption)+
  have i64: "i < 2 ^ 64" using i by simp
  show ?thesis
  proof (cases wl)
    case Sequential
    have "numbered ''key-'' 6 i \<in> K" "key_error (numbered ''key-'' 6 i) = None"
      using keys i(1) i64 by (auto simp: Sequential numbered_valid)
    from put64 [OF this, of "of_char (CHR ''x'')"] show ?thesis
      by (auto simp: Sequential)
  next
    case Random
    have "fst (random_key rng 50000) \<in> K" "key_error (fst (random_key rng 50000)) = None"
      using rnd [of 50000] keys by (auto simp: Random)
    from put64 [OF this, of "of_char (CHR ''r'')"] show ?thesis
      by (auto simp: Random case_prod_beta)
  next
    case ReadHeavy
    have "fst (random_key rng 5000) \<in> K" "key_error (fst (random_key rng 5000)) = None"
      using rnd [of 5000] keys by (auto simp: ReadHeavy)
    from put32 [OF this, of "of_char (CHR ''w'')"] get [OF this(2)] show ?thesis
      by (auto simp: ReadHeavy case_prod_beta)
  next
    case WriteHeavy
    have "fst (random_key rng 8000) \<in> K" "key_error (fst (random_key rng 8000)) = None"
      using rnd [of 8000] keys by (auto simp: WriteHeavy)
    from put64 [OF this, of "of_char (CHR ''w'')"] get [OF this(2)] show ?thesis
      by (auto simp: WriteHeavy case_prod_beta)
  next
    case Negative
    have "key_error (numbered ''missing-'' 8 i) = None"
      using i64 by (simp add: numbered_valid)
    from get [OF this] show ?thesis
      by (auto simp: Negative)
  next
    case Overwrite
    have "i mod 64 < 64" by simp
    then have "i mod 64 < 2 ^ 64" by (rule less_le_trans) simp
    then have "numbered ''hot-'' 0 (i mod 64) \<in> K" "key_error (numbered ''hot-'' 0 (i mod 64)) = None"
      using keys by (auto simp: Overwrite numbered_valid)
    from put64 [OF this, of "of_char (CHR ''o'')"] show ?thesis
      by (auto simp: Overwrite)
  qed
qed

lemma workload_loop_ok:
  assumes "bench_rel fl K n st" and "workload_keys wl m \<subseteq> K" and "\<forall>i \<in> set is. i < m" and "m < 2 ^ 64" and "n + 2 * length is + 2 < 2 ^ 64"
  shows "\<exists>st'. workload_loop fl sched wl is rng st = (Ok (), st') \<and> bench_rel fl K (n + 2 * length is) st'"
  using assms
proof (induction "is" arbitrary: n rng st)
  case Nil
  then show ?case by simp
next
  case (Cons i "is")
  let ?st = "worker_turns fl (sched i 0) st" and ?turns = "\<lambda>j. sched i (j + 1)"
  have "bench_rel fl K n ?st"
    using worker_turns_rel [OF Cons.prems(1)] Cons.prems(5) by simp
  then have "\<exists>rng' st'. workload_op fl ?turns wl i rng ?st = (Ok (), rng', st') \<and> bench_rel fl K (n + 2) st'"
    by (rule workload_op_ok [OF _ Cons.prems(2) _ Cons.prems(4)]) (use Cons.prems(3,5) in simp_all)
  then obtain rng' st' where op: "workload_op fl ?turns wl i rng ?st = (Ok (), rng', st')" and rel: "bench_rel fl K (n + 2) st'"
    by blast
  have "\<exists>st''. workload_loop fl sched wl is rng' st' = (Ok (), st'') \<and> bench_rel fl K (n + 2 + 2 * length is) st''"
    by (rule Cons.IH [OF rel Cons.prems(2) _ Cons.prems(4)]) (use Cons.prems(3,5) in simp_all)
  then show ?case
    using op by simp
qed

text \<open>The final flush and the close.\<close>

lemma workload_end_ok:
  assumes "bench_rel fl K n st" and n: "n + 4 < 2 ^ 64"
  shows "\<exists>nbytes w'. workload_end fl sched ops st = (Ok nbytes, w')"
proof -
  have "bench_rel fl K n (worker_turns fl (sched ops 0) st)"
    by (rule worker_turns_rel [OF assms(1)]) (use n in simp)
  then obtain nbytes e w p kvs where st: "worker_turns fl (sched ops 0) st = (nbytes, e, w, p)"
      and rel: "conc_rel fl bench_options K n (e, w, p) kvs"
    by (rule bench_relE)
  obtain s1 kvs1 where flush: "run_call fl CFlush (\<lambda>j. sched ops (j + 1)) (e, w, p) = (RDone (Ok ()), s1)"
      and rel1: "conc_rel fl bench_options K (n + 2) s1 kvs1"
    by (rule run_call_ok [OF rel, of CFlush "\<lambda>j. sched ops (j + 1)"]) (use n in simp_all)
  obtain e1 w1 p1 where s1: "s1 = (e1, w1, p1)" by (cases s1)
  obtain e2 w2 p2 where turns: "(worker_turn fl ^^ sched (ops + 1) 0) s1 = (e2, w2, p2)"
      and rel2: "conc_rel fl bench_options K (n + 2) (e2, w2, p2) kvs1"
    by (rule conc_turns [OF rel1 [unfolded s1], of "sched (ops + 1) 0"]) (use n s1 in simp_all)
  show ?thesis
  proof (rule conc_relD [OF rel2])
    fix n0
    assume pre: "mid_engine K n0 p2 idle e2 w2" "worker_ok (eng_worker e2)" "failpoint w2 = None" "capacity fl (eng_options e2) K"
      and "mid_use p2 idle e2 \<le> n + 2"
    then have "mid_use p2 idle e2 < 2 ^ 64" using n by simp
    then obtain e3 w3 where fin: "finish_pass 7 fl (e2, w2, p2) = (e3, w3, Waiting)" "mid_move K p2 idle e2 w2 Waiting idle e3 w3"
      using finish_pass_ok [OF pre _ pass_left_7] by blast
    have rel3: "run_rel fl bench_options K (n + 2) (e3, w3) kvs1"
      using conc_rel_move [OF rel2 fin(2)] by (simp add: run_rel_conc)
    have "engine_ok K e3 w3" "capacity fl (eng_options e3) K" "failpoint w3 = None" "id_use e3 < 2 ^ 64 - 1"
      using rel3 run_rel_room [OF rel3] n by (auto simp: run_rel_def)
    then obtain e4 w4 where "engine_close fl (e3, w3) = (Ok (), e4, w4)"
      by (rule engine_close_ok)
    then show ?thesis
      using st flush turns fin(1) by (simp add: workload_end_def returned_def unwrap_def numeral_eq_Suc)
  qed
qed

text \<open>
  C21: for fewer than \<open>2 ^ 60\<close> operations the generator never panics, and from there on it always does. Whatever the
  workload and whatever turns the worker takes before the calls and inside them, every put, every get, the final flush and
  the close succeed, provided that the directory could be cleared of a manifest and a log and created, and that the tables
  of the keys of the workload stay within the format (\<open>capacity\<close>). With more operations the vector of the latencies does
  not fit the address space, and \<^verbatim>\<open>Vec::with_capacity\<close> panics.
\<close>

theorem workload_never_panics:
  assumes "remove_dir_all w = (x, w1)" and "files w1 MANIFEST_FILE = None" and "files w1 WAL_FILE_NAME = None"
    and "failpoint w1 = None" and "create_dir_all w1 = (Ok (), w1)"
    and "capacity fl bench_options (workload_keys (ba_workload args) (ba_ops args))"
  shows "if ba_ops args < 2 ^ 60 then \<exists>nbytes w'. workload_main fl remove_dir_all create_dir_all sched args w = (Ok nbytes, w')
    else fst (workload_main fl remove_dir_all create_dir_all sched args w) = Panic"
proof -
  let ?K = "workload_keys (ba_workload args) (ba_ops args)" and ?n = "1 + 2 * length [0..<ba_ops args]"
  have opts: "1 < max_levels bench_options" "0 < max_levels bench_options" "max_levels bench_options \<le> 2 ^ 32"
    by (simp_all add: bench_options_def options_default_def)
  obtain e0 w0 where new: "engine_open_with bench_options w1 = (Ok e0, w0)" "engine_ok ?K e0 w0" "eng_options e0 = bench_options"
      "eng_immutable e0 = None" "id_use e0 = 1" "failpoint w0 = failpoint w1" "engine_map e0 w0 = (\<lambda>_. None)"
    using engine_open_fresh [OF assms(2,3) opts(2,3), where K = ?K] by metis
  then have "run_rel fl bench_options ?K 1 (e0, w0) []"
    using assms(4,6) by (simp add: run_rel_def)
  then have rel0: "bench_rel fl ?K 1 (0, e0, w0, Waiting)"
    using opts(1) by (auto simp: bench_rel_def run_rel_conc)
  show ?thesis
  proof (cases "ba_ops args < 2 ^ 60")
    case True
    have "\<exists>st. workload_loop fl sched (ba_workload args) [0..<ba_ops args] 0xDEADBEEF (0, e0, w0, Waiting) = (Ok (), st) \<and>
        bench_rel fl ?K ?n st"
      by (rule workload_loop_ok [OF rel0 order_refl]) (use True in simp_all)
    then obtain st where loop: "workload_loop fl sched (ba_workload args) [0..<ba_ops args] 0xDEADBEEF (0, e0, w0, Waiting) = (Ok (), st)"
        "bench_rel fl ?K ?n st"
      by blast
    have "\<exists>nbytes w'. workload_end fl sched (ba_ops args) st = (Ok nbytes, w')"
      by (rule workload_end_ok [OF loop(2)]) (use True in simp)
    then show ?thesis
      using True assms(1,5) new(1) loop(1) by (auto simp: workload_main_def unwrap_def with_capacity_u64_def)
  next
    case False
    then show ?thesis
      using assms(1,5) new(1) by (simp add: workload_main_def unwrap_def with_capacity_u64_def)
  qed
qed

theorem workload_never_panics_witness:
  "\<exists>nbytes w'. workload_main f64_example (\<lambda>w. (Ok (), w\<lparr>files := \<lambda>_. None\<rparr>)) (\<lambda>w. (Ok (), w)) (\<lambda>i j. i mod 3 + j)
     (parse_args [''--workload'', ''overwrite'', ''--ops'', ''1000''] bench_defaults) empty_world = (Ok nbytes, w')"
proof -
  let ?args = "parse_args [''--workload'', ''overwrite'', ''--ops'', ''1000''] bench_defaults"
  have args: "ba_workload ?args = Overwrite" "ba_ops ?args = 1000"
    by (simp_all add: bench_defaults_def parse_workload_def parse_usize_def is_digit_def undecimal_def)
  have "card (workload_keys Overwrite 1000) \<le> 64"
    using card_image_le [of "{..<64 :: nat}" "numbered ''hot-'' 0"] by simp
  moreover have "[] \<notin> workload_keys Overwrite 1000"
    by (auto simp: numbered_def)
  ultimately have "capacity f64_example bench_options (workload_keys Overwrite 1000)"
    by (auto simp: capacity_def bench_options_def options_default_def bloom_new_def f64_example_def Let_def)
  then have cap: "capacity f64_example bench_options (workload_keys (ba_workload ?args) (ba_ops ?args))"
    by (simp only: args)
  have small: "ba_ops ?args < 2 ^ 60"
    by (simp only: args) simp
  show ?thesis
    using workload_never_panics [where remove_dir_all = "\<lambda>w. (Ok (), w\<lparr>files := \<lambda>_. None\<rparr>)" and create_dir_all = "\<lambda>w. (Ok (), w)"
        and w = empty_world and sched = "\<lambda>i j. i mod 3 + j", OF refl _ _ _ refl cap] small example_world(2)
    by simp
qed

end
