(* ===== verification/Flush_Crash.thy ===== *)
theory Flush_Crash
  imports Interleave_Run Compaction_Crash
begin

text \<open>
  Crashes inside a step. The steps of \<open>Phases\<close> write a record to the manifest, a table file or the log; here the process
  dies while such a step is on its way, with the worker's pass anywhere, and the directory is opened again.
\<close>

section \<open>A step that is not finished\<close>

text \<open>
  The files while a step leads from \<open>w\<close> to \<open>w'\<close>. Each file is as before or as after the step; a file that the step
  appends to may have any part of the new bytes, not synced yet; and the temporary file of a table, which gets its name by
  the rename that ends its creation, may hold anything.
\<close>

definition part_written :: "world \<Rightarrow> world \<Rightarrow> world \<Rightarrow> bool" where
  "part_written w w' v \<longleftrightarrow>
     (\<forall>f. files v f = files w f \<or> files v f = files w' f \<or> (\<exists>i. f = tmp_path (table_file_name i)) \<or>
        (\<exists>x bs j. files w f = Some x \<and> map_option content (files w' f) = Some (content x @ bs) \<and>
           files v f = Some (x\<lparr>content := content x @ take j bs\<rparr>)))"

lemma part_written_cases:
  assumes "part_written w w' v" and "\<And>i. f \<noteq> tmp_path (table_file_name i)"
  obtains (before) "files v f = files w f" | (after) "files v f = files w' f"
  | (torn) x bs j where "files w f = Some x" and "map_option content (files w' f) = Some (content x @ bs)"
      and "files v f = Some (x\<lparr>content := content x @ take j bs\<rparr>)"
  using assms unfolding part_written_def by blast

lemma part_written_same:
  assumes part: "part_written w w' v" and f: "\<And>i. f \<noteq> tmp_path (table_file_name i)" and same: "files w' f = files w f"
  shows "files v f = files w f"
  by (rule part_written_cases [OF part f]) (use same in auto)

lemma part_written_tables:
  assumes "part_written w w' v" and "same_tables L w w'"
  shows "same_tables L w v"
  using assms part_written_same [OF assms(1)] by (simp add: same_tables_def)

section \<open>Opening with a torn manifest\<close>

lemma load_tables_cong:
  "(\<And>i level. (i, level) \<in> set ts \<Longrightarrow> files w' (table_file_name i) = files w (table_file_name i)) \<Longrightarrow>
     load_tables opts w' ts v = load_tables opts w ts v"
proof (induction ts arbitrary: v)
  case (Cons t ts)
  obtain i level where t: "t = (i, level)" by (cases t)
  then have "files w' (table_file_name i) = files w (table_file_name i)"
    by (intro Cons.prems [of i level]) simp
  moreover from this have "sst_open (table_file_name i) i w' = sst_open (table_file_name i) i w"
    by (rule sst_open_cong)
  moreover have "load_tables opts w' ts v = load_tables opts w ts v" for v
    by (rule Cons.IH) (auto intro: Cons.prems)
  ultimately show ?case
    by (simp add: t file_exists_def Let_def)
qed simp

text \<open>Of the manifest, opening uses only what it replays to.\<close>

lemma engine_open_manifest:
  assumes inv: "engine_inv K n0 e u" and opened: "engine_open_with opts u = (Ok e, u)"
    and m: "man_open u = (Ok m, u)" "man_open u' = (Ok m, u')"
    and same: "\<And>f. f \<noteq> MANIFEST_FILE \<Longrightarrow> files u' f = files u f"
  shows "engine_open_with opts u' = (Ok e, u')" and "engine_map e u' = engine_map e u"
proof -
  have "files u WAL_FILE_NAME \<noteq> None"
    using inv by (auto simp: engine_inv_def log_inv_def wal_holds_def)
  then have "wal_open WAL_FILE_NAME u = (Ok wal_here, u)" "wal_open WAL_FILE_NAME u' = (Ok wal_here, u')"
    using same [of WAL_FILE_NAME] by (auto simp: wal_open_def open_create_def)
  moreover have "load_tables opts u' (man_active_tables m) v = load_tables opts u (man_active_tables m) v" for v
    by (rule load_tables_cong) (simp add: same)
  moreover have "wal_iter wal_here u' = (fst (wal_iter wal_here u), u')" "wal_iter wal_here u = (fst (wal_iter wal_here u), u)"
    using same [of WAL_FILE_NAME] by (simp_all add: wal_iter_def file_of_def)
  ultimately show "engine_open_with opts u' = (Ok e, u')"
    using opened m by (auto simp: engine_open_with_def Let_def andThen_case split: result.splits prod.splits)
  have "same_tables (sh_version (eng_shared e)) u u'"
    by (simp add: same_tables_def same)
  then have "tlook u' (engine_tables e) k = tlook u (engine_tables e) k" for k
    by (rule same_tables_tlook [where K = K, rotated 2]) (use inv in \<open>simp_all add: engine_inv_def shared_inv_defs\<close>)
  then show "engine_map e u' = engine_map e u"
    by (intro engine_map_cong) simp_all
qed

lemma crash_torn_manifest:
  assumes mid: "mid_engine K n0 p c e w" and tabs: "same_tables (listed p c (sh_version (eng_shared e))) w v"
    and log: "files v WAL_FILE_NAME = files w WAL_FILE_NAME" and x: "files w MANIFEST_FILE = Some x"
    and v: "files v MANIFEST_FILE = Some (x\<lparr>content := content x @ bs\<rparr>)" and keep: "crash_keeps keep v"
    and torn: "length (take (keep MANIFEST_FILE - length (content x)) bs) < 17"
    and opts: "max_levels opts = max_levels (eng_options e)"
  shows "\<exists>e'. engine_open_with opts (crash keep v) = (Ok e', crash keep v) \<and> engine_map e' (crash keep v) = engine_map e w"
proof -
  let ?u = "set_file MANIFEST_FILE x v"
  obtain rs m where rs: "content x = man_log.log_bytes rs" "durable x = length (content x)"
      and m: "man_apply_all rs (man_fresh MANIFEST_FILE) = (Ok (), m)"
    using mid_invD(1) [OF mid_engineD(1) [OF mid]] x by (auto simp: disk_inv_def man_at_def man_replays_def)
  have long: "length (content x) \<le> keep MANIFEST_FILE"
    using crash_keepsD [OF keep v] rs(2) by simp
  have ku: "crash_keeps keep ?u"
    using keep long rs(2) by (simp add: crash_keeps_def)
  have "files (crash keep ?u) MANIFEST_FILE = Some x"
    by (rule crash_durable [OF ku _ rs(2)]) simp
  then have mu: "man_open (crash keep ?u) = (Ok m, crash keep ?u)"
    by (rule man_open_log [OF _ _ m]) (simp add: rs(1) man_log.collect_log list_all_iff)
  let ?c = "man_log.log_bytes rs @ take (keep MANIFEST_FILE - length (content x)) bs"
  have fv: "files (crash keep v) MANIFEST_FILE = Some \<lparr>content = ?c, durable = length ?c\<rparr>"
    using long v by (auto simp: rs(1) min_def)
  have "man_collect (take (keep MANIFEST_FILE - length (content x)) bs) = Ok []"
    using torn by (intro man_log.collect_End) (simp add: man_parse_def)
  then have mv: "man_open (crash keep v) = (Ok m, crash keep v)"
    by (intro man_open_log [OF fv _ m]) (simp add: man_log.collect_append list_all_iff)
  show ?thesis
  proof (rule mid_crash [OF mid _ ku opts])
    show "same_recovery (listed p c (sh_version (eng_shared e))) w ?u"
      using tabs log x by (simp add: same_recovery_def same_tables_def)
  next
    fix e'
    assume e': "engine_open_with opts (crash keep ?u) = (Ok e', crash keep ?u)" "engine_inv K n0 e' (crash keep ?u)"
      "engine_map e' (crash keep ?u) = engine_map e w"
    have "files (crash keep v) f = files (crash keep ?u) f" if "f \<noteq> MANIFEST_FILE" for f
      using that by simp
    from engine_open_manifest [OF e'(2,1) mu mv this] show ?thesis
      using e'(3) by auto
  qed
qed

section \<open>A step that is cut off\<close>

text \<open>The step appends one record to the manifest.\<close>

lemma crash_in_append:
  assumes mid1: "mid_engine K n1 p c1 e1 w1" and mid2: "mid_engine K n2 p' c2 e2 w2"
    and same: "engine_map e2 w2 = engine_map e1 w1" "eng_options e2 = eng_options e1"
    and w2: "w2 = file_sync MANIFEST_FILE (file_append MANIFEST_FILE (encode_record r) w1)"
    and part: "part_written w1 w2 v" and keep: "crash_keeps keep v" and opts: "max_levels opts = max_levels (eng_options e1)"
  shows "\<exists>e'. engine_open_with opts (crash keep v) = (Ok e', crash keep v) \<and> engine_map e' (crash keep v) = engine_map e1 w1"
proof -
  have others: "files v f = files w1 f \<and> files v f = files w2 f"
    if "f \<noteq> MANIFEST_FILE" "\<And>i. f \<noteq> tmp_path (table_file_name i)" for f
    using part_written_same [OF part that(2)] that(1) by (simp add: w2)
  have rec1: "same_recovery L w1 v" if "files v MANIFEST_FILE = files w1 MANIFEST_FILE" for L
    using others that by (simp add: same_recovery_def same_tables_def)
  have rec2: "same_recovery L w2 u" if "files u MANIFEST_FILE = files w2 MANIFEST_FILE" "\<And>f. f \<noteq> MANIFEST_FILE \<Longrightarrow> files u f = files v f" for L u
  proof -
    have "files u (table_file_name i) = files w2 (table_file_name i)" "files u WAL_FILE_NAME = files w2 WAL_FILE_NAME" for i
      using that(2) others [of "table_file_name i"] others [of WAL_FILE_NAME] by auto
    then show ?thesis
      using that(1) by (simp add: same_recovery_def same_tables_def)
  qed
  have opts2: "max_levels opts = max_levels (eng_options e2)"
    using opts same(2) by simp
  have "MANIFEST_FILE \<noteq> tmp_path (table_file_name i)" for i
    by simp
  note manifest = part_written_cases [OF part this, case_names before after torn]
  show ?thesis
  proof (cases rule: manifest)
    case before
    show ?thesis
      by (rule mid_crash [OF mid1 rec1 keep opts]) (use before in auto)
  next
    case after
    show ?thesis
      by (rule mid_crash [OF mid2 rec2 keep opts2]) (use after same in auto)
  next
    case (torn x bs j)
    let ?n = "keep MANIFEST_FILE - length (content x)" and ?E = "encode_record r"
    have bs: "bs = ?E"
      using torn(1,2) by (simp add: w2 file_of_def)
    have tabs: "same_tables L w1 v" and log: "files v WAL_FILE_NAME = files w1 WAL_FILE_NAME" for L
      using others by (simp_all add: same_tables_def)
    show ?thesis
    proof (cases "length (take ?n (take j ?E)) < 17")
      case True
      then show ?thesis
        using crash_torn_manifest [OF mid1 tabs log torn(1) torn(3) [unfolded bs] keep _ opts] by simp
    next
      case False
      then have j: "17 \<le> j" "length (content x) + 17 \<le> keep MANIFEST_FILE"
        by auto
      define y where "y = \<lparr>content = content x @ ?E, durable = length (content x @ ?E)\<rparr>"
      let ?u = "set_file MANIFEST_FILE y v"
      have y: "files w2 MANIFEST_FILE = Some y"
        using torn(1) by (simp add: w2 file_of_def y_def)
      have ku: "crash_keeps keep ?u"
        using keep j(2) by (simp add: crash_keeps_def y_def)
      have "files (crash keep ?u) f = files (crash keep v) f" for f
        using torn(3) j by (simp add: bs y_def)
      then have eq: "crash keep ?u = crash keep v"
        by (intro world.equality) (simp_all add: fun_eq_iff del: files_crash)
      show ?thesis
        by (rule mid_crash [OF mid2 rec2 ku opts2]) (use y same eq in auto)
    qed
  qed
qed

text \<open>The step writes files that recovery does not read.\<close>

lemma crash_in_new_table:
  assumes mid: "mid_engine K n0 p c e w" and part: "part_written w w' v"
    and same: "same_recovery (listed p c (sh_version (eng_shared e))) w w'"
    and keep: "crash_keeps keep v" and opts: "max_levels opts = max_levels (eng_options e)"
  shows "\<exists>e'. engine_open_with opts (crash keep v) = (Ok e', crash keep v) \<and> engine_map e' (crash keep v) = engine_map e w"
proof -
  have "same_recovery (listed p c (sh_version (eng_shared e))) w v"
    using part_written_same [OF part] part_written_tables [OF part] same by (simp add: same_recovery_def)
  then show ?thesis
    by (rule mid_crash [OF mid _ keep opts]) auto
qed


section \<open>What the steps of a flush write\<close>

lemma new_table_recovery:
  assumes mid: "mid_engine K n0 p c e w" and i: "i \<in> pass_ids p \<union> call_ids c"
    and ch: "changes {table_file_name i, tmp_path (table_file_name i)} w w'"
  shows "same_recovery (listed p c (sh_version (eng_shared e))) w w'"
proof -
  have "i \<notin> sst_id ` tables_of (listed p c (sh_version (eng_shared e)))"
    using mid_invD(9) [OF mid_engineD(1) [OF mid] i] by (simp add: mid_tables_def image_Un del: set_concat)
  then have "\<forall>t \<in> tables_of (listed p c (sh_version (eng_shared e))). sst_id t \<noteq> i"
    by blast
  then show ?thesis
    using ch by (simp add: same_recovery_def same_tables_def changes_def del: set_concat)
qed



section \<open>What the steps of a pass write\<close>

lemma same_recovery_refl [simp]: "same_recovery L w w"
  by (simp add: same_recovery_def same_tables_def)

lemma worker_turn_writes:
  assumes mid: "mid_engine K n0 p c e w" and fp: "failpoint w = None" and cap: "capacity fl (eng_options e) K"
    and turn: "worker_turn fl (e, w, p) = (e', w', p')" and nb: "\<And>v job ot. p \<noteq> Built v job ot"
  obtains (append) r where "w' = file_sync MANIFEST_FILE (file_append MANIFEST_FILE (encode_record r) w)"
  | (other) "same_recovery (listed p c (sh_version (eng_shared e))) w w'"
proof (cases p)
  case (Picked v0 job)
  let ?m = "sh_manifest (eng_shared e)"
  let ?w = "file_sync MANIFEST_FILE (file_append MANIFEST_FILE (encode_record (SetNextTableId (next_table_id ?m + 1))) w)"
  have "man_file ?m = MANIFEST_FILE"
    using mid_invD(1) [OF mid_engineD(1) [OF mid]] by (simp add: disk_inv_def man_at_def)
  then obtain q sh where "pass_step fl p (eng_shared e, w) = (q, sh, ?w)"
    using Picked fp by (simp add: pass_next_def on_manifest_def man_next_table_id_def man_append_def should_fail_def Let_def)
  then have "w' = ?w"
    using worker_turn_pass [of fl p e w q sh ?w] turn Picked fp by simp
  then show ?thesis by (rule append)
next
  case (Numbered v0 job i)
  let ?opts = "eng_options e" and ?v = "sh_version (eng_shared e)"
  let ?d = "may_drop_tombstones v0 ?opts job"
  have pick: "picked_from ?v ?opts v0 job"
    using mid_engineD(9) [OF mid] Numbered by simp
  note v = mid_engine_version [OF mid]
  note live = picked_live [OF pick v(1,3) mid_engineD(3) [OF mid]]
  have "good_table K w t" if "t \<in> set (inputs job)" for t
    by (rule mid_good [OF mid_engineD(1) [OF mid]]) (use that live(1,2) in \<open>auto simp: mid_tables_def simp del: set_concat\<close>)
  then have ts: "list_all (sst_ok w) (inputs job)" "\<And>t. t \<in> set (inputs job) \<Longrightarrow> layer_ok K (entries_map w t)"
    by (auto simp: list_all_iff good_table_def table_at_def)
  note merged = merged_entries [OF ts(1), of ?d]
  have fault: "failpoint w \<notin> table_faults"
    using fp by (simp add: table_faults_def)
  obtain t w1 where create: "sst_create fl (table_file_name i) i (filter (keep_entry ?d) (merge_ref (map (sst_entries w) (inputs job))))
        (bloom_false_positive_rate ?opts) (opt_block_size ?opts) w = (Ok t, w1)"
      and ch: "changes {table_file_name i, tmp_path (table_file_name i)} w w1"
    by (rule create_ok [OF cap merged(2) merged_layer [OF ts] fault])
  have "worker_turn fl (e, w, p) = (e\<lparr>eng_shared := eng_shared e, eng_worker := eng_worker e\<rparr>, w1, Built v0 job (set_level (output_level job) t))"
    by (rule worker_turn_pass)
      (use create merged(1) mid_engineD(5) [OF mid] fp ch Numbered in \<open>simp_all add: pass_next_def on_world_def compact_def changes_def\<close>)
  then have "w' = w1"
    using turn by simp
  then show ?thesis
    using new_table_recovery [OF mid _ ch] Numbered by (intro other) simp
next
  case (Installed v0 job)
  have "set (inputs job) \<subseteq> tables_of v0"
    using mid_engineD(9) [OF mid] Installed by simp
  then have "pass_step fl p (eng_shared e, w) = (Returned (Ok ()), eng_shared e, w)"
    using remove_files_snapshot Installed by simp
  then have "w' = w"
    using worker_turn_pass [of fl p e w] turn Installed fp by fastforce
  then show ?thesis by (intro other) simp
next
  case (Recorded v0 job ot)
  have "\<exists>q sh. pass_step fl p (eng_shared e, w) = (q, sh, w)"
    using Recorded by (cases "apply_compaction job ot (sh_version (eng_shared e))") (simp_all add: pass_next_def)
  then obtain q sh where "pass_step fl p (eng_shared e, w) = (q, sh, w)"
    by blast
  then have "w' = w"
    using worker_turn_pass [of fl p e w] turn Recorded fp by fastforce
  then show ?thesis by (intro other) simp
next
  case Started
  obtain q where "pass_step fl p (eng_shared e, w) = (q, eng_shared e, w)"
    using Started by simp
  then have "w' = w"
    using worker_turn_pass [of fl p e w] turn Started fp by fastforce
  then show ?thesis by (intro other) simp
next
  case Waiting
  then have "w' = w"
    using turn by (auto simp: worker_turn_def Let_def split: if_splits list.splits compaction_message.splits)
  then show ?thesis by (intro other) simp
next
  case (Returned r)
  then have "w' = w"
    using turn by (auto simp: worker_turn_def split: result.splits)
  then show ?thesis by (intro other) simp
next
  case (Built v0 job ot)
  then show ?thesis using nb by blast
qed

text \<open>
  C6: a crash inside a pass of the worker loses nothing, as long as it is not between the manifest records of the
  compaction. Let the worker take any number of turns between two calls and let the process die inside its next turn: while
  the id of the output is appended to the manifest, while the output is written and renamed, or while the version is
  replaced. Whatever part of the turn has reached the files, the next open succeeds and finds the map as it was.
\<close>

theorem crash_during_pass:
  assumes "engine_ok K e w" and "eng_immutable e = None" and "1 < max_levels (eng_options e)"
    and "capacity fl (eng_options e) K" and "failpoint w = None" and "id_use e < 2 ^ 64"
    and "(worker_turn fl ^^ n) (e, w, Waiting) = (e1, w1, p)" and "\<forall>v job ot. p \<noteq> Built v job ot"
    and "worker_turn fl (e1, w1, p) = (e2, w2, p')"
    and "part_written w1 w2 v" and "crash_keeps keep v" and "max_levels opts = max_levels (eng_options e)"
  shows "\<exists>e'. engine_open_with opts (crash keep v) = (Ok e', crash keep v) \<and> engine_map e' (crash keep v) = engine_map e w"
proof -
  obtain n0 where mid: "mid_engine K n0 Waiting idle e w" and wk: "worker_ok (eng_worker e)"
    using assms(1-3) mid_engine_idle [OF refl, of K _ e w] by (auto simp: engine_ok_def)
  have room: "mid_use Waiting idle e < 2 ^ 64"
    using assms(6) by (simp add: mid_use_def)
  have "mid_move K Waiting idle e w p idle e1 w1"
    using worker_turns_ok [OF mid wk assms(5,4) room, of n] assms(7) by auto
  then obtain n1 where 1: "mid_engine K n1 p idle e1 w1" "worker_ok (eng_worker e1)" "failpoint w1 = None" "capacity fl (eng_options e1) K"
      "mid_use p idle e1 < 2 ^ 64" "engine_map e1 w1 = engine_map e w" "eng_options e1 = eng_options e"
    using assms(4,5) room by (auto simp: mid_move_defs)
  then have "mid_move K p idle e1 w1 p' idle e2 w2"
    using worker_turn_ok [OF 1(1-5)] assms(9) by auto
  then obtain n2 where 2: "mid_engine K n2 p' idle e2 w2" "engine_map e2 w2 = engine_map e1 w1" "eng_options e2 = eng_options e1"
    by (auto simp: mid_move_defs)
  have opts: "max_levels opts = max_levels (eng_options e1)"
    using assms(12) 1(7) by simp
  show ?thesis
    using worker_turn_writes [OF 1(1,3,4) assms(9)] assms(8) crash_in_append [OF 1(1) 2 _ assms(10,11) opts]
      crash_in_new_table [OF 1(1) assms(10) _ assms(11) opts]
    unfolding 1(6) by metis
qed

section \<open>Witnesses\<close>

text \<open>
  The first step of a flush and the step of a pass that takes an id, cut off when five bytes of the record with the next
  id are in the manifest; the crash keeps them.
\<close>

definition keep_all :: "world \<Rightarrow> string \<Rightarrow> nat" where
  "keep_all w f = durable (file_of f w) + length (content (file_of f w))"

lemma crash_keeps_all: "crash_keeps (keep_all w) w"
  by (simp add: crash_keeps_def keep_all_def file_of_def)

lemma part_written_append:
  assumes "files w f = Some x"
  shows "part_written w (file_sync f (file_append f bs w)) (file_append f (take j bs) w)"
  using assms by (auto simp: part_written_def file_of_def intro!: exI [of _ x] exI [of _ bs] exI [of _ j])


lemma example_pass:
  obtains e w v job e1 where "engine_ok example_keys e w" and "eng_options e = options_for_test" and "failpoint w = None"
    and "id_use e \<le> 4" and "eng_immutable e = None" and "engine_map e w [97] = Some [2]"
    and "(worker_turn f64_example ^^ 2) (e, w, Waiting) = (e1, w, Picked v job)" and "eng_shared e1 = eng_shared e"
proof (rule example_two_tables)
  fix e w t2 t1 ls
  assume e: "engine_ok example_keys e w" "eng_options e = options_for_test" "failpoint w = None" "id_use e = 3"
      "levels (sh_version (eng_shared e)) = [t2, t1] # ls" "concat ls = []" "ls \<noteq> []"
      "buffer_look e [97] = None" "entries_map w t2 [97] = Some (Value [2])" "eng_immutable e = None" "eng_worker e = worker_start"
  let ?e = "maybe_request_compaction e" and ?sh = "eng_shared e" and ?v = "sh_version (eng_shared e)"
  have opts: "sh_options ?sh = options_for_test" "length (levels ?v) = max_levels options_for_test"
    using e(1,2) by (auto simp: engine_ok_def engine_inv_def shared_inv_def)
  obtain job where pick: "pick_compaction ?v options_for_test = Some job"
    using pick_two [OF e(5-7) _ opts(2)] by (auto simp: options_for_test_def)
  have e': "?e = e\<lparr>eng_worker := worker_start\<lparr>pending := [Compact]\<rparr>\<rparr>"
    using e(2,5,11) by (simp add: maybe_request_compaction_def request_compaction_def options_for_test_def worker_start_def)
  let ?e1 = "e\<lparr>eng_shared := ?sh, eng_worker := worker_start\<rparr>"
  have "worker_turn f64_example (?e, w, Waiting) = (e\<lparr>eng_worker := worker_start\<rparr>, w, Started)"
    by (simp add: worker_turn_def e' worker_start_def)
  moreover have "worker_turn f64_example (e\<lparr>eng_worker := worker_start\<rparr>, w, Started) = (?e1, w, Picked ?v job)"
    using worker_turn_pass [of f64_example Started "e\<lparr>eng_worker := worker_start\<rparr>" w "Picked ?v job" ?sh w] pick opts(1) e(3) by simp
  ultimately have "(worker_turn f64_example ^^ 2) (?e, w, Waiting) = (?e1, w, Picked ?v job)"
    by (simp add: numeral_2_eq_2)
  moreover have "engine_map ?e w [97] = Some [2]"
    using e(5,8,9) by (simp add: engine_map_def engine_look_def)
  ultimately show thesis
    using that [of ?e w ?e1 ?v job] e maybe_request_id_use [of e] by simp
qed

theorem crash_during_pass_witness:
  "\<exists>e w e1 v job e2 w2 p' tail u e'. engine_map e w [97] = Some [2] \<and>
     (worker_turn f64_example ^^ 2) (e, w, Waiting) = (e1, w, Picked v job) \<and>
     worker_turn f64_example (e1, w, Picked v job) = (e2, w2, p') \<and>
     u = file_append MANIFEST_FILE tail w \<and> length tail = 5 \<and> part_written w w2 u \<and>
     engine_open_with options_for_test (crash (keep_all u) u) = (Ok e', crash (keep_all u) u) \<and>
     engine_map e' (crash (keep_all u) u) [97] = Some [2]"
proof (rule example_pass)
  fix e w v job e1
  assume e: "engine_ok example_keys e w" "eng_options e = options_for_test" "failpoint w = None" "id_use e \<le> 4"
      "eng_immutable e = None" "engine_map e w [97] = Some [2]"
      and turns: "(worker_turn f64_example ^^ 2) (e, w, Waiting) = (e1, w, Picked v job)" and e1: "eng_shared e1 = eng_shared e"
  let ?m = "sh_manifest (eng_shared e)"
  let ?E = "encode_record (SetNextTableId (next_table_id ?m + 1))"
  let ?w2 = "file_sync MANIFEST_FILE (file_append MANIFEST_FILE ?E w)" and ?v = "file_append MANIFEST_FILE (take 5 ?E) w"
  obtain n0 where man: "man_at n0 ?m w"
    using e(1) by (auto simp: engine_ok_def engine_inv_def shared_inv_defs)
  then obtain x where x: "files w MANIFEST_FILE = Some x"
    by (auto simp: man_at_def man_replays_def)
  obtain q sh where "pass_step f64_example (Picked v job) (eng_shared e1, w) = (q, sh, ?w2)"
    using man e(3) by (simp add: pass_next_def on_manifest_def man_next_table_id_def man_append_def should_fail_def Let_def man_at_def e1)
  then obtain e2 where turn: "worker_turn f64_example (e1, w, Picked v job) = (e2, ?w2, q)"
    using worker_turn_pass [of f64_example "Picked v job" e1 w q sh ?w2] e(3) by simp
  note part = part_written_append [OF x, of ?E 5]
  have hyps: "1 < max_levels (eng_options e)" "capacity f64_example (eng_options e) example_keys" "id_use e < 2 ^ 64"
      "max_levels options_for_test = max_levels (eng_options e)"
    using example_capacity [OF order_refl] e(4) by (simp_all add: e(2) options_for_test_def)
  from crash_during_pass [OF e(1,5) hyps(1,2) e(3) hyps(3) turns _ turn part crash_keeps_all hyps(4)]
  obtain e' where "engine_open_with options_for_test (crash (keep_all ?v) ?v) = (Ok e', crash (keep_all ?v) ?v)"
      "engine_map e' (crash (keep_all ?v) ?v) = engine_map e w"
    by auto
  then show ?thesis
    using turns turn part e(6)
    by (intro exI [of _ e] exI [of _ w] exI [of _ e1] exI [of _ v] exI [of _ job] exI [of _ e2] exI [of _ ?w2] exI [of _ q]
        exI [of _ "take 5 ?E"] exI [of _ ?v] exI [of _ e']) simp
qed

end
