(* ===== verification/Spec2Isabelle.thy ===== *)
theory Spec2Isabelle
  imports Races Workload Flush_Crash
begin

text \<open>
  A verification of the LSM storage engine, a single-process key-value store: writes go to a write-ahead log and a
  memtable, a full memtable is flushed into a sorted table, tables are merged level by level, and a manifest lists the
  live ones. The theories follow the source files under \<^verbatim>\<open>src/src/\<close>, one operation at a time.

  \<^bold>\<open>Conventions.\<close> A fallible call returns \<open>Ok\<close>, \<open>Err\<close> with the crate's error, or \<open>Panic\<close> (\<open>Prelude\<close>); a stateful one takes and
  returns its state. Bytes, checksums, ids, offsets and lengths that are stored or hashed are words of their width, with
  wrapping arithmetic as in a release build; in-memory sizes (\<^verbatim>\<open>usize\<close>) are naturals. The file system is one directory of files
  with contents and a durable prefix (\<open>Io\<close>): a crash keeps of every file some prefix that covers what was synced, and
  injected failures are the \<^verbatim>\<open>failpoints\<close> module of \<^verbatim>\<open>wal.rs\<close>. A lock is taken and released within one step. The background thread
  is modelled twice: in \<open>Engine\<close> a round of it is one whole pass of \<^verbatim>\<open>compact_once\<close>, run between the calls of the engine; in \<open>Phases\<close> the pass
  and the calls that flush are cut at the points where they hold no lock, and the steps of both run in any order.
  That a directory entry survives a crash as soon as it is made is an assumption on the file system.

  \<^bold>\<open>Components.\<close>
  \<^item> \<open>Crc\<close> (\<^verbatim>\<open>crc.rs\<close>): the CRC32 loop, and that it notices every single changed byte (locale \<open>checksum\<close>).
  \<^item> \<open>MemTable\<close> (\<^verbatim>\<open>memtable.rs\<close>): the sorted map and its size counter (locale \<open>write_buffer\<close>).
  \<^item> \<open>Wal_Record\<close>, \<open>Wal\<close> (\<^verbatim>\<open>record.rs\<close>, \<^verbatim>\<open>wal.rs\<close>) and \<open>Manifest\<close> (\<^verbatim>\<open>manifest.rs\<close>): the two append-only logs. What they have in common, replay
    and torn tails, is proved once in the locale \<open>log_format\<close> of \<open>Log_Format\<close>.
  \<^item> \<open>Bloom\<close> (\<^verbatim>\<open>bloom.rs\<close>, locale \<open>membership_filter\<close>) and \<open>Cache\<close> (\<^verbatim>\<open>cache.rs\<close>, locale \<open>read_through\<close>): no false negatives; a cached block is the
    stored one, the byte budget holds, and eviction is least recently used.
  \<^item> \<open>SsTable_Format\<close> (locale \<open>sealed_format\<close> for blocks and index), \<open>Binary_Search\<close>, \<open>SsTable\<close>, \<open>SsTable_Create\<close> (\<^verbatim>\<open>sstable.rs\<close>): what \<^verbatim>\<open>create\<close>
    writes is what \<^verbatim>\<open>open\<close>, \<^verbatim>\<open>get\<close> and the iterator read, also after a crash; a failed \<^verbatim>\<open>create\<close> leaves no table.
  \<^item> \<open>Layers\<close>: lookup through layers, newest first, and the reference merge \<open>merge_ref\<close> that the two merging loops of the program compute.
  \<^item> \<open>Compaction\<close> (\<^verbatim>\<open>compaction.rs\<close>): the k-way merge and the worker with its queue. \<open>Levels\<close> (\<^verbatim>\<open>options.rs\<close>, the \<^verbatim>\<open>Version\<close> part of \<^verbatim>\<open>engine.rs\<close>): picking
    a job, when tombstones may go, and applying the output.
  \<^item> \<open>Engine\<close> (\<^verbatim>\<open>engine.rs\<close>): open with recovery, get, put, delete, flush, compact, close and drop. \<open>Scan\<close>: the range iterator.
  \<^item> \<open>Workload\<close> (\<^verbatim>\<open>bin/workload.rs\<close>): the benchmark driver, a client of the engine with its worker running.

  \<^bold>\<open>The proofs about the engine.\<close> \<open>Engine_Inv\<close> defines the user's map \<open>engine_map e w\<close> (memtable, immutable memtable, then the tables from the
  newest on, tombstones hidden) and the invariant: every live table is readable and durable under its own file name and is
  the one \<^verbatim>\<open>open\<close> would load; levels below L0 are disjoint; the manifest on disk lists the live tables; the log replays to the
  memtables; the cache is coherent. \<open>Engine_Ops\<close> and \<open>Engine_Compact\<close> show what flush, put, delete, compaction, the worker and
  closing do to it, \<open>Recovery\<close> that opening restores it, also after a crash. \<open>Engine_Run\<close> puts them together: the locale \<open>simulation\<close> lifts
  the step results to runs, and from an empty directory every run answers like a plain sorted map. \<open>Engine_Faults\<close> and \<open>Compaction_Crash\<close>
  look inside the operations, at injected failures and crashes between two writes; they also prove where the code falls short
  of its documentation. The properties below span several components.

  \<^bold>\<open>Two threads.\<close> \<open>Phases\<close> has the steps: \<open>worker_turn\<close> for the worker, \<open>call_turn\<close> for \<^verbatim>\<open>put\<close>, \<^verbatim>\<open>delete\<close> and \<^verbatim>\<open>flush\<close>; without interruption
  they are the operations of \<open>Engine\<close>. \<open>Interleave_Inv\<close> says what holds between any two steps, when the version in memory and
  the manifest may differ and some ids and tables are in flight; \<open>Interleave_Pass\<close> and \<open>Interleave_Call\<close> show that each step of either thread
  keeps it and the user's map; \<open>Interleave_Run\<close> runs calls under any schedule, with crashes between any two steps, against the reference map, by the same
  locale \<open>simulation\<close>. A crash there falls between two steps, and the append and sync of a log record and the manifest records of one compaction
  are one step each. \<open>Flush_Crash\<close> looks inside the steps: a crash in the middle of any step of a flush, and in the middle of any step of a pass
  but the one that records its result, recovers the map; \<open>Engine_Faults\<close> has the crash between the append and the sync of a log record and
  \<open>Compaction_Crash\<close> the one between the manifest records of a compaction, which can bring an old value back. \<open>Interleave_Run\<close> needs two
  levels or more and leaves out \<^verbatim>\<open>compact\<close> by the caller: \<open>Races\<close> shows that this call
  can bring deleted data back while the worker is in a pass, and that with one level a restart can undo a write.

  \<^bold>\<open>Bounds.\<close> \<open>capacity\<close> keeps the 32-bit length fields exact: fewer than \<open>2^32\<close> distinct keys, a block size of at most \<open>2^31\<close>, Bloom filters
  below \<open>2^32\<close> bytes. Table ids are 64-bit and increase; \<open>id_use\<close> counts the ids handed out and requested, and a call uses at most two, so
  runs of fewer than \<open>2^63\<close> commands never wrap. \<open>max_levels\<close> lies between 1 and \<open>2^32\<close>. No model needs fuel: the recursive loops come with
  termination measures (bytes or entries left).

  \<^bold>\<open>Not modelled.\<close> Floating point: the two rounded results of the filter's sizing formula are parameters. Readers on a third thread: the engine is used
  by one thread at a time, besides its worker. Errors of the operating system other than the failpoints, missing files and short reads, and running out
  of memory (\<^verbatim>\<open>Vec::with_capacity\<close> of a count read from a file is no step of the model: the counts have 32 bits, so it cannot overflow). Loss of
  directory entries: the code syncs the directory after a manifest append and a rename, without looking at the outcome, and not after \<^verbatim>\<open>wal.log\<close> is
  created or files are removed. Timing, statistics and output of the benchmark driver, the
  Criterion benchmarks and the tests.
\<close>

section \<open>Reads and writes\<close>

text \<open>
  C10: \<^verbatim>\<open>get\<close> in any good state returns what the map has, through memtables, key ranges, Bloom filters, the block cache
  and the tables of every level, and leaves the files and the map alone; a key that is empty or too long is rejected.
\<close>

theorem get_reads_map:
  assumes "engine_ok K e w"
  shows "(key_error k = None \<longrightarrow> (\<exists>e'. engine_get k (e, w) = (Ok (engine_map e w k), e', w) \<and>
            engine_ok K e' w \<and> engine_map e' w = engine_map e w)) \<and>
         (\<forall>err. key_error k = Some err \<longrightarrow> engine_get k (e, w) = (Err err, e, w))"
proof (intro conjI impI allI)
  obtain n0 where inv: "engine_inv K n0 e w" and wk: "worker_ok (eng_worker e)"
    using assms by (auto simp: engine_ok_def)
  show "\<exists>e'. engine_get k (e, w) = (Ok (engine_map e w k), e', w) \<and> engine_ok K e' w \<and> engine_map e' w = engine_map e w"
    if "key_error k = None"
    by (rule engine_get_ok [OF inv, of k]) (use that wk in \<open>auto simp: key_error_validate engine_ok_def\<close>)
  show "engine_get k (e, w) = (Err err, e, w)" if "key_error k = Some err" for err
    using that by (simp add: engine_get_def key_error_validate)
qed

theorem get_reads_map_witness:
  "\<exists>e w e'. engine_get [97] (e, w) = (Ok (Some [1]), e', w) \<and> engine_get [] (e, w) = (Err EmptyKey, e, w)"
proof (rule example_put)
  fix e w
  assume e: "engine_ok example_keys e w" "engine_map e w = [[97] \<mapsto> [1]]"
  have "key_error [97] = None" "key_error [] = Some EmptyKey"
    by (simp_all add: key_error_def)
  then show ?thesis
    using get_reads_map [OF e(1), of "[97]"] get_reads_map [OF e(1), of "[]"] e(2) by fastforce
qed

text \<open>
  C3: an acknowledged write survives. In any good state in which no earlier flush has failed (\<open>eng_immutable e = None\<close>), once
  \<^verbatim>\<open>put\<close> has returned, with or without a flush on the way, every restart after every crash finds the key with that value
  and all other keys as they were.
\<close>

theorem put_survives_crash:
  assumes "engine_ok K e w" and "eng_immutable e = None" and "capacity fl (eng_options e) K" and "failpoint w = None"
    and "id_use e < 2 ^ 64 - 1" and "k \<in> K" and "key_error k = None" and "value_error v = None"
    and "max_levels opts = max_levels (eng_options e)"
  shows "\<exists>e' w'. engine_put fl k v (e, w) = (Ok (), e', w') \<and> engine_map e' w' = (engine_map e w)(k \<mapsto> v) \<and>
    (\<forall>keep. crash_keeps keep w' \<longrightarrow>
       (\<exists>e''. engine_open_with opts (crash keep w') = (Ok e'', crash keep w') \<and>
          engine_map e'' (crash keep w') = (engine_map e w)(k \<mapsto> v)))"
proof -
  have op: "op_fits (Put k v)" "fst (op_entry (Put k v)) \<in> K"
    using assms(6-8) by (auto simp: key_error_def value_error_def op_fits_def record_consts split: if_splits)
  have room: "id_room (eng_shared e)"
    using assms(5) by (simp add: id_room_iff id_use_def next_no_def)
  show ?thesis
  proof (rule engine_write_ok [OF assms(1-3) op assms(4) room])
    fix e' w'
    assume put: "engine_write fl (Put k v) (e, w) = (Ok (), e', w')" and good: "good_step K 2 e w e' w'"
      and map': "engine_map e' w' = (engine_map e w)(fst (op_entry (Put k v)) := visible (Some (snd (op_entry (Put k v)))))"
    obtain n0 where inv: "engine_inv K n0 e' w'"
      using good by (auto simp: good_step_def engine_ok_def)
    have len: "max_levels opts = max_levels (eng_options e')"
      using assms(9) good by (simp add: good_step_def)
    have "\<exists>e''. engine_open_with opts (crash keep w') = (Ok e'', crash keep w') \<and>
        engine_map e'' (crash keep w') = (engine_map e w)(k \<mapsto> v)" if keep: "crash_keeps keep w'" for keep
      by (rule engine_restart_ok [OF inv keep len]) (use map' in auto)
    then show ?thesis
      using put map' assms(7,8) by (auto simp: engine_put_def key_error_validate value_error_validate)
  qed
qed

theorem put_survives_crash_witness:
  "\<exists>e w e' w' e''. engine_put f64_example [98] [2] (e, w) = (Ok (), e', w') \<and>
     engine_open_with options_for_test (crash (keep_synced w') w') = (Ok e'', crash (keep_synced w') w') \<and>
     engine_map e'' (crash (keep_synced w') w') = [[97] \<mapsto> [1], [98] \<mapsto> [2]]"
proof (rule example_put)
  fix e w
  assume e: "engine_ok example_keys e w" "eng_options e = options_for_test" "eng_immutable e = None" "failpoint w = None"
      "id_use e = 1" "engine_map e w = [[97] \<mapsto> [1]]"
  have hyps: "capacity f64_example (eng_options e) example_keys" "id_use e < 2 ^ 64 - 1" "[98 :: u8] \<in> example_keys"
      "max_levels options_for_test = max_levels (eng_options e)"
    using example_capacity [OF order_refl] by (simp_all add: e(2,5))
  obtain e' w' where "engine_put f64_example [98] [2] (e, w) = (Ok (), e', w')"
      and "\<forall>keep. crash_keeps keep w' \<longrightarrow> (\<exists>e''. engine_open_with options_for_test (crash keep w') = (Ok e'', crash keep w') \<and>
          engine_map e'' (crash keep w') = (engine_map e w)([98] \<mapsto> [2]))"
    using put_survives_crash [OF e(1,3) hyps(1) e(4) hyps(2,3) example_errors hyps(4)] by blast
  then show ?thesis
    using crash_keeps_synced [of w'] e(6) by metis
qed

text \<open>
  C9: a scan lists exactly the keys of its range that the map has, each once and in ascending order, with their values;
  deleted and overwritten versions in older layers do not show.
\<close>

theorem scan_lists_range:
  assumes "engine_ok K e w"
  shows "\<exists>it rows. engine_scan start stop (e, w) = Ok it \<and> engine_collect w it = Ok rows \<and> sorted_wrt (<) (map fst rows) \<and>
    (\<forall>k v. (k, v) \<in> set rows \<longleftrightarrow> in_range k start stop \<and> engine_map e w k = Some v)"
proof -
  obtain n0 where inv: "engine_inv K n0 e w"
    using assms by (auto simp: engine_ok_def)
  show ?thesis
  proof (rule engine_scan_spec [OF inv, of start stop])
    fix it rows
    assume rows: "engine_scan start stop (e, w) = Ok it" "engine_collect w it = Ok rows" "ksorted rows"
      "\<And>k. map_of rows k = (if in_range k start stop then engine_map e w k else None)"
    have "(k, v) \<in> set rows \<longleftrightarrow> in_range k start stop \<and> engine_map e w k = Some v" for k v
      using ksorted_map_of [OF rows(3), of k v] rows(4) [of k] by (auto split: if_splits)
    then show ?thesis
      using rows(1-3) by auto
  qed
qed

theorem scan_lists_range_witness:
  "\<exists>e w it rows. engine_scan (Included [97]) (Excluded [98]) (e, w) = Ok it \<and> engine_collect w it = Ok rows \<and>
     (\<forall>k v. (k, v) \<in> set rows \<longleftrightarrow> k = [97] \<and> v = [1])"
proof (rule example_put)
  fix e w
  assume e: "engine_ok example_keys e w" "engine_map e w = [[97] \<mapsto> [1]]"
  obtain it rows where scan: "engine_scan (Included [97]) (Excluded [98]) (e, w) = Ok it" "engine_collect w it = Ok rows"
      "\<forall>k v. (k, v) \<in> set rows \<longleftrightarrow> in_range k (Included [97]) (Excluded [98]) \<and> engine_map e w k = Some v"
    using scan_lists_range [OF e(1)] by blast
  have "in_range [97] (Included [97]) (Excluded [98])"
    by (simp add: in_range_def)
  then have "\<forall>k v. (k, v) \<in> set rows \<longleftrightarrow> k = [97] \<and> v = [1]"
    using scan(3) e(2) by (auto split: if_splits)
  then show ?thesis
    using scan(1,2) by blast
qed

section \<open>Compaction\<close>

text \<open>
  C8: the merge keeps the newest version of every key. Merging any readable tables, newest first, gives the keys in
  ascending order, each once, with the entry a lookup through the tables would find; tombstones go exactly when they are
  to be dropped.
\<close>

theorem merge_newest_wins:
  assumes "list_all (sst_ok w) ts"
  shows "\<exists>es. merge_tables w ts d = Ok es \<and> sorted_wrt (<) (map fst es) \<and>
    (\<forall>k. map_of es k =
       (case tlook w ts k of None \<Rightarrow> None | Some e \<Rightarrow> if e = Tombstone \<and> d then None else Some e))"
proof -
  let ?ess = "map (sst_entries w) ts"
  have "list_all2 (\<lambda>t es. sst_holds t es w) ts ?ess"
    using assms by (simp add: list_all2_conv_all_nth list_all_length sst_ok_def)
  moreover have sorted: "list_all ksorted ?ess"
    using assms sst_ok_ksorted by (auto simp: list_all_iff)
  moreover have "look (map map_of ?ess) k = tlook w ts k" for k
    by (simp add: tlook_def comp_def)
  ultimately show ?thesis
    using merge_tables_ok [of w ts ?ess d] merged_lookup [OF sorted, of d] merged_sorted [OF sorted, of d] by auto
qed

theorem merge_newest_wins_witness:
  "\<exists>w t2 t1 es. merge_tables w [t2, t1] True = Ok es \<and> entries_map w t1 [97] = Some (Value [1]) \<and> map_of es [97] = Some (Value [2])"
proof (rule example_two_tables)
  fix e w t2 t1 ls
  assume e: "engine_ok example_keys e w" "levels (sh_version (eng_shared e)) = [t2, t1] # ls"
      "entries_map w t2 [97] = Some (Value [2])" "entries_map w t1 [97] = Some (Value [1])"
  have "list_all (sst_ok w) [t2, t1]"
    using e(1,2) by (auto simp: engine_ok_def engine_inv_def shared_inv_defs version_ok_def)
  then obtain es where "merge_tables w [t2, t1] True = Ok es"
      "\<forall>k. map_of es k = (case tlook w [t2, t1] k of None \<Rightarrow> None | Some e \<Rightarrow> if e = Tombstone \<and> True then None else Some e)"
    using merge_newest_wins [of w "[t2, t1]" True] by blast
  then show ?thesis
    using e(3,4) by (intro exI [of _ w] exI [of _ t2] exI [of _ t1] exI [of _ es]) simp
qed

text \<open>
  C7: compaction never changes what a reader sees. Whatever failure is injected, one pass returns without a panic, keeps
  the map and the engine's invariant, and leaves the tables of every level below L0 with disjoint key ranges; without a failure
  it succeeds.
\<close>

theorem compact_keeps_map:
  assumes "engine_ok K e w" and "capacity fl (eng_options e) K" and "id_use e < 2 ^ 64 - 1"
  shows "\<exists>r e' w'. engine_compact fl (e, w) = (r, e', w') \<and> r \<noteq> Panic \<and> (failpoint w = None \<longrightarrow> r = Ok ()) \<and>
    engine_ok K e' w' \<and> engine_map e' w' = engine_map e w \<and>
    (\<forall>l < length (levels (sh_version (eng_shared e'))). 0 < l \<longrightarrow> sorted_wrt disjoint_tables (levels (sh_version (eng_shared e')) ! l))"
proof -
  obtain n0 where inv: "engine_inv K n0 e w" and wk: "worker_ok (eng_worker e)"
    using assms(1) by (auto simp: engine_ok_def)
  have room: "id_room (eng_shared e)"
    using assms(3) by (simp add: id_room_iff id_use_def next_no_def)
  show ?thesis
  proof (rule engine_pass [OF inv assms(2) room])
    fix r sh' w'
    assume pass: "compact_once fl (eng_shared e, w) = (r, sh', w')" "r \<noteq> Panic" "failpoint w = None \<longrightarrow> r = Ok ()"
      and step: "table_step K (eng_shared e) w sh' w'"
    define e' where e': "e' = e\<lparr>eng_worker := eng_worker e, eng_shared := sh'\<lparr>last_error := last_error sh'\<rparr>\<rparr>"
    note after = engine_table_step [OF inv step wk e']
    have "version_ok w' (sh_version (eng_shared e'))"
      using after(1) by (auto simp: engine_ok_def engine_inv_def shared_inv_defs)
    then have "sorted_wrt disjoint_tables (levels (sh_version (eng_shared e')) ! l)"
      if "l < length (levels (sh_version (eng_shared e')))" "0 < l" for l
      using that by (cases l; cases "levels (sh_version (eng_shared e'))") (auto simp: version_ok_def list_all_length)
    moreover have "engine_compact fl (e, w) = (r, e', w')"
      using pass(1) by (simp add: engine_compact_def on_shared_def e')
    ultimately show ?thesis
      using pass(2,3) after(1,2) by auto
  qed
qed

theorem compact_keeps_map_witness:
  "\<exists>e w e' w'. pick_compaction (sh_version (eng_shared e)) (sh_options (eng_shared e)) \<noteq> None \<and>
     engine_compact f64_example (e, w) = (Ok (), e', w') \<and> engine_map e w [97] = Some [2] \<and> engine_map e' w' [97] = Some [2]"
proof (rule example_two_tables)
  fix e w t2 t1 ls
  assume e: "engine_ok example_keys e w" "eng_options e = options_for_test" "failpoint w = None" "id_use e = 3"
      "levels (sh_version (eng_shared e)) = [t2, t1] # ls" "concat ls = []" "ls \<noteq> []"
      "buffer_look e [97] = None" "entries_map w t2 [97] = Some (Value [2])"
  have "max_levels (sh_options (eng_shared e)) = length (levels (sh_version (eng_shared e)))" "sh_options (eng_shared e) = options_for_test"
    using e(1,2) by (auto simp: engine_ok_def engine_inv_def shared_inv_def)
  then have picked: "pick_compaction (sh_version (eng_shared e)) (sh_options (eng_shared e)) \<noteq> None"
    using pick_two [OF e(5-7), of options_for_test] by (simp add: options_for_test_def)
  have hyps: "capacity f64_example (eng_options e) example_keys" "id_use e < 2 ^ 64 - 1"
    using example_capacity [OF order_refl] by (simp_all add: e(2,4))
  obtain e' w' where "engine_compact f64_example (e, w) = (Ok (), e', w')" "engine_map e' w' = engine_map e w"
    using compact_keeps_map [OF e(1) hyps] e(3) by auto
  moreover have "engine_map e w [97] = Some [2]"
    using e(5,8,9) by (simp add: engine_map_def engine_look_def)
  ultimately show ?thesis
    using picked by (intro exI [of _ e] exI [of _ w] exI [of _ e'] exI [of _ w']) simp
qed

lemma inputs_gone:
  assumes app: "apply_compaction job ot v = Ok v'" and ol: "output_level job < length (levels v)"
    and t: "t \<in> set (inputs job)" and ot: "sst_id ot \<notin> sst_id ` set (inputs job)"
  shows "t \<notin> set (concat (levels v'))"
proof
  assume "t \<in> set (concat (levels v'))"
  then obtain l where l: "l < length (levels v')" "t \<in> set (levels v' ! l)"
    by (rule in_concat_nth)
  have "length (levels v') = length (levels v)"
    using app by (auto simp: apply_compaction_def and_then_eq_Ok Let_def)
  then have "\<not> is_input job t \<or> t = ot"
    using apply_compaction_nth [OF ol app, of l] l by (auto simp: Let_def split: if_splits)
  then show False
    using t ot by (auto simp: is_input_def)
qed

text \<open>
  C18: a compaction that succeeds leaves the files of its inputs behind. When the pass has returned, the inputs are no
  longer in the version, and the file of each of them is there with its old contents: the snapshot the job was picked from
  keeps every handle alive past the point where the count is read.
\<close>

theorem compaction_leaves_files:
  assumes "shared_inv K n0 sh w" and "capacity fl (sh_options sh) K" and "id_room sh" and "failpoint w = None"
    and "pick_compaction (sh_version sh) (sh_options sh) = Some job" and "t \<in> set (inputs job)"
  shows "\<exists>sh' w'. compact_once fl (sh, w) = (Ok (), sh', w') \<and> t \<notin> set (concat (levels (sh_version sh'))) \<and>
    files w (sst_path t) \<noteq> None \<and> files w' (sst_path t) = files w (sst_path t)"
proof -
  have fp: "failpoint w \<notin> table_faults" "failpoint w \<noteq> Some ManifestWrite"
    using assms(4) by (simp_all add: table_faults_def)
  have vok: "version_ok w (sh_version sh)" and len: "length (levels (sh_version sh)) = max_levels (sh_options sh)"
    and lv: "levels_at K w (sh_version sh)"
    using assms(1) by (simp_all add: shared_inv_defs)
  have live: "t \<in> set (concat (levels (sh_version sh)))"
    using pick_inputs_subset [OF vok len assms(5)] assms(6) by blast
  obtain l where "table_at K w l t"
    using live_table_at [OF lv live] by blast
  then have path: "sst_path t = table_file_name (sst_id t)" "files w (table_file_name (sst_id t)) \<noteq> None"
    by (auto simp: table_at_def)
  show ?thesis
  proof (rule compact_once_ok [OF assms(1,2) fp assms(3)])
    fix sh' w'
    assume once: "compact_once fl (sh, w) = (Ok (), sh', w')" and same: "same_tables (sh_version sh) w w'"
      and "\<And>job. pick_compaction (sh_version sh) (sh_options sh) = Some job \<Longrightarrow>
        \<exists>ot. apply_compaction job ot (sh_version sh) = Ok (sh_version sh') \<and> sst_id ot \<notin> sst_id ` set (inputs job) \<and>
          compacted_by K job ot sh w sh' w'"
    then obtain ot where app: "apply_compaction job ot (sh_version sh) = Ok (sh_version sh')" "sst_id ot \<notin> sst_id ` set (inputs job)"
      using assms(5) by blast
    have "t \<notin> set (concat (levels (sh_version sh')))"
      using inputs_gone [OF app(1) _ assms(6) app(2)] pick_output_level(1) [OF assms(5) len] by blast
    then show ?thesis
      using once same live path by (auto simp: same_tables_def)
  qed
qed

theorem compaction_leaves_files_witness:
  "\<exists>sh w job t sh' w'. pick_compaction (sh_version sh) (sh_options sh) = Some job \<and> t \<in> set (inputs job) \<and>
     compact_once f64_example (sh, w) = (Ok (), sh', w') \<and> t \<notin> set (concat (levels (sh_version sh'))) \<and> files w' (sst_path t) \<noteq> None"
proof (rule example_two_tables)
  fix e w t2 t1 ls
  assume e: "engine_ok example_keys e w" "eng_options e = options_for_test" "failpoint w = None" "id_use e = 3"
      "levels (sh_version (eng_shared e)) = [t2, t1] # ls" "concat ls = []" "ls \<noteq> []"
  let ?sh = "eng_shared e" and ?job = "\<lparr>inputs = [t2, t1], output_level = 1\<rparr>"
  obtain n0 where inv: "shared_inv example_keys n0 ?sh w" and opts: "sh_options ?sh = options_for_test"
    using e(1,2) by (auto simp: engine_ok_def engine_inv_def)
  then have "length (levels (sh_version ?sh)) = max_levels options_for_test"
    by (simp add: shared_inv_def)
  then have pick: "pick_compaction (sh_version ?sh) (sh_options ?sh) = Some ?job"
    unfolding opts by (intro pick_two [OF e(5-7)]) (simp_all add: options_for_test_def)
  have hyps: "capacity f64_example (sh_options ?sh) example_keys" "id_room ?sh" "t1 \<in> set (inputs ?job)"
    using example_capacity [OF order_refl] e(4) by (simp_all add: opts id_room_iff id_use_def next_no_def)
  show ?thesis
    using compaction_leaves_files [OF inv hyps(1,2) e(3) pick hyps(3)] pick hyps(3) by metis
qed

section \<open>Whole runs\<close>

text \<open>
  C12: the engine's bookkeeping is right after every run. Start in an empty directory and run any commands, crashes
  included: table ids are unique, every level below L0 has disjoint key ranges, the manifest on disk opens to the tables of
  the manifest in memory, which are those of the version with their levels, L0 in the order of the flushes
  (\<open>man_matches\<close>), and the log replays to exactly the memtable.
\<close>

theorem run_keeps_bookkeeping:
  assumes "files w MANIFEST_FILE = None" and "files w WAL_FILE_NAME = None" and "failpoint w = None"
    and "0 < max_levels opts" and "max_levels opts \<le> 2 ^ 32"
    and "capacity fl opts (\<Union>c \<in> set cmds. written c)" and "2 * length cmds + 1 < 2 ^ 64"
  shows "\<exists>e0 w0 rs e w'. engine_open_with opts w = (Ok e0, w0) \<and> run_all (run_command fl opts) cmds (e0, w0) = (rs, e, w') \<and>
    distinct (map sst_id (engine_tables e)) \<and>
    list_all (sorted_wrt disjoint_tables) (drop 1 (levels (sh_version (eng_shared e)))) \<and>
    (\<exists>m. man_open w' = (Ok m, w') \<and> man_tables m = man_tables (sh_manifest (eng_shared e)) \<and>
       man_matches m (sh_version (eng_shared e))) \<and>
    (\<exists>ops. wal_replay (eng_wal e) w' = (Ok ops, w') \<and>
       mem_get (fold apply_operation ops mem_new) = mem_get (eng_memtable e))"
proof (rule fresh_run [OF assms(1-6) order_refl assms(7)])
  let ?K = "\<Union>c \<in> set cmds. written c"
  fix e0 w0
  assume opened: "engine_open_with opts w = (Ok e0, w0)"
    and rel: "run_rel fl opts ?K (2 * length cmds + 1) (snd (run_all (run_command fl opts) cmds (e0, w0))) (snd (run_all ref_command cmds []))"
  obtain rs e w' where run: "run_all (run_command fl opts) cmds (e0, w0) = (rs, e, w')"
    by (cases "run_all (run_command fl opts) cmds (e0, w0)")
  obtain n0 where inv: "engine_inv ?K n0 e w'" and imm: "eng_immutable e = None"
    using rel by (auto simp: run run_rel_def engine_ok_def)
  have disk: "disk_inv ?K n0 (sh_manifest (eng_shared e)) (sh_version (eng_shared e)) w'"
    using inv by (simp add: engine_inv_def shared_inv_def)
  have "man_open w' = (Ok ((sh_manifest (eng_shared e))\<lparr>next_table_id := n0\<rparr>), w')"
    using man_at_open(1) disk by (simp add: disk_inv_def)
  moreover have "buffer_look e = mem_get (eng_memtable e)"
    by (simp add: buffer_look_def imm fun_eq_iff split: option.splits)
  moreover have "\<exists>ops. wal_replay (eng_wal e) w' = (Ok ops, w') \<and> mem_get (fold apply_operation ops mem_new) = buffer_look e"
    by (rule engine_log [OF inv]) (use wal_replay_holds in auto)
  ultimately show ?thesis
    using opened run disk by (auto simp: disk_inv_def version_ok_def man_matches_def)
qed

theorem run_keeps_bookkeeping_witness:
  "\<exists>e0 w0 rs e w'. engine_open_with options_for_test empty_world = (Ok e0, w0) \<and>
     run_all (run_command f64_example options_for_test) example_commands (e0, w0) = (rs, e, w') \<and>
     distinct (map sst_id (engine_tables e)) \<and>
     list_all (sorted_wrt disjoint_tables) (drop 1 (levels (sh_version (eng_shared e)))) \<and>
     (\<exists>m. man_open w' = (Ok m, w') \<and> man_tables m = man_tables (sh_manifest (eng_shared e)) \<and>
        man_matches m (sh_version (eng_shared e))) \<and>
     (\<exists>ops. wal_replay (eng_wal e) w' = (Ok ops, w') \<and>
        mem_get (fold apply_operation ops mem_new) = mem_get (eng_memtable e))"
proof -
  have "capacity f64_example options_for_test (\<Union>c \<in> set example_commands. written c)"
    by (intro example_capacity) (simp add: example_commands_def)
  moreover have "2 * length example_commands + 1 < 2 ^ 64"
    by (simp add: example_commands_def)
  ultimately show ?thesis
    using run_keeps_bookkeeping [OF example_world(1) example_world(1) example_world(2) example_options, of f64_example example_commands]
    by blast
qed

section \<open>A write whose flush fails\<close>

text \<open>
  C20: an error from \<^verbatim>\<open>put\<close> does not mean that nothing was written. When the record fills the memtable and the flush it
  triggers fails, the call returns the error, but the value is readable and survives every crash.
\<close>

theorem put_error_may_be_durable:
  assumes "engine_ok K e w" and "eng_immutable e = None" and "capacity fl (eng_options e) K" and "id_use e < 2 ^ 64 - 1"
    and "k \<in> K" and "key_error k = None" and "value_error v = None"
    and "approximate_size (mem_put k v (eng_memtable e)) \<ge> memtable_size_bytes (eng_options e)"
    and "failpoint w \<in> {Some ManifestWrite, Some SsTableWrite, Some SsTableSync, Some Rename}"
    and "max_levels opts = max_levels (eng_options e)"
  shows "\<exists>err e' w'. engine_put fl k v (e, w) = (Err err, e', w') \<and> engine_map e' w' = (engine_map e w)(k \<mapsto> v) \<and>
    (\<forall>keep. crash_keeps keep w' \<longrightarrow>
       (\<exists>e''. engine_open_with opts (crash keep w') = (Ok e'', crash keep w') \<and>
          engine_map e'' (crash keep w') = (engine_map e w)(k \<mapsto> v)))"
proof -
  obtain n0 where inv: "engine_inv K n0 e w"
    using assms(1) by (auto simp: engine_ok_def)
  let ?op = "Put k v"
  let ?w1 = "file_sync WAL_FILE_NAME (file_append WAL_FILE_NAME (op_bytes ?op) w)"
  define e1 where e1: "e1 = e\<lparr>eng_memtable := apply_operation ?op (eng_memtable e)\<rparr>"
  have op: "op_fits ?op" "fst (op_entry ?op) \<in> K"
    using assms(5-7) by (auto simp: key_error_def value_error_def op_fits_def record_consts split: if_splits)
  have path: "wal_path (eng_wal e) = WAL_FILE_NAME" and mem: "mem_inv (eng_memtable e)"
    using inv by (simp_all add: engine_inv_def log_inv_def)
  have put: "engine_put fl k v (e, w) = engine_flush fl (e1, ?w1)"
    using assms(6-9) op path by (auto simp: engine_put_def engine_write_def key_error_validate value_error_validate
        wal_append_def wal_sync_def should_fail_def on_world_def encode_fits e1 Let_def)
  note after = log_step [OF inv op refl e1]
  have "mem_get (eng_memtable e1) k = Some (Value v)"
    by (simp add: e1 apply_operation_get del: apply_operation.simps)
  then have full: "\<not> mem_is_empty (eng_memtable e1)"
    by (auto simp: mem_is_empty_def mem_get_def)
  have fp: "failpoint ?w1 \<in> insert (Some ManifestWrite) table_faults"
    using assms(9) by (auto simp: table_faults_def)
  have rest: "eng_immutable e1 = None" "capacity fl (eng_options e1) K" "id_room (eng_shared e1)"
    using assms(2-4) by (simp_all add: e1 id_room_iff id_use_def next_no_def)
  show ?thesis
  proof (rule flush_fails [OF after(1) rest(1) full rest(2) fp rest(3)])
    fix err e' w' n1
    assume res: "flush_memtable fl (e1, ?w1) = (Err err, e', w')" and inv': "engine_inv K n1 e' w'"
      and same: "engine_map e' w' = engine_map e1 ?w1" "eng_options e' = eng_options e1"
    have len: "max_levels opts = max_levels (eng_options e')"
      using assms(10) same(2) by (simp add: e1)
    have new: "engine_map e' w' = (engine_map e w)(k \<mapsto> v)"
      using same(1) after(2) by simp
    have "\<exists>e''. engine_open_with opts (crash keep w') = (Ok e'', crash keep w') \<and> engine_map e'' (crash keep w') = (engine_map e w)(k \<mapsto> v)"
      if keep: "crash_keeps keep w'" for keep
      by (rule engine_restart_ok [OF inv' keep len]) (simp add: new)
    then show ?thesis
      using res put new by (auto simp: engine_flush_def)
  qed
qed

theorem put_error_may_be_durable_witness:
  "\<exists>e w err e' w' e''. engine_put f64_example [98] (replicate 2048 0) (e, inject Rename w) = (Err err, e', w') \<and>
     engine_map e' w' [98] = Some (replicate 2048 0) \<and>
     engine_open_with options_for_test (crash (keep_synced w') w') = (Ok e'', crash (keep_synced w') w') \<and>
     engine_map e'' (crash (keep_synced w') w') [98] = Some (replicate 2048 0)"
proof (rule example_put)
  fix e w
  assume e: "engine_ok example_keys e w" "eng_options e = options_for_test" "eng_immutable e = None" "id_use e = 1"
      "mem_get (eng_memtable e) = [[97] \<mapsto> Value [1]]"
  let ?v = "replicate 2048 0 :: bytes"
  have hyps: "capacity f64_example (eng_options e) example_keys" "id_use e < 2 ^ 64 - 1" "[98 :: u8] \<in> example_keys"
      "key_error [98] = None" "value_error ?v = None"
    using example_capacity [OF order_refl] by (simp_all add: e(2,4) key_error_def value_error_def)
  have more: "approximate_size (mem_put [98] ?v (eng_memtable e)) \<ge> memtable_size_bytes (eng_options e)"
      "failpoint (inject Rename w) \<in> {Some ManifestWrite, Some SsTableWrite, Some SsTableSync, Some Rename}"
      "max_levels options_for_test = max_levels (eng_options e)"
    by (simp_all add: e(2,5) mem_put_def mem_insert_def options_for_test_def inject_def Let_def)
  obtain err e' w' where put: "engine_put f64_example [98] ?v (e, inject Rename w) = (Err err, e', w')"
      "engine_map e' w' = (engine_map e (inject Rename w))([98] \<mapsto> ?v)"
      and crashed: "\<forall>keep. crash_keeps keep w' \<longrightarrow> (\<exists>e''. engine_open_with options_for_test (crash keep w') = (Ok e'', crash keep w') \<and>
         engine_map e'' (crash keep w') = (engine_map e (inject Rename w))([98] \<mapsto> ?v))"
    using put_error_may_be_durable [OF engine_ok_inject(1) [OF e(1)] e(3) hyps more] by blast
  obtain e'' where "engine_open_with options_for_test (crash (keep_synced w') w') = (Ok e'', crash (keep_synced w') w')"
      "engine_map e'' (crash (keep_synced w') w') = (engine_map e (inject Rename w))([98] \<mapsto> ?v)"
    using crashed crash_keeps_synced by blast
  then show ?thesis
    using put by (intro exI [of _ e] exI [of _ w] exI [of _ err] exI [of _ e'] exI [of _ w'] exI [of _ e'']) simp
qed

end
